(* ===== verification/Cere_Prelude.thy ===== *)
theory Cere_Prelude
  imports Main "HOL-Library.Word" "HOL-Library.Multiset"
begin

text \<open>
  Shared vocabulary of the development: the machine integer types the C++ sources use,
  the ways a call can fail, the fact collections the component theories fill, and the
  generic lemmas on words, lists and probe sequences that the components share.

  Integers are kept at their width: \<open>uint8_t\<close>, \<open>uint16_t\<close>, \<open>uint32_t\<close> and
  \<open>uint64_t\<close> are words, so addition and subtraction wrap as they do in the program.
\<close>

unbundle bit_operations_syntax

type_synonym u8 = "8 word"
type_synonym u16 = "16 word"
type_synonym u32 = "32 word"
type_synonym u64 = "64 word"

text \<open>
  What a call does instead of returning. The first four are the C++ exceptions the sources
  throw; \<open>AssertFail\<close> is a failed \<open>assert\<close>; \<open>BadAlloc\<close> is the failure of a
  \<open>reserve\<close> whose request exceeds what the container can hold.
\<close>

datatype cpp_error =
    InvalidArgument string
  | OutOfRange string
  | RuntimeError string
  | YamlError string
  | AssertFail
  | BadAlloc

type_synonym 'a result = "cpp_error + 'a"

text \<open>Collections: unchanged fields, preserved invariants, and probe arithmetic.\<close>

named_theorems frame_simps \<open>fields an operation leaves alone\<close>
named_theorems inv_intros \<open>operations that keep an invariant\<close>
named_theorems probe_simps \<open>arithmetic of probe sequences\<close>

section \<open>Power-of-two masks\<close>

lemma nat_and_pred_eq_0:
  fixes n :: nat
  assumes "n AND (n - 1) = 0" and "0 < n"
  shows "\<exists>k. n = 2 ^ k"
  using assms
proof (induction n rule: less_induct)
  case (less n)
  show ?case
  proof (cases "even n")
    case False
    then obtain m where m: "n = 2 * m + 1" by (elim oddE)
    have "n AND (n - 1) = 2 * m"
      unfolding m by (simp add: and_nat_rec [of "Suc (2 * m)" "2 * m"])
    with less.prems m have "n = 2 ^ 0" by simp
    then show ?thesis by blast
  next
    case True
    then obtain m where m: "n = 2 * m" by (elim evenE)
    with less.prems have pos: "0 < m" by simp
    obtain j where j: "m = Suc j" using pos by (cases m) auto
    have "n AND (n - 1) = 2 * (m AND (m - 1))"
      unfolding m j by (simp add: and_nat_rec [of "Suc (Suc (2 * j))" "Suc (2 * j)"])
    with less.prems have "m AND (m - 1) = 0" by simp
    with less.IH [of m] m pos obtain k where "m = 2 ^ k" by auto
    with m have "n = 2 ^ Suc k" by simp
    then show ?thesis by blast
  qed
qed

text \<open>A capacity that passes the \<open>static_assert\<close> and is not zero is a power of two.\<close>

lemma word_pow2_assert:
  fixes cap :: "'a::len word"
  assumes "cap AND (cap - 1) = 0" and "cap \<noteq> 0"
  shows "\<exists>k. unat cap = 2 ^ k"
proof -
  have pos: "0 < unat cap" using assms(2) by (simp add: unat_gt_0)
  have "unat (cap - 1) = unat cap - 1"
    using assms(2) by (simp add: unat_minus_one)
  moreover have "unat (cap AND (cap - 1)) = unat cap AND unat (cap - 1)"
    by (simp add: unsigned_and_eq)
  ultimately have "unat cap AND (unat cap - 1) = 0" using assms(1) by simp
  then show ?thesis using pos by (rule nat_and_pred_eq_0)
qed

lemma unat_and_mask:
  fixes w cap :: "'a::len word"
  assumes "unat cap = 2 ^ k"
  shows "unat (w AND (cap - 1)) = unat w mod unat cap"
proof -
  have "cap = 2 ^ k"
  proof -
    have "of_nat (unat cap) = (of_nat (2 ^ k) :: 'a word)" using assms by (rule arg_cong)
    then show ?thesis by simp
  qed
  then have "cap - 1 = mask k" by (simp add: mask_eq_exp_minus_1)
  then have "w AND (cap - 1) = take_bit k w" by (simp add: take_bit_eq_mask)
  then have "unat (w AND (cap - 1)) = take_bit k (unat w)"
    by (simp only: unsigned_take_bit_eq)
  then show ?thesis
    using assms by (simp only: take_bit_eq_mod)
qed

section \<open>Widening conversions\<close>

lemma unat_ucast_widen:
  fixes w :: "'a::len word"
  assumes "LENGTH('a) \<le> LENGTH('b::len)"
  shows "unat (ucast w :: 'b word) = unat w"
proof -
  have "unat w < 2 ^ LENGTH('a)" by (rule unsigned_less)
  also have "(2 :: nat) ^ LENGTH('a) \<le> 2 ^ LENGTH('b)" using assms by (rule power_increasing) simp
  finally show ?thesis by (simp add: unsigned_ucast_eq take_bit_nat_eq_self)
qed

lemma unat_ucast_8_16 [simp]: "unat (ucast (w :: u8) :: u16) = unat w"
  by (rule unat_ucast_widen) simp

lemma unat_ucast_8_32 [simp]: "unat (ucast (w :: u8) :: u32) = unat w"
  by (rule unat_ucast_widen) simp

lemma unat_ucast_16_32 [simp]: "unat (ucast (w :: u16) :: u32) = unat w"
  by (rule unat_ucast_widen) simp

lemma unat_ucast_16_64 [simp]: "unat (ucast (w :: u16) :: u64) = unat w"
  by (rule unat_ucast_widen) simp

lemma unat_ucast_32_64 [simp]: "unat (ucast (w :: u32) :: u64) = unat w"
  by (rule unat_ucast_widen) simp

lemma unat16_less: "unat (w :: u16) < 65536"
  using unsigned_less [of w, where ?'a = nat] by simp

lemma unat8_less: "unat (w :: u8) < 256"
  using unsigned_less [of w, where ?'a = nat] by simp

lemma unat32_less: "unat (w :: u32) < 4294967296"
  using unsigned_less [of w, where ?'a = nat] by simp

section \<open>Probe sequences\<close>

text \<open>
  \<open>ring cap s\<close> is the order in which a linear probe that starts at \<open>s\<close> visits the
  cells of a table with \<open>cap\<close> cells: every cell once, wrapping at the end.
\<close>

definition ring :: "nat \<Rightarrow> nat \<Rightarrow> nat list" where
  "ring cap s = map (\<lambda>i. (s + i) mod cap) [0..<cap]"

lemma length_ring [simp, probe_simps]: "length (ring cap s) = cap"
  by (simp add: ring_def)

lemma mod_add_inj:
  fixes a b :: nat
  assumes "a < c" and "b < c" and "(s + a) mod c = (s + b) mod c"
  shows "a = b"
proof -
  have "(int s + int a) mod int c = (int s + int b) mod int c"
    using assms(3) by (metis of_nat_add of_nat_mod)
  then have "int a mod int c = int b mod int c"
    by (metis add_diff_cancel_left' mod_diff_left_eq mod_diff_cong)
  then show ?thesis using assms(1,2) by simp
qed

lemma distinct_ring [simp, probe_simps]: "distinct (ring cap s)"
  unfolding ring_def
  by (auto simp: distinct_map inj_on_def intro: mod_add_inj)

lemma set_ring [simp, probe_simps]: "set (ring cap s) = {0..<cap}"
proof (cases "cap = 0")
  case True
  then show ?thesis by (simp add: ring_def)
next
  case False
  then have "set (ring cap s) \<subseteq> {0..<cap}" by (auto simp: ring_def)
  moreover have "card (set (ring cap s)) = cap"
    by (simp add: distinct_card)
  ultimately show ?thesis by (simp add: card_subset_eq)
qed

section \<open>Lists\<close>

text \<open>The cells a linear search passes before it comes to \<open>x\<close>.\<close>

definition before :: "'a list \<Rightarrow> 'a \<Rightarrow> 'a list" where
  "before xs x = takeWhile (\<lambda>y. y \<noteq> x) xs"

lemma before_Nil [simp]: "before [] x = []"
  by (simp add: before_def)

lemma before_Cons [simp]: "before (y # ys) x = (if y = x then [] else y # before ys x)"
  by (simp add: before_def)

lemma set_before: "set (before xs x) \<subseteq> set xs"
  unfolding before_def by (auto dest: set_takeWhileD)

lemma not_in_before [simp]: "x \<notin> set (before xs x)"
  unfolding before_def by (auto dest: set_takeWhileD)

lemma length_filter_list_update:
  assumes "i < length xs"
  shows "length (filter P (xs[i := x])) + (if P (xs ! i) then 1 else 0)
       = length (filter P xs) + (if P x then 1 else 0)"
  using assms
proof (induction xs arbitrary: i)
  case Nil
  then show ?case by simp
next
  case (Cons y ys)
  then show ?case by (cases i) auto
qed

lemma length_filter_pos:
  "i < length xs \<Longrightarrow> P (xs ! i) \<Longrightarrow> 0 < length (filter P xs)"
  by (metis filter_empty_conv length_greater_0_conv nth_mem)

lemma find_Some_before:
  assumes "find P xs = Some x"
  shows "P x" and "x \<in> set xs" and "\<forall>y \<in> set (before xs x). \<not> P y"
  using assms by (induction xs) (auto split: if_splits)

lemma find_unique:
  assumes "x \<in> set xs" and "P x" and "\<And>y. y \<in> set xs \<Longrightarrow> P y \<Longrightarrow> y = x"
  shows "find P xs = Some x"
  using assms
proof (induction xs)
  case Nil
  then show ?case by simp
next
  case (Cons a xs)
  then show ?case by (cases "P a") fastforce+
qed

lemma in_takeWhile_iff_before:
  assumes "x \<in> set xs"
  shows "x \<in> set (takeWhile P xs) \<longleftrightarrow> P x \<and> (\<forall>y \<in> set (before xs x). P y)"
  using assms by (induction xs) auto

end
