(* ===== verification/Net_Types.thy ===== *)
theory Net_Types
  imports Cere_Prelude
begin

text \<open>
  The network value types and the configuration of \<open>libs/common\<close>: \<open>IPv4Addr\<close> with its
  text form, \<open>MacAddr\<close>, \<open>BackendInfo\<close>, \<open>Config\<close>, and the loader that fills a
  \<open>Config\<close> from a YAML document. The \<open>sscanf\<close> conversions \<open>%u\<close> and \<open>%x\<close> are
  modelled as the C library runs them (leading white space, an optional sign, greedy digits,
  conversion through \<open>strtoul\<close> to 64 bits, saturation, and truncation to
  \<open>unsigned int\<close>). The YAML library is a parameter: the record \<open>yaml\<close> holds the
  functions of its interface that the loader calls.
\<close>

section \<open>Value types\<close>

record IPv4Addr =
  ip_value :: u32

record MacAddr =
  mac_bytes :: "u8 list"

definition MacAddr_ok :: "MacAddr \<Rightarrow> bool" where
  "MacAddr_ok m \<longleftrightarrow> length (mac_bytes m) = 6"

record BackendInfo =
  bi_ip :: IPv4Addr
  bi_mac :: MacAddr
  bi_port :: u16
  bi_probe_port :: u16

record Config =
  vip :: IPv4Addr
  vip_port :: u16
  self_ip :: IPv4Addr
  self_mac :: MacAddr
  backends :: "BackendInfo list"
  health_interval_ms :: u32
  conntrack_timeout_ms :: u32

definition MacAddr_zero :: MacAddr where
  "MacAddr_zero = \<lparr>mac_bytes = replicate 6 0\<rparr>"

definition BackendInfo_default :: BackendInfo where
  "BackendInfo_default =
     \<lparr>bi_ip = \<lparr>ip_value = 0\<rparr>, bi_mac = MacAddr_zero, bi_port = 0, bi_probe_port = 0\<rparr>"

definition Config_default :: Config where
  "Config_default = \<lparr>vip = \<lparr>ip_value = 0\<rparr>, vip_port = 0, self_ip = \<lparr>ip_value = 0\<rparr>,
     self_mac = MacAddr_zero, backends = [], health_interval_ms = 3000,
     conntrack_timeout_ms = 30000\<rparr>"

section \<open>The conversions of sscanf\<close>

definition c_str :: "string \<Rightarrow> string" where
  "c_str s = takeWhile (\<lambda>c. (of_char c :: nat) \<noteq> 0) s"

definition is_space :: "char \<Rightarrow> bool" where
  "is_space c \<longleftrightarrow> (of_char c :: nat) = 32 \<or> (9 \<le> (of_char c :: nat) \<and> (of_char c :: nat) \<le> 13)"

definition is_dec :: "char \<Rightarrow> bool" where
  "is_dec c \<longleftrightarrow> 48 \<le> (of_char c :: nat) \<and> (of_char c :: nat) \<le> 57"

definition is_hex :: "char \<Rightarrow> bool" where
  "is_hex c \<longleftrightarrow> is_dec c \<or> (65 \<le> (of_char c :: nat) \<and> (of_char c :: nat) \<le> 70)
     \<or> (97 \<le> (of_char c :: nat) \<and> (of_char c :: nat) \<le> 102)"

definition digit_val :: "char \<Rightarrow> nat" where
  "digit_val c = (let n = of_char c :: nat in
     if n \<le> 57 then n - 48 else if n \<le> 70 then n - 55 else n - 87)"

definition digits_val :: "nat \<Rightarrow> string \<Rightarrow> nat" where
  "digits_val base ds = foldl (\<lambda>v c. base * v + digit_val c) 0 ds"

text \<open>\<open>strtoul\<close> saturates at its maximum; a minus sign negates in 64 bits.\<close>

definition strtoul :: "bool \<Rightarrow> nat \<Rightarrow> u64" where
  "strtoul neg v = (if v > 2 ^ 64 - 1 then - 1 else if neg then - of_nat v else of_nat v)"

definition scan_sign :: "string \<Rightarrow> bool \<times> string" where
  "scan_sign s = (case s of
      [] \<Rightarrow> (False, [])
    | c # r \<Rightarrow> if c = CHR ''-'' then (True, r) else if c = CHR ''+'' then (False, r)
               else (False, s))"

definition scan_u :: "string \<Rightarrow> (u32 \<times> string) option" where
  "scan_u s = (let (neg, r) = scan_sign (dropWhile is_space s);
                   ds = takeWhile is_dec r
     in if ds = [] then None
        else Some (ucast (strtoul neg (digits_val 10 ds)), dropWhile is_dec r))"

text \<open>\<open>%x\<close> accepts a \<open>0x\<close> prefix; the zero of the prefix counts as a digit.\<close>

definition scan_x :: "string \<Rightarrow> (u32 \<times> string) option" where
  "scan_x s = (let (neg, r) = scan_sign (dropWhile is_space s);
                   (pre, r') = (case r of
                       z # x # rest \<Rightarrow>
                         if z = CHR ''0'' \<and> (x = CHR ''x'' \<or> x = CHR ''X'') then ([z], rest) else ([], r)
                     | _ \<Rightarrow> ([], r));
                   ds = pre @ takeWhile is_hex r'
     in if ds = [] then None
        else Some (ucast (strtoul neg (digits_val 16 ds)), dropWhile is_hex r'))"

text \<open>
  A format \<open>%c<sep>%c<sep>...\<close> with \<open>n\<close> conversions: the values stored before the
  first mismatch; their number is what \<open>sscanf\<close> returns.
\<close>

fun scan_seq :: "(string \<Rightarrow> (u32 \<times> string) option) \<Rightarrow> char \<Rightarrow> nat \<Rightarrow> string \<Rightarrow> u32 list" where
  "scan_seq conv sep 0 s = []"
| "scan_seq conv sep (Suc n) s =
     (case conv s of None \<Rightarrow> []
      | Some (v, r) \<Rightarrow> v # (if n = 0 then []
          else (case r of [] \<Rightarrow> []
                | c # cs \<Rightarrow> if c = sep then scan_seq conv sep n cs else [])))"

section \<open>IPv4 addresses as text\<close>

definition IPv4Addr_FromString :: "string \<Rightarrow> IPv4Addr result" where
  "IPv4Addr_FromString str =
     (let oct = scan_seq scan_u (CHR ''.'') 4 (c_str str) in
      if length oct \<noteq> 4 then Inl (InvalidArgument (''bad IPv4: '' @ str))
      else if oct ! 0 > 0xFF \<or> oct ! 1 > 0xFF \<or> oct ! 2 > 0xFF \<or> oct ! 3 > 0xFF
      then Inl (InvalidArgument (''IPv4 octet out of range: '' @ str))
      else Inr \<lparr>ip_value = push_bit 24 (oct ! 0) OR push_bit 16 (oct ! 1)
                 OR push_bit 8 (oct ! 2) OR (oct ! 3 AND 0xFF)\<rparr>)"

fun dec :: "nat \<Rightarrow> string" where
  "dec n = (if n < 10 then [char_of (48 + n)] else dec (n div 10) @ [char_of (48 + n mod 10)])"

declare dec.simps [simp del]

definition IPv4Addr_ToString :: "IPv4Addr \<Rightarrow> string" where
  "IPv4Addr_ToString a =
     dec (unat (drop_bit 24 (ip_value a) AND 0xFF)) @ ''.'' @
     dec (unat (drop_bit 16 (ip_value a) AND 0xFF)) @ ''.'' @
     dec (unat (drop_bit 8 (ip_value a) AND 0xFF)) @ ''.'' @
     dec (unat (ip_value a AND 0xFF))"

section \<open>The configuration loader\<close>

fun mac_octets :: "string \<Rightarrow> u32 list \<Rightarrow> (u8 list) result" where
  "mac_octets text [] = Inr []"
| "mac_octets text (v # vs) =
     (if v > 0xFF then Inl (InvalidArgument (''MAC octet out of range: '' @ text))
      else (case mac_octets text vs of Inl e \<Rightarrow> Inl e | Inr bs \<Rightarrow> Inr (ucast v # bs)))"

definition ParseMac :: "string \<Rightarrow> MacAddr result" where
  "ParseMac text =
     (let oct = scan_seq scan_x (CHR '':'') 6 (c_str text) in
      if length oct \<noteq> 6 then Inl (InvalidArgument (''bad MAC: '' @ text))
      else map_sum id (\<lambda>bs. \<lparr>mac_bytes = bs\<rparr>) (mac_octets text oct))"

text \<open>
  What the loader uses of the YAML library: reading a file, \<open>node[key]\<close> (\<open>None\<close> for an
  undefined node), the conversions \<open>as<T>()\<close>, which throw, and iteration.
\<close>

record 'n yaml =
  yaml_LoadFile :: "string \<Rightarrow> 'n result"
  yaml_get :: "'n \<Rightarrow> string \<Rightarrow> 'n option"
  yaml_as_string :: "'n option \<Rightarrow> string result"
  yaml_as_u16 :: "'n option \<Rightarrow> u16 result"
  yaml_as_u32 :: "'n option \<Rightarrow> u32 result"
  yaml_elems :: "'n option \<Rightarrow> 'n list"

definition bind_r :: "'a result \<Rightarrow> ('a \<Rightarrow> 'b result) \<Rightarrow> 'b result" where
  "bind_r m f = (case m of Inl e \<Rightarrow> Inl e | Inr x \<Rightarrow> f x)"

lemma bind_r_simps [simp]: "bind_r (Inl e) f = Inl e" "bind_r (Inr x) f = f x"
  by (simp_all add: bind_r_def)

definition ParseBackend :: "'n yaml \<Rightarrow> 'n \<Rightarrow> BackendInfo result" where
  "ParseBackend Y node =
     bind_r (bind_r (yaml_as_string Y (yaml_get Y node ''ip'')) IPv4Addr_FromString) (\<lambda>ip.
     bind_r (yaml_as_u16 Y (yaml_get Y node ''port'')) (\<lambda>port.
     bind_r (yaml_as_u16 Y (yaml_get Y node ''probe_port'')) (\<lambda>probe.
     bind_r (bind_r (yaml_as_string Y (yaml_get Y node ''mac'')) ParseMac) (\<lambda>mac.
     Inr \<lparr>bi_ip = ip, bi_mac = mac, bi_port = port, bi_probe_port = probe\<rparr>))))"

fun parse_backends :: "'n yaml \<Rightarrow> 'n list \<Rightarrow> (BackendInfo list) result" where
  "parse_backends Y [] = Inr []"
| "parse_backends Y (node # nodes) =
     bind_r (ParseBackend Y node) (\<lambda>b. bind_r (parse_backends Y nodes) (\<lambda>bs. Inr (b # bs)))"

text \<open>An optional \<open>uint32_t\<close> setting: the default stays when the key is absent.\<close>

definition yaml_u32_or :: "'n yaml \<Rightarrow> 'n \<Rightarrow> string \<Rightarrow> u32 \<Rightarrow> u32 result" where
  "yaml_u32_or Y root key dflt =
     (case yaml_get Y root key of None \<Rightarrow> Inr dflt | Some n \<Rightarrow> yaml_as_u32 Y (Some n))"

definition LoadConfig :: "'n yaml \<Rightarrow> string \<Rightarrow> Config result" where
  "LoadConfig Y path =
     bind_r (yaml_LoadFile Y path) (\<lambda>root.
     bind_r (bind_r (yaml_as_string Y (yaml_get Y root ''vip'')) IPv4Addr_FromString) (\<lambda>v.
     bind_r (yaml_as_u16 Y (yaml_get Y root ''vip_port'')) (\<lambda>vp.
     bind_r (bind_r (yaml_as_string Y (yaml_get Y root ''self_ip'')) IPv4Addr_FromString) (\<lambda>si.
     bind_r (bind_r (yaml_as_string Y (yaml_get Y root ''self_mac'')) ParseMac) (\<lambda>sm.
     bind_r (yaml_u32_or Y root ''health_interval_ms'' (health_interval_ms Config_default)) (\<lambda>hi.
     bind_r (yaml_u32_or Y root ''conntrack_timeout_ms'' (conntrack_timeout_ms Config_default)) (\<lambda>ct.
     bind_r (parse_backends Y (yaml_elems Y (yaml_get Y root ''backends''))) (\<lambda>bs.
     Inr \<lparr>vip = v, vip_port = vp, self_ip = si, self_mac = sm, backends = bs,
          health_interval_ms = hi, conntrack_timeout_ms = ct\<rparr>))))))))"

section \<open>Printing and scanning decimal numbers\<close>

lemma of_char_char_of_small: "n < 256 \<Longrightarrow> (of_char (char_of n) :: nat) = n"
  by simp

lemma dec_digits: "c \<in> set (dec n) \<Longrightarrow> is_dec c"
proof (induction n rule: dec.induct)
  case (1 n)
  then show ?case
    by (cases "n < 10") (auto simp: dec.simps [of n] is_dec_def)
qed

lemma dec_nonempty [simp]: "dec n \<noteq> []"
  by (subst dec.simps) simp

lemma digits_val_snoc: "digits_val b (ds @ [c]) = b * digits_val b ds + digit_val c"
  by (simp add: digits_val_def)

lemma digits_val_dec: "digits_val 10 (dec n) = n"
proof (induction n rule: dec.induct)
  case (1 n)
  show ?case
  proof (cases "n < 10")
    case True
    then show ?thesis
      by (subst dec.simps) (simp add: digits_val_def digit_val_def)
  next
    case False
    have "digit_val (char_of (48 + n mod 10)) = n mod 10"
      by (simp add: digit_val_def Let_def)
    with False "1.IH" show ?thesis
      by (subst dec.simps) (simp add: digits_val_snoc)
  qed
qed

lemma is_dec_not_space: "is_dec c \<Longrightarrow> \<not> is_space c"
  by (auto simp: is_dec_def is_space_def)

lemma is_dec_not_sign: "is_dec c \<Longrightarrow> c \<noteq> CHR ''-'' \<and> c \<noteq> CHR ''+''"
  by (auto simp: is_dec_def)

lemma takeWhile_dec: "\<forall>c \<in> set ds. is_dec c \<Longrightarrow> r = [] \<or> \<not> is_dec (hd r) \<Longrightarrow>
    takeWhile is_dec (ds @ r) = ds \<and> dropWhile is_dec (ds @ r) = r"
  by (cases r) (auto simp: takeWhile_append dropWhile_append)

text \<open>Scanning what was printed gives the number back and leaves the rest.\<close>

lemma scan_u_dec:
  assumes "n < 2 ^ 32" and "r = [] \<or> \<not> is_dec (hd r)"
  shows "scan_u (dec n @ r) = Some (of_nat n, r)"
proof -
  obtain c cs where c: "dec n = c # cs" by (cases "dec n") auto
  then have dc: "is_dec c" by (metis dec_digits list.set_intros(1))
  have "dropWhile is_space (dec n @ r) = dec n @ r"
    using c dc by (simp add: is_dec_not_space)
  moreover have "scan_sign (dec n @ r) = (False, dec n @ r)"
    using c is_dec_not_sign [OF dc] by (simp add: scan_sign_def)
  moreover have "takeWhile is_dec (dec n @ r) = dec n" "dropWhile is_dec (dec n @ r) = r"
    using takeWhile_dec [of "dec n" r] assms(2) dec_digits by blast+
  moreover have "ucast (strtoul False n) = (of_nat n :: u32)"
    using assms(1)
    by (simp add: strtoul_def word_unat_eq_iff unsigned_ucast_eq unsigned_of_nat take_bit_nat_eq_self)
  ultimately show ?thesis
    by (simp add: scan_u_def digits_val_dec)
qed

lemma c_str_id: "\<forall>c \<in> set s. (of_char c :: nat) \<noteq> 0 \<Longrightarrow> c_str s = s"
  by (simp add: c_str_def)

lemma ToString_no_nul: "c \<in> set (IPv4Addr_ToString a) \<Longrightarrow> (of_char c :: nat) \<noteq> 0"
  by (auto simp: IPv4Addr_ToString_def is_dec_def dest: dec_digits)

lemma octet_less: "unat ((w :: u32) AND 0xFF) < 256"
proof -
  have "unat (w AND 0xFF) \<le> unat (0xFF :: u32)"
    by (rule word_and_le1 [THEN word_le_nat_alt [THEN iffD1]])
  then show ?thesis by simp
qed

lemma mask8_eq: "(0xFF :: u32) = mask 8"
  by (simp add: mask_eq_exp_minus_1)

lemma octets_reassemble:
  "push_bit 24 (drop_bit 24 v AND 0xFF) OR push_bit 16 (drop_bit 16 v AND 0xFF)
     OR push_bit 8 (drop_bit 8 v AND 0xFF) OR (v AND 0xFF AND 0xFF) = (v :: u32)"
  unfolding mask8_eq
proof (rule bit_word_eqI)
  fix n
  assume "n < LENGTH(32)"
  then consider "n < 8" | "8 \<le> n" "n < 16" | "16 \<le> n" "n < 24" | "24 \<le> n" "n < 32"
    by fastforce
  then show "bit (push_bit 24 (drop_bit 24 v AND mask 8) OR push_bit 16 (drop_bit 16 v AND mask 8)
     OR push_bit 8 (drop_bit 8 v AND mask 8) OR (v AND mask 8 AND mask 8)) n = bit v n"
    by cases (auto simp: bit_simps)
qed

lemma IPv4Addr_print_parse: "IPv4Addr_FromString (IPv4Addr_ToString a) = Inr a"
proof -
  define o0 where "o0 = drop_bit 24 (ip_value a) AND 0xFF"
  define o1 where "o1 = drop_bit 16 (ip_value a) AND 0xFF"
  define o2 where "o2 = drop_bit 8 (ip_value a) AND 0xFF"
  define o3 where "o3 = ip_value a AND 0xFF"
  have lt: "unat o0 < 256" "unat o1 < 256" "unat o2 < 256" "unat o3 < 256"
    unfolding o0_def o1_def o2_def o3_def by (rule octet_less)+
  then have le: "\<not> o0 > 0xFF" "\<not> o1 > 0xFF" "\<not> o2 > 0xFF" "\<not> o3 > 0xFF"
    by (simp_all add: word_less_nat_alt)
  have str: "IPv4Addr_ToString a =
      dec (unat o0) @ (CHR ''.'' # (dec (unat o1) @ (CHR ''.'' #
      (dec (unat o2) @ (CHR ''.'' # (dec (unat o3) @ []))))))"
    by (simp add: IPv4Addr_ToString_def o0_def o1_def o2_def o3_def)
  have dot: "\<not> is_dec (CHR ''.'')" by (simp add: is_dec_def)
  have "scan_seq scan_u (CHR ''.'') 4 (IPv4Addr_ToString a) = [o0, o1, o2, o3]"
  proof -
    have four: "(4 :: nat) = Suc (Suc (Suc (Suc 0)))" by simp
    show ?thesis
      unfolding str four using lt dot by (simp add: scan_u_dec del: append_Nil2)
  qed
  moreover have "c_str (IPv4Addr_ToString a) = IPv4Addr_ToString a"
    by (rule c_str_id) (simp add: ToString_no_nul)
  ultimately show ?thesis
    using le octets_reassemble [of "ip_value a"]
    by (simp add: IPv4Addr_FromString_def Let_def o0_def o1_def o2_def o3_def)
qed

text \<open>
  Printing an IPv4 address and parsing the text gives the same address, for every
  32-bit value.
\<close>

theorem IPv4Addr_roundtrip: "IPv4Addr_FromString (IPv4Addr_ToString a) = Inr a"
  by (rule IPv4Addr_print_parse)

lemma mac_octets_length: "mac_octets t vs = Inr bs \<Longrightarrow> length bs = length vs"
  by (induction vs arbitrary: bs) (auto split: if_splits sum.splits)

lemma ParseMac_ok: "ParseMac t = Inr m \<Longrightarrow> MacAddr_ok m"
  by (cases "mac_octets t (scan_seq scan_x (CHR '':'') 6 (c_str t))")
    (auto simp: ParseMac_def Let_def MacAddr_ok_def dest: mac_octets_length split: if_splits)

text \<open>A configuration for the witnesses of the other theories.\<close>

definition ex_cfg :: Config where
  "ex_cfg = Config_default\<lparr>vip := \<lparr>ip_value = 0x0A000001\<rparr>, vip_port := 80, self_ip := \<lparr>ip_value = 0x0A0000FE\<rparr>,
     self_mac := \<lparr>mac_bytes = [2,0,0,0,0,1]\<rparr>, conntrack_timeout_ms := 1000\<rparr>"

lemma parse_backends_typed:
  "parse_backends Y nodes = Inr bs \<Longrightarrow> length bs = length nodes \<and> (\<forall>b \<in> set bs. MacAddr_ok (bi_mac b))"
proof (induction nodes arbitrary: bs)
  case (Cons node nodes)
  then obtain b bs' where h: "ParseBackend Y node = Inr b" "parse_backends Y nodes = Inr bs'" "bs = b # bs'"
    by (auto simp: bind_r_def split: sum.splits)
  then have "MacAddr_ok (bi_mac b)"
    by (auto simp: ParseBackend_def bind_r_def dest: ParseMac_ok split: sum.splits)
  with Cons.IH [OF h(2)] h(3) show ?case by simp
qed simp

text \<open>Whatever the file holds, hardware addresses that load have six bytes.\<close>

lemma LoadConfig_macs:
  assumes "LoadConfig Y path = Inr cfg"
  shows "MacAddr_ok (self_mac cfg)" and "\<forall>b \<in> set (backends cfg). MacAddr_ok (bi_mac b)"
proof -
  obtain root s sm bs where "ParseMac s = Inr sm"
    "parse_backends Y (yaml_elems Y (yaml_get Y root ''backends'')) = Inr bs" "self_mac cfg = sm" "backends cfg = bs"
    using assms unfolding LoadConfig_def by (auto simp: bind_r_def split: sum.splits)
  then show "MacAddr_ok (self_mac cfg)" "\<forall>b \<in> set (backends cfg). MacAddr_ok (bi_mac b)" using ParseMac_ok parse_backends_typed by blast+
qed

section \<open>A configuration written down and read back\<close>

text \<open>The text of a hardware address: two hexadecimal digits for each byte, with colons between.\<close>

definition hex_digit :: "nat \<Rightarrow> char" where
  "hex_digit n = char_of (if n < 10 then 48 + n else 87 + n)"

definition hex_byte :: "u8 \<Rightarrow> string" where
  "hex_byte b = [hex_digit (unat b div 16), hex_digit (unat b mod 16)]"

fun mac_text :: "u8 list \<Rightarrow> string" where
  "mac_text [] = []"
| "mac_text [b] = hex_byte b"
| "mac_text (b # bs) = hex_byte b @ CHR '':'' # mac_text bs"

lemma hex_digit_code: "n < 16 \<Longrightarrow> (of_char (hex_digit n) :: nat) = (if n < 10 then 48 + n else 87 + n)"
  by (simp add: hex_digit_def)

lemma hex_digit_val: "n < 16 \<Longrightarrow> digit_val (hex_digit n) = n"
  by (simp add: digit_val_def hex_digit_code Let_def)

lemma hex_digit_hex: "n < 16 \<Longrightarrow> is_hex (hex_digit n)"
  by (simp add: is_hex_def is_dec_def hex_digit_code)

lemma hex_digit_plain: "n < 16 \<Longrightarrow> \<not> is_space (hex_digit n) \<and> hex_digit n \<noteq> CHR ''-'' \<and> hex_digit n \<noteq> CHR ''+''
    \<and> hex_digit n \<noteq> CHR ''x'' \<and> hex_digit n \<noteq> CHR ''X''"
  by (auto simp: is_space_def hex_digit_code dest!: arg_cong [of _ _ "of_char :: char \<Rightarrow> nat"] split: if_splits)

lemma byte_less: "unat (b :: u8) < 256"
  using unsigned_less [of b, where ?'a = nat] by simp

lemma nibbles: "unat (b :: u8) div 16 < 16" "unat b mod 16 < 16"
  using byte_less [of b] by (simp_all add: less_mult_imp_div_less)

lemma scan_x_byte:
  assumes "r = [] \<or> \<not> is_hex (hd r)"
  shows "scan_x (hex_byte b @ r) = Some (ucast b, r)"
proof -
  note h = nibbles [of b] and p = hex_digit_plain [OF nibbles(1) [of b]] hex_digit_plain [OF nibbles(2) [of b]]
  have tw: "takeWhile is_hex r = []" "dropWhile is_hex r = r" using assms by (cases r; simp)+
  have v: "digits_val 16 (hex_byte b) = unat b"
    by (simp add: hex_byte_def digits_val_def hex_digit_val h)
  have "ucast (of_nat (unat b) :: u64) = (ucast b :: u32)"
    by (rule bit_word_eqI) (auto simp: bit_simps)
  moreover have "\<not> 2 ^ 64 - 1 < unat b" using byte_less [of b] by simp
  ultimately show ?thesis using v p h
    by (simp add: scan_x_def scan_sign_def strtoul_def hex_byte_def hex_digit_hex tw)
qed

lemma scan_mac: "bs \<noteq> [] \<Longrightarrow> scan_seq scan_x (CHR '':'') (length bs) (mac_text bs) = map ucast bs"
proof (induction bs rule: mac_text.induct)
  case (2 b)
  then show ?case using scan_x_byte [of "[]" b] by simp
next
  case (3 b c bs)
  have "\<not> is_hex (CHR '':'')" by (simp add: is_hex_def is_dec_def)
  with 3 show ?case using scan_x_byte [of "CHR '':'' # mac_text (c # bs)" b] by simp
qed simp

lemma mac_octets_bytes: "mac_octets t (map ucast bs) = Inr bs" for bs :: "u8 list"
proof (induction bs)
  case (Cons b bs)
  have "\<not> (ucast b :: u32) > 0xFF" using byte_less [of b] by (simp add: word_less_nat_alt unsigned_ucast_eq take_bit_nat_eq_self)
  moreover have "ucast (ucast b :: u32) = b" by (rule bit_word_eqI) (simp add: bit_simps)
  ultimately show ?case using Cons by simp
qed simp

lemma mac_text_no_nul: "c \<in> set (mac_text bs) \<Longrightarrow> (of_char c :: nat) \<noteq> 0"
  by (induction bs rule: mac_text.induct) (auto simp: hex_byte_def hex_digit_code nibbles)

lemma ParseMac_text:
  assumes "MacAddr_ok m"
  shows "ParseMac (mac_text (mac_bytes m)) = Inr m"
proof -
  have len: "length (mac_bytes m) = 6" using assms by (simp add: MacAddr_ok_def)
  then have "mac_bytes m \<noteq> []" by auto
  from scan_mac [OF this] len have "scan_seq scan_x (CHR '':'') 6 (mac_text (mac_bytes m)) = map ucast (mac_bytes m)" by simp
  moreover have "c_str (mac_text (mac_bytes m)) = mac_text (mac_bytes m)" by (intro c_str_id) (simp add: mac_text_no_nul)
  ultimately show ?thesis using len by (simp add: ParseMac_def mac_octets_bytes)
qed

text \<open>A document that states a configuration: under each key the text or number of that field, and one entry of the list for each backend, in order; the
  two times may be left out when they have their defaults.\<close>

definition states_backend :: "'n yaml \<Rightarrow> 'n \<Rightarrow> BackendInfo \<Rightarrow> bool" where
  "states_backend Y node b \<longleftrightarrow> yaml_as_string Y (yaml_get Y node ''ip'') = Inr (IPv4Addr_ToString (bi_ip b))
    \<and> yaml_as_u16 Y (yaml_get Y node ''port'') = Inr (bi_port b) \<and> yaml_as_u16 Y (yaml_get Y node ''probe_port'') = Inr (bi_probe_port b)
    \<and> yaml_as_string Y (yaml_get Y node ''mac'') = Inr (mac_text (mac_bytes (bi_mac b)))"

definition states_u32 :: "'n yaml \<Rightarrow> 'n \<Rightarrow> string \<Rightarrow> u32 \<Rightarrow> u32 \<Rightarrow> bool" where
  "states_u32 Y root key dflt v \<longleftrightarrow> (case yaml_get Y root key of None \<Rightarrow> v = dflt | Some n \<Rightarrow> yaml_as_u32 Y (Some n) = Inr v)"

definition states_config :: "'n yaml \<Rightarrow> 'n \<Rightarrow> Config \<Rightarrow> bool" where
  "states_config Y root cfg \<longleftrightarrow> yaml_as_string Y (yaml_get Y root ''vip'') = Inr (IPv4Addr_ToString (vip cfg))
    \<and> yaml_as_u16 Y (yaml_get Y root ''vip_port'') = Inr (vip_port cfg)
    \<and> yaml_as_string Y (yaml_get Y root ''self_ip'') = Inr (IPv4Addr_ToString (self_ip cfg))
    \<and> yaml_as_string Y (yaml_get Y root ''self_mac'') = Inr (mac_text (mac_bytes (self_mac cfg)))
    \<and> states_u32 Y root ''health_interval_ms'' 3000 (health_interval_ms cfg)
    \<and> states_u32 Y root ''conntrack_timeout_ms'' 30000 (conntrack_timeout_ms cfg)
    \<and> list_all2 (states_backend Y) (yaml_elems Y (yaml_get Y root ''backends'')) (backends cfg)"

lemma parse_backends_stated:
  "list_all2 (states_backend Y) nodes bs \<Longrightarrow> \<forall>b \<in> set bs. MacAddr_ok (bi_mac b) \<Longrightarrow> parse_backends Y nodes = Inr bs"
  by (induction rule: list_all2_induct) (simp_all add: ParseBackend_def states_backend_def IPv4Addr_print_parse ParseMac_text)

lemma yaml_u32_stated: "states_u32 Y root key dflt v \<Longrightarrow> yaml_u32_or Y root key dflt = Inr v"
  by (simp add: states_u32_def yaml_u32_or_def split: option.splits)

lemma LoadConfig_stated:
  assumes "yaml_LoadFile Y path = Inr root" and "states_config Y root cfg"
    and "MacAddr_ok (self_mac cfg)" and "\<forall>b \<in> set (backends cfg). MacAddr_ok (bi_mac b)"
  shows "LoadConfig Y path = Inr cfg"
proof -
  have "yaml_u32_or Y root ''health_interval_ms'' 3000 = Inr (health_interval_ms cfg)"
    "yaml_u32_or Y root ''conntrack_timeout_ms'' 30000 = Inr (conntrack_timeout_ms cfg)"
    "parse_backends Y (yaml_elems Y (yaml_get Y root ''backends'')) = Inr (backends cfg)"
    using assms(2,4) by (auto simp: states_config_def intro!: yaml_u32_stated parse_backends_stated)
  with assms show ?thesis by (simp add: LoadConfig_def states_config_def IPv4Addr_print_parse ParseMac_text Config_default_def)
qed

text \<open>
  C38. The loader reads back what is written: whatever the configuration, with hardware addresses of six bytes, a document
  that states it, its addresses printed as dotted decimal and as pairs of hexadecimal digits, loads as exactly that
  configuration: each field from its own key, the backends in their order, the times by default when they are left out.
\<close>

theorem LoadConfig_reads:
  assumes "yaml_LoadFile Y path = Inr root" and "states_config Y root cfg"
    and "MacAddr_ok (self_mac cfg)" and "\<forall>b \<in> set (backends cfg). MacAddr_ok (bi_mac b)"
  shows "LoadConfig Y path = Inr cfg"
  by (rule LoadConfig_stated [OF assms])

text \<open>A file with two backends, as a library that finds the keys by name would present it.\<close>

definition ex_file_cfg :: Config where
  "ex_file_cfg = ex_cfg\<lparr>health_interval_ms := 3000, backends := [
     \<lparr>bi_ip = \<lparr>ip_value = 0x0A000101\<rparr>, bi_mac = \<lparr>mac_bytes = [2,0,0,0,1,0xAB]\<rparr>, bi_port = 8080, bi_probe_port = 8081\<rparr>,
     \<lparr>bi_ip = \<lparr>ip_value = 0x0A000102\<rparr>, bi_mac = \<lparr>mac_bytes = [2,0,0,0,1,0xCD]\<rparr>, bi_port = 8090, bi_probe_port = 8091\<rparr>]\<rparr>"

definition ex_yaml :: "string yaml" where
  "ex_yaml = \<lparr>yaml_LoadFile = (\<lambda>path. Inr ''root''),
     yaml_get = (\<lambda>n key. if n = ''first'' then map_of [(''ip'', ''10.0.1.1''), (''port'', ''8080''), (''probe_port'', ''8081''), (''mac'', ''02:00:00:00:01:ab'')] key
       else if n = ''second'' then map_of [(''ip'', ''10.0.1.2''), (''port'', ''8090''), (''probe_port'', ''8091''), (''mac'', ''02:00:00:00:01:cd'')] key
       else map_of [(''vip'', ''10.0.0.1''), (''vip_port'', ''80''), (''self_ip'', ''10.0.0.254''), (''self_mac'', ''02:00:00:00:00:01''),
         (''conntrack_timeout_ms'', ''1000''), (''backends'', ''list'')] key),
     yaml_as_string = (\<lambda>n. case n of None \<Rightarrow> Inl (YamlError ''bad conversion'') | Some s \<Rightarrow> Inr s),
     yaml_as_u16 = (\<lambda>n. case n of None \<Rightarrow> Inl (YamlError ''bad conversion'') | Some s \<Rightarrow> Inr (of_nat (digits_val 10 s))),
     yaml_as_u32 = (\<lambda>n. case n of None \<Rightarrow> Inl (YamlError ''bad conversion'') | Some s \<Rightarrow> Inr (of_nat (digits_val 10 s))),
     yaml_elems = (\<lambda>n. case n of None \<Rightarrow> [] | Some s \<Rightarrow> [''first'', ''second''])\<rparr>"

lemma ex_yaml_states:
  "yaml_LoadFile ex_yaml path = Inr ''root''" "states_config ex_yaml ''root'' ex_file_cfg"
  "MacAddr_ok (self_mac ex_file_cfg)" "\<forall>b \<in> set (backends ex_file_cfg). MacAddr_ok (bi_mac b)"
proof -
  show "yaml_LoadFile ex_yaml path = Inr ''root''" by (simp add: ex_yaml_def)
  show "states_config ex_yaml ''root'' ex_file_cfg" by code_simp
  show "MacAddr_ok (self_mac ex_file_cfg)" by code_simp
  show "\<forall>b \<in> set (backends ex_file_cfg). MacAddr_ok (bi_mac b)" by code_simp
qed

theorem LoadConfig_reads_witness: "LoadConfig ex_yaml ''config.yaml'' = Inr ex_file_cfg"
  by (rule LoadConfig_reads [OF ex_yaml_states])

end
