(* ===== verification/Flow_Key.thy ===== *)
theory Flow_Key
  imports Cere_Prelude
begin

text \<open>
  \<open>dataplane/include/net/flow_key.hpp\<close>: the 5-tuple, its 16-byte memory image on the
  little-endian target, the comparison by \<open>memcmp\<close> over that image, the hash and the
  choice of a worker. The hash has two compile-time variants. The argument \<open>isa\<close> stands
  for the macro \<open>__SSE4_2__\<close>: \<open>Sse42 crc\<close> is a build with SSE 4.2, where \<open>crc\<close> is
  the compiler builtin \<open>__builtin_ia32_crc32di\<close>; \<open>Generic\<close> is a build without it.
\<close>

record FlowKey =
  src_ip :: u32
  dst_ip :: u32
  src_port :: u16
  dst_port :: u16
  proto :: u8
  pad :: "u8 \<times> u8 \<times> u8"

text \<open>The aggregate initialisation \<open>FlowKey{a, b, c, d, e}\<close>: the padding is zero.\<close>

definition mk_key :: "u32 \<Rightarrow> u32 \<Rightarrow> u16 \<Rightarrow> u16 \<Rightarrow> u8 \<Rightarrow> FlowKey" where
  "mk_key s d sp dp p =
     \<lparr>src_ip = s, dst_ip = d, src_port = sp, dst_port = dp, proto = p, pad = (0, 0, 0)\<rparr>"

definition FlowKey_default :: FlowKey where
  "FlowKey_default = mk_key 0 0 0 0 0"

definition le16 :: "u16 \<Rightarrow> u8 list" where
  "le16 w = [ucast w, ucast (drop_bit 8 w)]"

definition le32 :: "u32 \<Rightarrow> u8 list" where
  "le32 w = [ucast w, ucast (drop_bit 8 w), ucast (drop_bit 16 w), ucast (drop_bit 24 w)]"

definition key_bytes :: "FlowKey \<Rightarrow> u8 list" where
  "key_bytes k = le32 (src_ip k) @ le32 (dst_ip k) @ le16 (src_port k) @ le16 (dst_port k)
     @ [proto k, fst (pad k), fst (snd (pad k)), snd (snd (pad k))]"

definition FlowKey_eq :: "FlowKey \<Rightarrow> FlowKey \<Rightarrow> bool" where
  "FlowKey_eq a b \<longleftrightarrow> key_bytes a = key_bytes b"

datatype isa = Sse42 "u64 \<Rightarrow> u64 \<Rightarrow> u64" | Generic

text \<open>\<open>memcpy\<close> of eight bytes into a \<open>uint64_t\<close>.\<close>

definition load_le64 :: "u8 list \<Rightarrow> u64" where
  "load_le64 bs = foldr (\<lambda>b acc. push_bit 8 acc OR ucast b) bs 0"

definition Hash_crc :: "(u64 \<Rightarrow> u64 \<Rightarrow> u64) \<Rightarrow> FlowKey \<Rightarrow> u32" where
  "Hash_crc crc32di key =
     (let crc0 = 0xDEADBEEF :: u32;
          lo_word = load_le64 (take 8 (key_bytes key));
          hi_word = load_le64 (take 8 (drop 8 (key_bytes key)));
          crc1 = ucast (crc32di (ucast crc0) lo_word) :: u32
      in ucast (crc32di (ucast crc1) hi_word))"

definition Hash_fnv :: "FlowKey \<Rightarrow> u32" where
  "Hash_fnv key = foldl (\<lambda>hash b. (hash XOR ucast b) * 16777619) 2166136261 (key_bytes key)"

definition Hash :: "isa \<Rightarrow> FlowKey \<Rightarrow> u32" where
  "Hash I key = (case I of Sse42 crc32di \<Rightarrow> Hash_crc crc32di key | Generic \<Rightarrow> Hash_fnv key)"

definition SteerWorker :: "isa \<Rightarrow> FlowKey \<Rightarrow> u32 \<Rightarrow> u32" where
  "SteerWorker I key n_workers = Hash I key mod n_workers"

section \<open>The memory image\<close>

lemma length_key_bytes [simp]: "length (key_bytes k) = 16"
  by (simp add: key_bytes_def le32_def le16_def)

lemma le16_inj: "le16 a = le16 b \<longleftrightarrow> a = b"
proof
  assume h: "le16 a = le16 b"
  show "a = b"
  proof (rule bit_word_eqI)
    fix n
    assume n: "n < LENGTH(16)"
    from h have lo: "bit (ucast a :: u8) n = bit (ucast b :: u8) n"
      and hi: "bit (ucast (drop_bit 8 a) :: u8) (n - 8) = bit (ucast (drop_bit 8 b) :: u8) (n - 8)"
      by (simp_all add: le16_def)
    show "bit a n = bit b n"
      using lo hi n by (cases "n < 8") (auto simp: bit_simps)
  qed
qed simp

lemma le32_inj: "le32 a = le32 b \<longleftrightarrow> a = b"
proof
  assume h: "le32 a = le32 b"
  show "a = b"
  proof (rule bit_word_eqI)
    fix n
    assume n: "n < LENGTH(32)"
    define q where "q = (n div 8) * 8"
    have q: "q = 0 \<or> q = 8 \<or> q = 16 \<or> q = 24" and qn: "q \<le> n" "n - q < 8"
      using n unfolding q_def by auto
    from h q have "(ucast (drop_bit q a) :: u8) = ucast (drop_bit q b)"
      by (auto simp: le32_def)
    then have "bit (ucast (drop_bit q a) :: u8) (n - q) = bit (ucast (drop_bit q b) :: u8) (n - q)"
      by simp
    then show "bit a n = bit b n"
      using qn n by (auto simp: bit_simps)
  qed
qed simp

lemma length_le32 [simp]: "length (le32 w) = 4"
  by (simp add: le32_def)

lemma length_le16 [simp]: "length (le16 w) = 2"
  by (simp add: le16_def)

lemma key_bytes_inj: "key_bytes a = key_bytes b \<longleftrightarrow> a = b"
proof
  assume h: "key_bytes a = key_bytes b"
  have "src_ip a = src_ip b \<and> dst_ip a = dst_ip b \<and> src_port a = src_port b
      \<and> dst_port a = dst_port b \<and> proto a = proto b \<and> pad a = pad b"
    using h by (simp add: key_bytes_def le32_inj le16_inj prod_eq_iff)
  then show "a = b" by simp
qed simp

text \<open>
  Comparing two keys byte by byte over their 16-byte image, padding included, decides
  equality of the keys.
\<close>

lemma FlowKey_eq_iff: "FlowKey_eq a b \<longleftrightarrow> a = b"
  by (simp add: FlowKey_eq_def key_bytes_inj)

lemma FlowKey_eq_simp [simp]: "FlowKey_eq a b \<longleftrightarrow> a = b"
  by (simp add: FlowKey_eq_def key_bytes_inj)

lemma mk_key_sel [simp]:
  "src_ip (mk_key s d sp dp p) = s" "dst_ip (mk_key s d sp dp p) = d"
  "src_port (mk_key s d sp dp p) = sp" "dst_port (mk_key s d sp dp p) = dp"
  "proto (mk_key s d sp dp p) = p"
  by (simp_all add: mk_key_def)

lemma mk_key_inj [simp]:
  "mk_key s d sp dp p = mk_key s' d' sp' dp' p' \<longleftrightarrow>
     s = s' \<and> d = d' \<and> sp = sp' \<and> dp = dp' \<and> p = p'"
  by (simp add: mk_key_def)

lemma SteerWorker_less: "0 < n \<Longrightarrow> SteerWorker I key n < n"
  by (simp add: SteerWorker_def word_mod_less_divisor)

end
