(* ===== verification/Nat_Table.thy ===== *)
theory Nat_Table
  imports Net_Types Flow_Key
begin

text \<open>
  \<open>dataplane/include/lb/nat_table.hpp\<close>: the connection table. Flows live in an array of
  \<open>kCapacity\<close> slots found by linear probing from the hash of the forward key; a second
  array of the same size maps the reverse key (backend address, SNAT port, protocol) to slot
  numbers plus one. A slot never becomes free again: it is marked reaped and overwritten later.

  A \<open>NatFlow*\<close> that an operation returns is the number of its slot. The template argument
  \<open>kCapacity\<close> is the field \<open>nt_cap\<close>. A \<open>for\<close> loop over \<open>i < kCapacity\<close> is a
  recursion over \<open>probes\<close>, the list of the cells it visits.
\<close>

record NatFlow =
  fwd_key :: FlowKey
  client_mac :: MacAddr
  backend_ip :: u32
  backend_mac :: MacAddr
  backend_port :: u16
  snat_port :: u16
  backend_idx :: u8
  last_seen_ms :: u32
  fin_seen :: u8
  reaped :: bool
  occupied :: bool

definition NatFlow_default :: NatFlow where
  "NatFlow_default = \<lparr>fwd_key = FlowKey_default, client_mac = MacAddr_zero, backend_ip = 0,
     backend_mac = MacAddr_zero, backend_port = 0, snat_port = 0, backend_idx = 0,
     last_seen_ms = 0, fin_seen = 0, reaped = False, occupied = False\<rparr>"

record NatTable =
  nt_cap :: u32
  nt_slots :: "NatFlow list"
  nt_rev :: "u32 list"
  nt_size :: u32
  nt_timeout :: u32

definition kNatDefaultCapacity :: u32 where
  "kNatDefaultCapacity = push_bit 20 1"

definition NatTable_new :: "u32 \<Rightarrow> u32 \<Rightarrow> NatTable" where
  "NatTable_new cap timeout_ms = \<lparr>nt_cap = cap, nt_slots = replicate (unat cap) NatFlow_default,
     nt_rev = replicate (unat cap) 0, nt_size = 0, nt_timeout = timeout_ms\<rparr>"

definition SetTimeoutMs :: "u32 \<Rightarrow> NatTable \<Rightarrow> NatTable" where
  "SetTimeoutMs timeout_ms t = t\<lparr>nt_timeout := timeout_ms\<rparr>"

definition kMask :: "NatTable \<Rightarrow> u32" where
  "kMask t = nt_cap t - 1"

abbreviation slot :: "NatTable \<Rightarrow> nat \<Rightarrow> NatFlow" where
  "slot t i \<equiv> nt_slots t ! i"

definition set_slot :: "NatTable \<Rightarrow> nat \<Rightarrow> NatFlow \<Rightarrow> NatTable" where
  "set_slot t i f = t\<lparr>nt_slots := (nt_slots t)[i := f]\<rparr>"

definition Expired :: "NatTable \<Rightarrow> NatFlow \<Rightarrow> u32 \<Rightarrow> bool" where
  "Expired t flow now_ms \<longleftrightarrow>
     occupied flow \<and> (reaped flow \<or> now_ms - last_seen_ms flow > nt_timeout t)"

definition Reap :: "NatTable \<Rightarrow> nat \<Rightarrow> NatTable" where
  "Reap t i = (if \<not> reaped (slot t i)
     then (set_slot t i ((slot t i)\<lparr>reaped := True\<rparr>))
            \<lparr>nt_size := (if nt_size t > 0 then nt_size t - 1 else nt_size t)\<rparr>
     else t)"

text \<open>\<open>Close\<close> returns the released port and the backend index (0 and 0 on the early return).\<close>

definition Close :: "NatTable \<Rightarrow> nat \<Rightarrow> NatTable \<times> u16 \<times> u8" where
  "Close t i = (if \<not> occupied (slot t i) \<or> reaped (slot t i) then (t, 0, 0)
     else let t1 = Reap t i in
          (set_slot t1 i ((slot t1 i)\<lparr>snat_port := 0\<rparr>), snat_port (slot t1 i), backend_idx (slot t1 i)))"

definition RevHash :: "isa \<Rightarrow> u32 \<Rightarrow> u16 \<Rightarrow> u16 \<Rightarrow> u8 \<Rightarrow> u32" where
  "RevHash I b_ip b_port s_port pr = Hash I (mk_key b_ip 0 b_port s_port pr)"

definition probes :: "NatTable \<Rightarrow> u32 \<Rightarrow> nat list" where
  "probes t start = map (\<lambda>i. unat ((start + of_nat i) AND kMask t)) [0..<unat (nt_cap t)]"

fun LookupForward_loop :: "NatTable \<Rightarrow> FlowKey \<Rightarrow> u32 \<Rightarrow> nat list \<Rightarrow> NatTable \<times> nat option" where
  "LookupForward_loop t key now_ms [] = (t, None)"
| "LookupForward_loop t key now_ms (i # is) =
     (if \<not> occupied (slot t i) then (t, None)
      else if Expired t (slot t i) now_ms then LookupForward_loop (Reap t i) key now_ms is
      else if FlowKey_eq (fwd_key (slot t i)) key
      then (set_slot t i ((slot t i)\<lparr>last_seen_ms := now_ms\<rparr>), Some i)
      else LookupForward_loop t key now_ms is)"

definition LookupForward :: "isa \<Rightarrow> NatTable \<Rightarrow> FlowKey \<Rightarrow> u32 \<Rightarrow> NatTable \<times> nat option" where
  "LookupForward I t key now_ms =
     LookupForward_loop t key now_ms (probes t (Hash I key AND kMask t))"

fun IndexReverse_loop :: "NatTable \<Rightarrow> u32 \<Rightarrow> u32 \<Rightarrow> nat list \<Rightarrow> NatTable" where
  "IndexReverse_loop t s now_ms [] = t"
| "IndexReverse_loop t s now_ms (cell # cells) =
     (let ptr = nt_rev t ! cell in
      if ptr = 0 \<or> \<not> occupied (slot t (unat (ptr - 1))) \<or> Expired t (slot t (unat (ptr - 1))) now_ms
      then t\<lparr>nt_rev := (nt_rev t)[cell := s + 1]\<rparr>
      else IndexReverse_loop t s now_ms cells)"

definition IndexReverse :: "isa \<Rightarrow> NatTable \<Rightarrow> u32 \<Rightarrow> u32 \<Rightarrow> NatTable" where
  "IndexReverse I t s now_ms =
     (let flow = slot t (unat s);
          start = RevHash I (backend_ip flow) (backend_port flow) (snat_port flow) (proto (fwd_key flow))
                  AND kMask t
      in IndexReverse_loop t s now_ms (probes t start))"

text \<open>\<open>Insert\<close> returns the evicted port, the evicted backend index and the slot.\<close>

fun Insert_loop :: "isa \<Rightarrow> NatTable \<Rightarrow> NatFlow \<Rightarrow> u32 \<Rightarrow> nat list \<Rightarrow> NatTable \<times> u16 \<times> u8 \<times> nat option" where
  "Insert_loop I t flow now_ms [] = (t, 0, 0, None)"
| "Insert_loop I t flow now_ms (i # is) =
     (let victim = slot t i;
          place = (\<lambda>t'. IndexReverse I
             (set_slot t' i (flow\<lparr>occupied := True, last_seen_ms := now_ms\<rparr>)) (of_nat i) now_ms) in
      if \<not> occupied victim then (place (t\<lparr>nt_size := nt_size t + 1\<rparr>), 0, 0, Some i)
      else if Expired t victim now_ms
      then (place (if reaped victim then t\<lparr>nt_size := nt_size t + 1\<rparr> else t),
            snat_port victim, backend_idx victim, Some i)
      else Insert_loop I t flow now_ms is)"

definition Insert :: "isa \<Rightarrow> NatTable \<Rightarrow> NatFlow \<Rightarrow> u32 \<Rightarrow> NatTable \<times> u16 \<times> u8 \<times> nat option" where
  "Insert I t flow now_ms =
     Insert_loop I t flow now_ms (probes t (Hash I (fwd_key flow) AND kMask t))"

definition rev_match :: "u32 \<Rightarrow> u16 \<Rightarrow> u16 \<Rightarrow> u8 \<Rightarrow> NatFlow \<Rightarrow> bool" where
  "rev_match b_ip b_port s_port pr flow \<longleftrightarrow> backend_ip flow = b_ip \<and> backend_port flow = b_port
     \<and> snat_port flow = s_port \<and> proto (fwd_key flow) = pr"

fun LookupReverse_loop :: "NatTable \<Rightarrow> u32 \<Rightarrow> u16 \<Rightarrow> u16 \<Rightarrow> u8 \<Rightarrow> u32 \<Rightarrow> nat list \<Rightarrow> NatTable \<times> nat option" where
  "LookupReverse_loop t b_ip b_port s_port pr now_ms [] = (t, None)"
| "LookupReverse_loop t b_ip b_port s_port pr now_ms (cell # cells) =
     (let ptr = nt_rev t ! cell; i = unat (ptr - 1) in
      if ptr = 0 then (t, None)
      else if occupied (slot t i) \<and> Expired t (slot t i) now_ms
      then LookupReverse_loop (Reap t i) b_ip b_port s_port pr now_ms cells
      else if occupied (slot t i) \<and> rev_match b_ip b_port s_port pr (slot t i)
      then (set_slot t i ((slot t i)\<lparr>last_seen_ms := now_ms\<rparr>), Some i)
      else LookupReverse_loop t b_ip b_port s_port pr now_ms cells)"

definition LookupReverse :: "isa \<Rightarrow> NatTable \<Rightarrow> u32 \<Rightarrow> u16 \<Rightarrow> u16 \<Rightarrow> u8 \<Rightarrow> u32 \<Rightarrow> NatTable \<times> nat option" where
  "LookupReverse I t b_ip b_port s_port pr now_ms =
     LookupReverse_loop t b_ip b_port s_port pr now_ms
       (probes t (RevHash I b_ip b_port s_port pr AND kMask t))"

section \<open>Well-formed tables\<close>

definition live :: "NatFlow \<Rightarrow> bool" where
  "live f \<longleftrightarrow> occupied f \<and> \<not> reaped f"

text \<open>
  The arrays have the capacity, which is a power of two; the counter \<open>size_\<close> is the number
  of occupied slots that are not reaped; every reverse cell is 0 or names a slot.
\<close>

definition nat_wf :: "NatTable \<Rightarrow> bool" where
  "nat_wf t \<longleftrightarrow> nt_cap t AND (nt_cap t - 1) = 0 \<and> nt_cap t \<noteq> 0
     \<and> length (nt_slots t) = unat (nt_cap t) \<and> length (nt_rev t) = unat (nt_cap t)
     \<and> unat (nt_size t) = length (filter live (nt_slots t))
     \<and> (\<forall>p \<in> set (nt_rev t). unat p \<le> unat (nt_cap t))"

lemma nat_wf_len:
  assumes "nat_wf t"
  shows "length (nt_slots t) = unat (nt_cap t)" and "length (nt_rev t) = unat (nt_cap t)"
    and "unat (nt_size t) = length (filter live (nt_slots t))" and "0 < unat (nt_cap t)"
  using assms by (auto simp: nat_wf_def unat_gt_0)

lemma nat_wf_pow2:
  assumes "nat_wf t"
  obtains k where "unat (nt_cap t) = 2 ^ k" and "k < 32"
proof -
  obtain k where k: "unat (nt_cap t) = 2 ^ k"
    using assms word_pow2_assert [of "nt_cap t"] by (auto simp: nat_wf_def)
  then have "(2 :: nat) ^ k < 2 ^ 32" using unat32_less [of "nt_cap t"] by simp
  then have "k < 32" using power_less_imp_less_exp [of "2 :: nat" k 32] by simp
  with k that show thesis by blast
qed

lemma nat_wf_ptr:
  assumes "nat_wf t" and "c < unat (nt_cap t)" and "nt_rev t ! c \<noteq> 0"
  shows "unat (nt_rev t ! c - 1) < unat (nt_cap t)"
proof -
  have "unat (nt_rev t ! c) \<le> unat (nt_cap t)"
    using assms(1,2) nth_mem [of c "nt_rev t"] by (auto simp: nat_wf_def)
  moreover have "0 < unat (nt_rev t ! c)" using assms(3) by (simp add: unat_gt_0)
  ultimately show ?thesis using assms(3) by (simp add: unat_minus_one)
qed

text \<open>The cells a probe visits, as numbers: a ring from the masked hash.\<close>

lemma probes_ring:
  assumes "nat_wf t"
  shows "probes t (h AND kMask t) = ring (unat (nt_cap t)) (unat h mod unat (nt_cap t))"
proof -
  obtain k where k: "unat (nt_cap t) = 2 ^ k" "k < 32" using nat_wf_pow2 [OF assms] .
  let ?c = "unat (nt_cap t)"
  have dvd: "?c dvd 4294967296"
    using k le_imp_power_dvd [of k 32 "2 :: nat"] by simp
  have mask: "unat (w AND kMask t) = unat w mod ?c" for w
    unfolding kMask_def by (rule unat_and_mask [OF k(1)])
  have "unat ((h AND kMask t) + of_nat i) mod ?c = (unat h mod ?c + i) mod ?c" for i
  proof -
    have "unat ((h AND kMask t) + of_nat i) = (unat h mod ?c + i) mod 4294967296"
      by (simp add: unat_word_ariths mask unsigned_of_nat take_bit_eq_mod mod_simps)
    then show ?thesis by (simp add: mod_mod_cancel [OF dvd])
  qed
  then show ?thesis by (simp add: probes_def ring_def mask)
qed

end
