(* ===== verification/Nat_Invariant.thy ===== *)
theory Nat_Invariant
  imports Nat_Table
begin

text \<open>
  Closed forms and invariants of the connection table. Each probing loop is a search over a
  ring of cells: what it finds is \<open>find\<close> over the cells up to the first empty one, and what
  it changes is described slot by slot. From the closed forms come the invariants: the size
  counter, the unbroken probe chains, and one live flow per key.
\<close>

section \<open>Updating one slot\<close>

lemma slot_set_slot [simp]:
  "i < length (nt_slots t) \<Longrightarrow> slot (set_slot t i f) j = (if i = j then f else slot t j)"
  by (simp add: set_slot_def)

lemma set_slot_frame [simp, frame_simps]:
  "nt_cap (set_slot t i f) = nt_cap t" "nt_rev (set_slot t i f) = nt_rev t"
  "nt_timeout (set_slot t i f) = nt_timeout t" "nt_size (set_slot t i f) = nt_size t"
  "length (nt_slots (set_slot t i f)) = length (nt_slots t)"
  by (simp_all add: set_slot_def)

lemma Reap_frame [simp, frame_simps]:
  "nt_cap (Reap t i) = nt_cap t" "nt_rev (Reap t i) = nt_rev t"
  "nt_timeout (Reap t i) = nt_timeout t"
  "length (nt_slots (Reap t i)) = length (nt_slots t)"
  by (simp_all add: Reap_def set_slot_def)

lemma slot_Reap [simp]:
  "i < length (nt_slots t) \<Longrightarrow>
     slot (Reap t i) j = (if i = j then (slot t i)\<lparr>reaped := True\<rparr> else slot t j)"
  by (auto simp: Reap_def set_slot_def)

lemma kMask_cong: "nt_cap t' = nt_cap t \<Longrightarrow> kMask t' = kMask t"
  by (simp add: kMask_def)

lemma probes_cong: "nt_cap t' = nt_cap t \<Longrightarrow> probes t' s = probes t s"
  by (simp add: probes_def kMask_def)

lemma Expired_cong: "nt_timeout t' = nt_timeout t \<Longrightarrow> Expired t' f now = Expired t f now"
  by (simp add: Expired_def)

lemma Expired_Reap [simp]: "Expired (Reap t i) f now = Expired t f now"
  by (simp add: Expired_def)

lemma Expired_reaped [simp]: "occupied f \<Longrightarrow> Expired t (f\<lparr>reaped := True\<rparr>) now"
  by (simp add: Expired_def)

lemma Expired_reaped_iff: "Expired t f now \<Longrightarrow> Expired t (f\<lparr>reaped := True\<rparr>) now"
  by (simp add: Expired_def)

section \<open>Changes that keep every flow's identity\<close>

text \<open>What a lookup never touches in a flow: everything but the time stamp, the FIN bits and
  the reaped mark.\<close>

definition core :: "NatFlow \<Rightarrow> FlowKey \<times> MacAddr \<times> u32 \<times> MacAddr \<times> u16 \<times> u16 \<times> u8 \<times> bool" where
  "core f = (fwd_key f, client_mac f, backend_ip f, backend_mac f, backend_port f, snat_port f,
     backend_idx f, occupied f)"

lemma core_update [simp]:
  "core (f\<lparr>reaped := r\<rparr>) = core f" "core (f\<lparr>last_seen_ms := n\<rparr>) = core f"
  "core (f\<lparr>fin_seen := b\<rparr>) = core f"
  by (simp_all add: core_def)

definition quiet :: "NatTable \<Rightarrow> NatTable \<Rightarrow> bool" where
  "quiet t t' \<longleftrightarrow> nt_cap t' = nt_cap t \<and> nt_rev t' = nt_rev t \<and> nt_timeout t' = nt_timeout t
     \<and> length (nt_slots t') = length (nt_slots t)
     \<and> (\<forall>i < length (nt_slots t). core (slot t' i) = core (slot t i)
          \<and> (reaped (slot t i) \<longrightarrow> reaped (slot t' i)))"

lemma quiet_refl [simp, intro]: "quiet t t"
  by (simp add: quiet_def)

lemma quiet_trans: "quiet t t' \<Longrightarrow> quiet t' t'' \<Longrightarrow> quiet t t''"
  by (auto simp: quiet_def)

lemma quiet_core: "quiet t t' \<Longrightarrow> i < length (nt_slots t) \<Longrightarrow> core (slot t' i) = core (slot t i)"
  by (simp add: quiet_def)

lemma quiet_fields:
  assumes "quiet t t'" and "i < length (nt_slots t)"
  shows "fwd_key (slot t' i) = fwd_key (slot t i)" "occupied (slot t' i) = occupied (slot t i)"
    "client_mac (slot t' i) = client_mac (slot t i)" "backend_ip (slot t' i) = backend_ip (slot t i)"
    "backend_mac (slot t' i) = backend_mac (slot t i)"
    "backend_port (slot t' i) = backend_port (slot t i)"
    "snat_port (slot t' i) = snat_port (slot t i)" "backend_idx (slot t' i) = backend_idx (slot t i)"
  using quiet_core [OF assms] by (simp_all add: core_def)

lemma quiet_Reap: "i < length (nt_slots t) \<Longrightarrow> quiet t (Reap t i)"
  by (simp add: quiet_def)

lemma quiet_touch:
  "i < length (nt_slots t) \<Longrightarrow> quiet t (set_slot t i ((slot t i)\<lparr>last_seen_ms := n\<rparr>))"
  by (simp add: quiet_def)

section \<open>The size counter\<close>

lemma live_update [simp]:
  "live (f\<lparr>last_seen_ms := n\<rparr>) = live f" "live (f\<lparr>fin_seen := b\<rparr>) = live f"
  "live (f\<lparr>snat_port := p\<rparr>) = live f" "\<not> live (f\<lparr>reaped := True\<rparr>)"
  by (simp_all add: live_def)

lemma nat_wf_set_slot:
  assumes "nat_wf t" and "i < length (nt_slots t)" and "live f = live (slot t i)"
  shows "nat_wf (set_slot t i f)"
  using assms length_filter_list_update [of i "nt_slots t" live f]
  by (auto simp: nat_wf_def set_slot_def)

lemma nat_wf_Reap [inv_intros]:
  assumes wf: "nat_wf t" and i: "i < length (nt_slots t)" and occ: "occupied (slot t i)"
  shows "nat_wf (Reap t i)"
proof (cases "reaped (slot t i)")
  case True
  with wf show ?thesis by (simp add: Reap_def)
next
  case False
  have sz: "unat (nt_size t) = length (filter live (nt_slots t))" using wf by (rule nat_wf_len)
  have lv: "live (slot t i)" using occ False by (simp add: live_def)
  have pos: "0 < unat (nt_size t)" unfolding sz using i lv by (rule length_filter_pos [of i _ live])
  have upd: "length (filter live ((nt_slots t)[i := (slot t i)\<lparr>reaped := True\<rparr>])) + 1
      = length (filter live (nt_slots t))"
    using length_filter_list_update [OF i, of live "(slot t i)\<lparr>reaped := True\<rparr>"] lv by simp
  have "unat (nt_size t - 1) = unat (nt_size t) - 1"
    using pos by (intro unat_minus_one) auto
  with upd pos sz have "unat (nt_size t - 1)
      = length (filter live ((nt_slots t)[i := (slot t i)\<lparr>reaped := True\<rparr>]))" by simp
  then show ?thesis
    using wf False pos by (auto simp: nat_wf_def Reap_def set_slot_def word_less_nat_alt)
qed

section \<open>Lookup by the forward key\<close>

text \<open>A slot a lookup does not answer with: unchanged, or expired and then reaped.\<close>

definition spared :: "NatTable \<Rightarrow> NatTable \<Rightarrow> u32 \<Rightarrow> nat \<Rightarrow> bool" where
  "spared t t' now i \<longleftrightarrow> slot t' i = slot t i
     \<or> (Expired t (slot t i) now \<and> slot t' i = (slot t i)\<lparr>reaped := True\<rparr>)"

lemma spared_refl [simp]: "spared t t now i"
  by (simp add: spared_def)

lemma spared_same: "slot t' i = slot t i \<Longrightarrow> spared t t' now i"
  by (simp add: spared_def)

lemma spared_Reap:
  assumes "j < length (nt_slots t)" and "Expired t (slot t j) now" and "spared (Reap t j) t' now i"
  shows "spared t t' now i"
  using assms by (auto simp: spared_def split: if_splits)

definition fwd_hit :: "NatTable \<Rightarrow> FlowKey \<Rightarrow> u32 \<Rightarrow> nat \<Rightarrow> bool" where
  "fwd_hit t key now i \<longleftrightarrow> \<not> Expired t (slot t i) now \<and> fwd_key (slot t i) = key"

text \<open>
  One run of the forward loop over distinct cells: the answer, the invariants, the unchanged
  identities, the time stamp of the hit, and the reaping of what it passed.
\<close>

lemma LookupForward_loop_spec:
  assumes "nat_wf t" and "distinct is" and "set is \<subseteq> {..<length (nt_slots t)}"
    and "LookupForward_loop t key now is = (t', r)"
  shows "r = find (fwd_hit t key now) (takeWhile (\<lambda>i. occupied (slot t i)) is)
    \<and> nat_wf t' \<and> quiet t t'
    \<and> (\<forall>i < length (nt_slots t). i \<notin> set is \<longrightarrow> slot t' i = slot t i)
    \<and> (\<forall>i < length (nt_slots t). r \<noteq> Some i \<longrightarrow> spared t t' now i)
    \<and> (\<forall>i. r = Some i \<longrightarrow> slot t' i = (slot t i)\<lparr>last_seen_ms := now\<rparr>)
    \<and> (r = None \<longrightarrow> (\<forall>i \<in> set (takeWhile (\<lambda>i. occupied (slot t i)) is).
          fwd_key (slot t i) = key \<longrightarrow> reaped (slot t' i)))"
  using assms
proof (induction "is" arbitrary: t)
  case Nil
  then show ?case by simp
next
  case (Cons i "is")
  then have i: "i < length (nt_slots t)" and ni: "i \<notin> set is" by auto
  consider (free) "\<not> occupied (slot t i)"
    | (exp) "occupied (slot t i)" "Expired t (slot t i) now"
    | (hit) "occupied (slot t i)" "\<not> Expired t (slot t i) now" "fwd_key (slot t i) = key"
    | (miss) "occupied (slot t i)" "\<not> Expired t (slot t i) now" "fwd_key (slot t i) \<noteq> key"
    by blast
  then show ?case
  proof cases
    case free
    with Cons.prems show ?thesis by auto
  next
    case hit
    then have "t' = set_slot t i ((slot t i)\<lparr>last_seen_ms := now\<rparr>)" "r = Some i"
      using Cons.prems(4) by auto
    with hit i Cons.prems(1) show ?thesis
      by (auto simp: fwd_hit_def quiet_touch spared_def intro!: nat_wf_set_slot)
  next
    case miss
    then have "LookupForward_loop t key now is = (t', r)" using Cons.prems(4) by simp
    with Cons.IH [of t] Cons.prems miss show ?thesis by (auto simp: fwd_hit_def)
  next
    case exp
    have run: "LookupForward_loop (Reap t i) key now is = (t', r)" using Cons.prems(4) exp by simp
    have same: "slot (Reap t i) j = slot t j" if "j \<in> set is" for j using that ni i by auto
    have tw: "takeWhile (\<lambda>j. occupied (slot (Reap t i) j)) is = takeWhile (\<lambda>j. occupied (slot t j)) is"
      by (intro takeWhile_cong) (auto simp: same)
    have fd: "find (fwd_hit (Reap t i) key now) (takeWhile (\<lambda>j. occupied (slot t j)) is)
        = find (fwd_hit t key now) (takeWhile (\<lambda>j. occupied (slot t j)) is)"
      by (intro find_cong) (auto simp: fwd_hit_def same dest: set_takeWhileD)
    have wf': "nat_wf (Reap t i)" using Cons.prems(1) i exp(1) by (rule nat_wf_Reap)
    note IH = Cons.IH [OF wf' _ _ run]
    have ih: "r = find (fwd_hit t key now) (takeWhile (\<lambda>j. occupied (slot t j)) is)"
        "nat_wf t'" "quiet (Reap t i) t'"
        "\<forall>j < length (nt_slots t). j \<notin> set is \<longrightarrow> slot t' j = slot (Reap t i) j"
        "\<forall>j < length (nt_slots t). r \<noteq> Some j \<longrightarrow> spared (Reap t i) t' now j"
        "\<forall>j. r = Some j \<longrightarrow> slot t' j = (slot (Reap t i) j)\<lparr>last_seen_ms := now\<rparr>"
        "r = None \<longrightarrow> (\<forall>j \<in> set (takeWhile (\<lambda>j. occupied (slot t j)) is).
           fwd_key (slot t j) = key \<longrightarrow> reaped (slot t' j))"
      using IH Cons.prems(2,3) unfolding tw fd by (auto simp: same dest: set_takeWhileD)
    have ti: "slot t' i = (slot t i)\<lparr>reaped := True\<rparr>" using ih(4) i ni by simp
    have ri: "j \<in> set is" if "r = Some j" for j
      using ih(1) that by (metis find_Some_before(2) set_takeWhileD)
    have nh: "\<not> fwd_hit t key now i" using exp by (simp add: fwd_hit_def)
    show ?thesis
      using exp i ih ti ri same nh quiet_trans [OF quiet_Reap [OF i] ih(3)]
        spared_Reap [OF i exp(2)]
      by auto
  qed
qed

lemma LookupForward_spec:
  assumes wf: "nat_wf t" and run: "LookupForward I t key now = (t', r)"
  defines "path \<equiv> takeWhile (\<lambda>i. occupied (slot t i))
      (ring (unat (nt_cap t)) (unat (Hash I key) mod unat (nt_cap t)))"
  shows "r = find (fwd_hit t key now) path" and "nat_wf t'" and "quiet t t'"
    and "\<And>i. r = Some i \<Longrightarrow> slot t' i = (slot t i)\<lparr>last_seen_ms := now\<rparr>"
    and "\<And>i. i < length (nt_slots t) \<Longrightarrow> r \<noteq> Some i \<Longrightarrow> spared t t' now i"
    and "\<And>i. r = None \<Longrightarrow> i \<in> set path \<Longrightarrow> fwd_key (slot t i) = key \<Longrightarrow> reaped (slot t' i)"
proof -
  have "set (ring (unat (nt_cap t)) (unat (Hash I key) mod unat (nt_cap t))) \<subseteq> {..<length (nt_slots t)}"
    using wf by (auto simp: nat_wf_len)
  from LookupForward_loop_spec [OF wf distinct_ring this, of key now t' r]
  show "r = find (fwd_hit t key now) path" and "nat_wf t'" and "quiet t t'"
    and "\<And>i. r = Some i \<Longrightarrow> slot t' i = (slot t i)\<lparr>last_seen_ms := now\<rparr>"
    and "\<And>i. i < length (nt_slots t) \<Longrightarrow> r \<noteq> Some i \<Longrightarrow> spared t t' now i"
    and "\<And>i. r = None \<Longrightarrow> i \<in> set path \<Longrightarrow> fwd_key (slot t i) = key \<Longrightarrow> reaped (slot t' i)"
    using run unfolding LookupForward_def probes_ring [OF wf] path_def by blast+
qed

section \<open>Lookup by the reverse key\<close>

definition ptr_slot :: "NatTable \<Rightarrow> nat \<Rightarrow> nat" where
  "ptr_slot t c = unat (nt_rev t ! c - 1)"

definition rev_hit :: "NatTable \<Rightarrow> u32 \<Rightarrow> u16 \<Rightarrow> u16 \<Rightarrow> u8 \<Rightarrow> u32 \<Rightarrow> nat \<Rightarrow> bool" where
  "rev_hit t bip bp sp pr now i \<longleftrightarrow>
     occupied (slot t i) \<and> \<not> Expired t (slot t i) now \<and> rev_match bip bp sp pr (slot t i)"

lemma ptr_slot_Reap [simp]: "ptr_slot (Reap t i) c = ptr_slot t c"
  by (simp add: ptr_slot_def)

lemma rev_hit_Reap:
  assumes "i < length (nt_slots t)" and "Expired t (slot t i) now"
  shows "rev_hit (Reap t i) bip bp sp pr now j = rev_hit t bip bp sp pr now j"
  using assms by (auto simp: rev_hit_def Expired_reaped_iff)

lemma LookupReverse_loop_spec:
  assumes "nat_wf t" and "set cs \<subseteq> {..<unat (nt_cap t)}"
    and "LookupReverse_loop t bip bp sp pr now cs = (t', r)"
  shows "r = map_option (ptr_slot t) (find (\<lambda>c. rev_hit t bip bp sp pr now (ptr_slot t c))
        (takeWhile (\<lambda>c. nt_rev t ! c \<noteq> 0) cs))
    \<and> nat_wf t' \<and> quiet t t'
    \<and> (\<forall>i < length (nt_slots t). r \<noteq> Some i \<longrightarrow> spared t t' now i)
    \<and> (\<forall>i. r = Some i \<longrightarrow> slot t' i = (slot t i)\<lparr>last_seen_ms := now\<rparr>)"
  using assms
proof (induction cs arbitrary: t)
  case Nil
  then show ?case by simp
next
  case (Cons c cs)
  let ?i = "ptr_slot t c"
  consider (zero) "nt_rev t ! c = 0"
    | (exp) "nt_rev t ! c \<noteq> 0" "Expired t (slot t ?i) now"
    | (hit) "nt_rev t ! c \<noteq> 0" "rev_hit t bip bp sp pr now ?i"
    | (miss) "nt_rev t ! c \<noteq> 0" "\<not> Expired t (slot t ?i) now" "\<not> rev_hit t bip bp sp pr now ?i"
    by blast
  then show ?case
  proof cases
    case zero
    with Cons.prems show ?thesis by simp
  next
    case exp
    have i: "?i < length (nt_slots t)"
      using nat_wf_ptr [OF Cons.prems(1) _ exp(1)] Cons.prems by (simp add: ptr_slot_def nat_wf_len)
    have occ: "occupied (slot t ?i)" using exp(2) by (simp add: Expired_def)
    have run: "LookupReverse_loop (Reap t ?i) bip bp sp pr now cs = (t', r)"
      using Cons.prems(3) exp occ by (simp add: Let_def ptr_slot_def)
    have wf': "nat_wf (Reap t ?i)" using Cons.prems(1) i occ by (rule nat_wf_Reap)
    have nh: "\<not> rev_hit t bip bp sp pr now ?i" using exp by (simp add: rev_hit_def)
    have ne: "j \<noteq> ?i" if "r = Some j"
      "r = map_option (ptr_slot t) (find (\<lambda>c. rev_hit t bip bp sp pr now (ptr_slot t c))
        (takeWhile (\<lambda>c. nt_rev t ! c \<noteq> 0) cs))" for j
      using that nh by (auto dest: find_Some_before(1))
    have "r = map_option (ptr_slot t) (find (\<lambda>c. rev_hit t bip bp sp pr now (ptr_slot t c))
        (takeWhile (\<lambda>c. nt_rev t ! c \<noteq> 0) cs)) \<and> nat_wf t' \<and> quiet (Reap t ?i) t'
      \<and> (\<forall>j < length (nt_slots t). r \<noteq> Some j \<longrightarrow> spared (Reap t ?i) t' now j)
      \<and> (\<forall>i. r = Some i \<longrightarrow> slot t' i = (slot (Reap t ?i) i)\<lparr>last_seen_ms := now\<rparr>)"
      using Cons.IH [OF wf' _ run] Cons.prems(2) rev_hit_Reap [OF i exp(2)]
      by (auto cong: find_cong option.map_cong)
    with exp nh ne i quiet_trans [OF quiet_Reap [OF i]] spared_Reap [OF i exp(2)]
    show ?thesis by auto
  next
    case hit
    have i: "?i < length (nt_slots t)"
      using nat_wf_ptr [OF Cons.prems(1) _ hit(1)] Cons.prems by (simp add: ptr_slot_def nat_wf_len)
    have "t' = set_slot t ?i ((slot t ?i)\<lparr>last_seen_ms := now\<rparr>)" "r = Some ?i"
      using Cons.prems(3) hit by (auto simp: Let_def ptr_slot_def rev_hit_def)
    with hit i Cons.prems(1) show ?thesis
      by (auto simp: quiet_touch spared_def intro!: nat_wf_set_slot)
  next
    case miss
    then have "LookupReverse_loop t bip bp sp pr now cs = (t', r)"
      using Cons.prems(3) by (auto simp: Let_def ptr_slot_def rev_hit_def)
    with Cons.IH [of t] Cons.prems miss show ?thesis by auto
  qed
qed

lemma LookupReverse_spec:
  assumes wf: "nat_wf t" and run: "LookupReverse I t bip bp sp pr now = (t', r)"
  defines "path \<equiv> takeWhile (\<lambda>c. nt_rev t ! c \<noteq> 0)
      (ring (unat (nt_cap t)) (unat (RevHash I bip bp sp pr) mod unat (nt_cap t)))"
  shows "r = map_option (ptr_slot t) (find (\<lambda>c. rev_hit t bip bp sp pr now (ptr_slot t c)) path)"
    and "nat_wf t'" and "quiet t t'"
    and "\<And>i. r = Some i \<Longrightarrow> slot t' i = (slot t i)\<lparr>last_seen_ms := now\<rparr>"
    and "\<And>i. i < length (nt_slots t) \<Longrightarrow> r \<noteq> Some i \<Longrightarrow> spared t t' now i"
proof -
  have "set (ring (unat (nt_cap t)) (unat (RevHash I bip bp sp pr) mod unat (nt_cap t)))
      \<subseteq> {..<unat (nt_cap t)}" by auto
  from LookupReverse_loop_spec [OF wf this, of bip bp sp pr now t' r]
  show "r = map_option (ptr_slot t) (find (\<lambda>c. rev_hit t bip bp sp pr now (ptr_slot t c)) path)"
    and "nat_wf t'" and "quiet t t'"
    and "\<And>i. r = Some i \<Longrightarrow> slot t' i = (slot t i)\<lparr>last_seen_ms := now\<rparr>"
    and "\<And>i. i < length (nt_slots t) \<Longrightarrow> r \<noteq> Some i \<Longrightarrow> spared t t' now i"
    using run unfolding LookupReverse_def probes_ring [OF wf] path_def by blast+
qed

lemma LookupReverse_hit:
  assumes "nat_wf t" and "LookupReverse I t bip bp sp pr now = (t', Some i)"
  shows "i < length (nt_slots t)" and "rev_hit t bip bp sp pr now i"
proof -
  let ?path = "takeWhile (\<lambda>c. nt_rev t ! c \<noteq> 0)
      (ring (unat (nt_cap t)) (unat (RevHash I bip bp sp pr) mod unat (nt_cap t)))"
  obtain c where c: "find (\<lambda>c. rev_hit t bip bp sp pr now (ptr_slot t c)) ?path = Some c"
    and i: "i = ptr_slot t c"
    using LookupReverse_spec(1) [OF assms, symmetric] by auto
  have "c \<in> set ?path" using c by (rule find_Some_before)
  then have "c < unat (nt_cap t)" "nt_rev t ! c \<noteq> 0" by (auto dest: set_takeWhileD)
  then show "i < length (nt_slots t)"
    using nat_wf_ptr [OF assms(1)] i by (simp add: ptr_slot_def nat_wf_len [OF assms(1)])
  show "rev_hit t bip bp sp pr now i" using find_Some_before(1) [OF c] i by simp
qed

section \<open>Insertion\<close>

definition rev_free :: "NatTable \<Rightarrow> u32 \<Rightarrow> nat \<Rightarrow> bool" where
  "rev_free t now c \<longleftrightarrow> nt_rev t ! c = 0 \<or> \<not> occupied (slot t (ptr_slot t c))
     \<or> Expired t (slot t (ptr_slot t c)) now"

lemma IndexReverse_loop_eq:
  "IndexReverse_loop t s now cs = (case find (rev_free t now) cs of
     None \<Rightarrow> t | Some c \<Rightarrow> t\<lparr>nt_rev := (nt_rev t)[c := s + 1]\<rparr>)"
  by (induction cs) (auto simp: rev_free_def ptr_slot_def Let_def)

lemma IndexReverse_frame [simp, frame_simps]:
  "nt_slots (IndexReverse I t s now) = nt_slots t" "nt_cap (IndexReverse I t s now) = nt_cap t"
  "nt_size (IndexReverse I t s now) = nt_size t" "nt_timeout (IndexReverse I t s now) = nt_timeout t"
  by (auto simp: IndexReverse_def Let_def IndexReverse_loop_eq split: option.splits)

lemma IndexReverse_wf [inv_intros]:
  assumes "nat_wf t" and "s < unat (nt_cap t)"
  shows "nat_wf (IndexReverse I t (of_nat s) now)"
proof -
  have "unat (of_nat s + 1 :: u32) \<le> unat (nt_cap t)"
  proof -
    have "s + 1 < 4294967296" using assms(2) unat32_less [of "nt_cap t"] by linarith
    then show ?thesis using assms(2)
      by (simp add: unat_word_ariths unsigned_of_nat take_bit_nat_eq_self)
  qed
  with assms(1) show ?thesis
    by (auto simp: nat_wf_def IndexReverse_def Let_def IndexReverse_loop_eq split: option.splits
        dest!: set_update_subset_insert [THEN subsetD])
qed

definition usable :: "NatTable \<Rightarrow> u32 \<Rightarrow> nat \<Rightarrow> bool" where
  "usable t now i \<longleftrightarrow> \<not> occupied (slot t i) \<or> Expired t (slot t i) now"

definition placed :: "NatFlow \<Rightarrow> u32 \<Rightarrow> NatFlow" where
  "placed flow now = flow\<lparr>occupied := True, last_seen_ms := now\<rparr>"

text \<open>The table after a flow went into slot \<open>i\<close>, before the reverse index is written.\<close>

definition put :: "NatTable \<Rightarrow> nat \<Rightarrow> NatFlow \<Rightarrow> NatTable" where
  "put t i f = set_slot (if live (slot t i) then t else t\<lparr>nt_size := nt_size t + 1\<rparr>) i f"

lemma Insert_loop_eq:
  "Insert_loop I t flow now is = (case find (usable t now) is of
     None \<Rightarrow> (t, 0, 0, None)
   | Some i \<Rightarrow> (IndexReverse I (put t i (placed flow now)) (of_nat i) now,
       (if occupied (slot t i) then snat_port (slot t i) else 0),
       (if occupied (slot t i) then backend_idx (slot t i) else 0), Some i))"
  by (induction "is") (auto simp: usable_def put_def placed_def live_def Let_def)

lemma put_frame [simp, frame_simps]:
  "nt_cap (put t i f) = nt_cap t" "nt_rev (put t i f) = nt_rev t" "nt_timeout (put t i f) = nt_timeout t"
  "nt_slots (put t i f) = (nt_slots t)[i := f]"
  by (simp_all add: put_def set_slot_def)

lemma put_wf:
  assumes wf: "nat_wf t" and i: "i < length (nt_slots t)" and f: "live f"
  shows "nat_wf (put t i f)"
proof -
  have upd: "length (filter live ((nt_slots t)[i := f])) + (if live (slot t i) then 1 else 0)
      = length (filter live (nt_slots t)) + 1"
    using length_filter_list_update [OF i, of live f] f by simp
  have "length (filter live ((nt_slots t)[i := f])) \<le> unat (nt_cap t)"
    using length_filter_le [of live "(nt_slots t)[i := f]"] nat_wf_len(1) [OF wf] by simp
  then have "length (filter live ((nt_slots t)[i := f])) < 4294967296"
    using unat32_less [of "nt_cap t"] by linarith
  moreover have "unat (nt_size t) = length (filter live (nt_slots t))" using wf by (rule nat_wf_len)
  ultimately have "unat (nt_size (put t i f)) = length (filter live ((nt_slots t)[i := f]))"
    using upd by (auto simp: put_def unat_word_ariths)
  with wf show ?thesis by (simp add: nat_wf_def)
qed

lemma Insert_cases:
  assumes wf: "nat_wf t"
  obtains (full) "find (usable t now) (ring (unat (nt_cap t)) (unat (Hash I (fwd_key flow)) mod unat (nt_cap t))) = None"
      "Insert I t flow now = (t, 0, 0, None)" "\<And>i. i < length (nt_slots t) \<Longrightarrow> \<not> usable t now i"
  | (ok) i where "i < length (nt_slots t)" "usable t now i"
      "\<And>x. x \<in> set (before (ring (unat (nt_cap t)) (unat (Hash I (fwd_key flow)) mod unat (nt_cap t))) i) \<Longrightarrow> \<not> usable t now x"
      "Insert I t flow now = (IndexReverse I (put t i (placed flow now)) (of_nat i) now,
         (if occupied (slot t i) then snat_port (slot t i) else 0),
         (if occupied (slot t i) then backend_idx (slot t i) else 0), Some i)"
proof -
  let ?ring = "ring (unat (nt_cap t)) (unat (Hash I (fwd_key flow)) mod unat (nt_cap t))"
  have eq: "Insert I t flow now = Insert_loop I t flow now ?ring"
    by (simp add: Insert_def probes_ring [OF wf])
  show thesis
  proof (cases "find (usable t now) ?ring")
    case None
    then have "\<not> usable t now i" if "i < length (nt_slots t)" for i
      using that nat_wf_len(1) [OF wf] by (auto simp: find_None_iff)
    with None full eq show thesis by (simp add: Insert_loop_eq)
  next
    case (Some i)
    from find_Some_before [OF Some] have "usable t now i" "i \<in> set ?ring"
      "\<forall>x \<in> set (before ?ring i). \<not> usable t now x" by blast+
    with Some ok [of i] eq nat_wf_len(1) [OF wf] show thesis by (simp add: Insert_loop_eq)
  qed
qed

section \<open>Probe chains and unique keys\<close>

text \<open>
  Every occupied slot is reached from its key's start without crossing an empty slot; no two
  live flows have the same key.
\<close>

definition fwd_ring :: "isa \<Rightarrow> NatTable \<Rightarrow> FlowKey \<Rightarrow> nat list" where
  "fwd_ring I t key = ring (unat (nt_cap t)) (unat (Hash I key) mod unat (nt_cap t))"

definition chain_ok :: "isa \<Rightarrow> NatTable \<Rightarrow> bool" where
  "chain_ok I t \<longleftrightarrow> (\<forall>j < length (nt_slots t). occupied (slot t j) \<longrightarrow>
     (\<forall>x \<in> set (before (fwd_ring I t (fwd_key (slot t j))) j). occupied (slot t x)))"

definition uniq_ok :: "NatTable \<Rightarrow> bool" where
  "uniq_ok t \<longleftrightarrow> (\<forall>i < length (nt_slots t). \<forall>j < length (nt_slots t).
     live (slot t i) \<longrightarrow> live (slot t j) \<longrightarrow> fwd_key (slot t i) = fwd_key (slot t j) \<longrightarrow> i = j)"

definition nat_inv :: "isa \<Rightarrow> NatTable \<Rightarrow> bool" where
  "nat_inv I t \<longleftrightarrow> nat_wf t \<and> chain_ok I t \<and> uniq_ok t"

lemma nat_inv_wf [dest]: "nat_inv I t \<Longrightarrow> nat_wf t"
  by (simp add: nat_inv_def)

lemma fwd_ring_cong: "nt_cap t' = nt_cap t \<Longrightarrow> fwd_ring I t' key = fwd_ring I t key"
  by (simp add: fwd_ring_def)

lemma set_fwd_ring: "nat_wf t \<Longrightarrow> set (fwd_ring I t key) = {0..<length (nt_slots t)}"
  by (simp add: fwd_ring_def nat_wf_len)

lemma NatTable_new_wf:
  assumes "cap AND (cap - 1) = 0" and "cap \<noteq> 0"
  shows "nat_wf (NatTable_new cap to)"
  using assms by (simp add: nat_wf_def NatTable_new_def live_def NatFlow_default_def)

lemma NatTable_new_inv [inv_intros]:
  assumes "cap AND (cap - 1) = 0" and "cap \<noteq> 0"
  shows "nat_inv I (NatTable_new cap to)"
  using NatTable_new_wf [OF assms]
  by (simp add: nat_inv_def chain_ok_def uniq_ok_def NatTable_new_def NatFlow_default_def live_def)

text \<open>A change that keeps keys and occupancy and reaps at most keeps the whole invariant.\<close>

lemma nat_inv_weaken:
  assumes inv: "nat_inv I t" and wf': "nat_wf t'" and cap: "nt_cap t' = nt_cap t"
    and slots: "\<And>i. i < length (nt_slots t) \<Longrightarrow> fwd_key (slot t' i) = fwd_key (slot t i)
      \<and> occupied (slot t' i) = occupied (slot t i) \<and> (reaped (slot t i) \<longrightarrow> reaped (slot t' i))"
  shows "nat_inv I t'"
proof -
  have len: "length (nt_slots t') = length (nt_slots t)"
    using nat_wf_len(1) [OF wf'] nat_wf_len(1) [OF nat_inv_wf [OF inv]] cap by simp
  have sub: "x < length (nt_slots t)" if "x \<in> set (before (fwd_ring I t k) j)" for x k j
    using that set_before [of "fwd_ring I t k" j] set_fwd_ring [OF nat_inv_wf [OF inv]] by auto
  have "chain_ok I t'"
    using inv sub slots len by (auto simp: nat_inv_def chain_ok_def fwd_ring_cong [OF cap])
  moreover have "uniq_ok t'"
    using inv slots len unfolding nat_inv_def uniq_ok_def live_def by metis
  ultimately show ?thesis using wf' by (simp add: nat_inv_def)
qed

lemma nat_inv_quiet:
  assumes "nat_inv I t" and "nat_wf t'" and "quiet t t'"
  shows "nat_inv I t'"
proof (rule nat_inv_weaken [OF assms(1,2)])
  show "nt_cap t' = nt_cap t" using assms(3) by (simp add: quiet_def)
next
  fix i
  assume "i < length (nt_slots t)"
  with assms(3) show "fwd_key (slot t' i) = fwd_key (slot t i)
      \<and> occupied (slot t' i) = occupied (slot t i) \<and> (reaped (slot t i) \<longrightarrow> reaped (slot t' i))"
    by (simp add: quiet_fields) (simp add: quiet_def)
qed

lemma LookupForward_inv [inv_intros]:
  "nat_inv I t \<Longrightarrow> LookupForward I t key now = (t', r) \<Longrightarrow> nat_inv I t'"
  using LookupForward_spec(2,3) nat_inv_quiet nat_inv_wf by blast

lemma LookupReverse_inv [inv_intros]:
  "nat_inv I t \<Longrightarrow> LookupReverse I t a b c d now = (t', r) \<Longrightarrow> nat_inv I t'"
  by (rule nat_inv_quiet [of I t t']) (auto dest: LookupReverse_spec(2,3) [OF nat_inv_wf])

lemma Close_slots:
  assumes "i < length (nt_slots t)" and "live (slot t i)" and "Close t i = (t', port, idx)"
  shows "port = snat_port (slot t i)" and "idx = backend_idx (slot t i)"
    and "nt_slots t' = (nt_slots t)[i := (slot t i)\<lparr>reaped := True, snat_port := 0\<rparr>]"
    and "nt_cap t' = nt_cap t" and "nt_rev t' = nt_rev t" and "nt_timeout t' = nt_timeout t"
  using assms by (auto simp: Close_def live_def Let_def Reap_def set_slot_def)

lemma Close_dead:
  assumes "\<not> live (slot t i)"
  shows "Close t i = (t, 0, 0)"
  using assms by (auto simp: Close_def live_def)

lemma Close_wf [inv_intros]:
  assumes "nat_wf t" and "i < length (nt_slots t)" and "Close t i = (t', port, idx)"
  shows "nat_wf t'"
  using assms nat_wf_Reap [of t i]
  by (auto simp: Close_def Let_def split: if_splits intro!: nat_wf_set_slot)

lemma Close_inv [inv_intros]:
  assumes inv: "nat_inv I t" and i: "i < length (nt_slots t)" and cl: "Close t i = (t', port, idx)"
  shows "nat_inv I t'"
proof (cases "live (slot t i)")
  case False
  with inv cl show ?thesis by (simp add: Close_dead)
next
  case True
  note c = Close_slots [OF i True cl]
  have wf: "nat_wf t'" using Close_wf [OF _ i cl] inv by (auto simp: nat_inv_def)
  show ?thesis
    by (rule nat_inv_weaken [OF inv wf c(4)]) (use i in \<open>auto simp: c(3) nth_list_update\<close>)
qed

lemma Insert_inv [inv_intros]:
  assumes inv: "nat_inv I t" and ins: "Insert I t flow now = (t', ep, ei, r)"
    and nr: "\<not> reaped flow"
    and fresh: "\<And>j. j < length (nt_slots t) \<Longrightarrow> live (slot t j) \<Longrightarrow> fwd_key (slot t j) \<noteq> fwd_key flow"
  shows "nat_inv I t'"
  using nat_inv_wf [OF inv]
proof (cases rule: Insert_cases [where now = now and I = I and flow = flow])
  case full
  with ins inv show ?thesis by simp
next
  case (ok i)
  have wf: "nat_wf t" using inv by (rule nat_inv_wf)
  let ?f = "placed flow now"
  have f: "live ?f" "occupied ?f" "fwd_key ?f = fwd_key flow" using nr by (simp_all add: placed_def live_def)
  have t': "t' = IndexReverse I (put t i ?f) (of_nat i) now" using ok(4) ins by simp
  have sl: "nt_slots t' = (nt_slots t)[i := ?f]" and cap: "nt_cap t' = nt_cap t" by (simp_all add: t')
  have occ_path: "occupied (slot t x)" if "x \<in> set (before (fwd_ring I t (fwd_key flow)) i)" for x
    using ok(3) [of x] that by (auto simp: fwd_ring_def usable_def)
  have "nat_wf t'"
    unfolding t' using put_wf [OF wf ok(1) f(1)] ok(1) nat_wf_len(1) [OF wf]
    by (intro IndexReverse_wf) simp_all
  moreover have "chain_ok I t'"
    unfolding chain_ok_def fwd_ring_cong [OF cap]
  proof (intro allI impI ballI)
    fix j x
    assume j: "j < length (nt_slots t')" and occ: "occupied (slot t' j)"
      and x: "x \<in> set (before (fwd_ring I t (fwd_key (slot t' j))) j)"
    have "occupied (slot t x) \<or> x = i"
    proof (cases "j = i")
      case True
      with x occ_path [of x] ok(1) f show ?thesis by (simp add: sl)
    next
      case False
      then have "slot t' j = slot t j" by (simp add: sl)
      with inv j occ x show ?thesis by (auto simp: nat_inv_def chain_ok_def sl)
    qed
    with ok(1) f(2) show "occupied (slot t' x)" by (cases "x = i") (auto simp: sl)
  qed
  moreover have "uniq_ok t'"
    unfolding uniq_ok_def
  proof (intro allI impI)
    fix a b
    assume ab: "a < length (nt_slots t')" "b < length (nt_slots t')" "live (slot t' a)"
      "live (slot t' b)" "fwd_key (slot t' a) = fwd_key (slot t' b)"
    have old: "slot t' c = slot t c" if "c \<noteq> i" for c using that by (simp add: sl)
    have new: "slot t' i = ?f" using ok(1) by (simp add: sl)
    have len: "length (nt_slots t') = length (nt_slots t)" by (simp add: sl)
    consider "a = i" "b = i" | "a = i" "b \<noteq> i" | "a \<noteq> i" "b = i" | "a \<noteq> i" "b \<noteq> i" by blast
    then show "a = b"
    proof cases
      case 2
      with ab fresh [of b] old new f(3) len show ?thesis by auto
    next
      case 3
      with ab fresh [of a] old new f(3) len show ?thesis by auto
    next
      case 4
      with ab old len inv show ?thesis unfolding nat_inv_def uniq_ok_def by metis
    qed simp
  qed
  ultimately show ?thesis by (simp add: nat_inv_def)
qed

section \<open>What a lookup finds\<close>

lemma in_path_iff:
  assumes inv: "nat_inv I t" and j: "j < length (nt_slots t)" and occ: "occupied (slot t j)"
    and key: "fwd_key (slot t j) = key"
  shows "j \<in> set (takeWhile (\<lambda>i. occupied (slot t i)) (fwd_ring I t key))"
proof -
  have "j \<in> set (fwd_ring I t key)" using j set_fwd_ring [OF nat_inv_wf [OF inv]] by simp
  moreover have "\<forall>x \<in> set (before (fwd_ring I t key) j). occupied (slot t x)"
    using inv j occ key by (auto simp: nat_inv_def chain_ok_def)
  ultimately show ?thesis using occ by (simp add: in_takeWhile_iff_before)
qed

lemma LookupForward_Some_iff:
  assumes inv: "nat_inv I t" and run: "LookupForward I t key now = (t', r)"
  shows "r = Some i \<longleftrightarrow> i < length (nt_slots t) \<and> occupied (slot t i)
    \<and> \<not> Expired t (slot t i) now \<and> fwd_key (slot t i) = key"
proof -
  let ?path = "takeWhile (\<lambda>i. occupied (slot t i)) (fwd_ring I t key)"
  have wf: "nat_wf t" using inv by (rule nat_inv_wf)
  have r: "r = find (fwd_hit t key now) ?path"
    using LookupForward_spec(1) [OF wf run] by (simp add: fwd_ring_def)
  have path: "x < length (nt_slots t) \<and> occupied (slot t x)" if "x \<in> set ?path" for x
    using that set_fwd_ring [OF wf] by (auto dest: set_takeWhileD)
  show ?thesis
  proof
    assume "r = Some i"
    with r have "find (fwd_hit t key now) ?path = Some i" by simp
    from find_Some_before [OF this] path show "i < length (nt_slots t) \<and> occupied (slot t i)
        \<and> \<not> Expired t (slot t i) now \<and> fwd_key (slot t i) = key"
      by (auto simp: fwd_hit_def)
  next
    assume h: "i < length (nt_slots t) \<and> occupied (slot t i)
        \<and> \<not> Expired t (slot t i) now \<and> fwd_key (slot t i) = key"
    have "find (fwd_hit t key now) ?path = Some i"
    proof (rule find_unique)
      show "i \<in> set ?path" using in_path_iff [OF inv] h by blast
      show "fwd_hit t key now i" using h by (simp add: fwd_hit_def)
      fix y
      assume y: "y \<in> set ?path" "fwd_hit t key now y"
      then have "live (slot t y)" "live (slot t i)" "fwd_key (slot t y) = fwd_key (slot t i)"
        using h path [of y] by (auto simp: live_def fwd_hit_def Expired_def)
      with inv path [OF y(1)] h show "y = i" unfolding nat_inv_def uniq_ok_def by metis
    qed
    with r show "r = Some i" by simp
  qed
qed

lemma LookupForward_miss:
  assumes inv: "nat_inv I t" and run: "LookupForward I t key now = (t', None)"
    and j: "j < length (nt_slots t')" and lv: "live (slot t' j)"
  shows "fwd_key (slot t' j) \<noteq> key"
proof
  assume key: "fwd_key (slot t' j) = key"
  have wf: "nat_wf t" using inv by (rule nat_inv_wf)
  note sp = LookupForward_spec [OF wf run]
  have j': "j < length (nt_slots t)" using j sp(3) by (simp add: quiet_def)
  have "fwd_key (slot t j) = key" "occupied (slot t j)"
    using key lv quiet_fields [OF sp(3) j'] by (simp_all add: live_def)
  then have "reaped (slot t' j)"
    using in_path_iff [OF inv j'] sp(6) [of j] by (simp add: fwd_ring_def)
  with lv show False by (simp add: live_def)
qed

end
