(* ===== verification/Nat_Spec.thy ===== *)
theory Nat_Spec
  imports Nat_Invariant
begin

text \<open>
  What the connection table promises: at any time it is a finite map from forward keys to
  flows, \<open>conn\<close>, which lookup reads and insertion updates; a flow that is refreshed within
  the timeout stays; the reverse index finds a flow that was indexed. The interface
  \<open>conntrack\<close> states the promises, and is interpreted on the table.
\<close>

definition conn :: "NatTable \<Rightarrow> u32 \<Rightarrow> FlowKey \<Rightarrow> NatFlow option" where
  "conn t now key = find (\<lambda>f. occupied f \<and> \<not> Expired t f now \<and> fwd_key f = key) (nt_slots t)"

lemma conn_Some_iff:
  assumes inv: "nat_inv I t"
  shows "conn t now key = Some f \<longleftrightarrow> (\<exists>i < length (nt_slots t). slot t i = f
    \<and> occupied f \<and> \<not> Expired t f now \<and> fwd_key f = key)"
proof
  assume "conn t now key = Some f"
  then show "\<exists>i < length (nt_slots t). slot t i = f \<and> occupied f \<and> \<not> Expired t f now \<and> fwd_key f = key"
    by (auto simp: conn_def find_Some_iff)
next
  assume "\<exists>i < length (nt_slots t). slot t i = f \<and> occupied f \<and> \<not> Expired t f now \<and> fwd_key f = key"
  then obtain i where i: "i < length (nt_slots t)" "slot t i = f" "occupied f"
    "\<not> Expired t f now" "fwd_key f = key" by blast
  show "conn t now key = Some f"
    unfolding conn_def
  proof (rule find_unique)
    show "f \<in> set (nt_slots t)" using i by auto
    show "occupied f \<and> \<not> Expired t f now \<and> fwd_key f = key" using i by simp
    fix g
    assume "g \<in> set (nt_slots t)" "occupied g \<and> \<not> Expired t g now \<and> fwd_key g = key"
    then obtain j where j: "j < length (nt_slots t)" "slot t j = g" "occupied g"
      "\<not> Expired t g now" "fwd_key g = key" by (auto simp: in_set_conv_nth)
    then have "j = i"
      using inv i unfolding nat_inv_def uniq_ok_def live_def Expired_def by metis
    with i j show "g = f" by simp
  qed
qed

lemma conn_eqI:
  assumes "nat_inv I t" and "nat_inv I' t'"
    and "\<And>f. (\<exists>i < length (nt_slots t). slot t i = f \<and> occupied f \<and> \<not> Expired t f now \<and> fwd_key f = key)
      \<longleftrightarrow> (\<exists>i < length (nt_slots t'). slot t' i = f \<and> occupied f \<and> \<not> Expired t' f now' \<and> fwd_key f = key)"
  shows "conn t now key = conn t' now' key"
  using conn_Some_iff [OF assms(1), of now key] conn_Some_iff [OF assms(2), of now' key] assms(3)
  by (metis (no_types, lifting) not_Some_eq)

lemma LookupForward_conn:
  assumes inv: "nat_inv I t" and run: "LookupForward I t key now = (t', r)"
  shows "map_option (slot t) r = conn t now key \<and> nat_inv I t'
    \<and> conn t' now key = map_option (\<lambda>f. f\<lparr>last_seen_ms := now\<rparr>) (conn t now key)
    \<and> (\<forall>k. k \<noteq> key \<longrightarrow> conn t' now k = conn t now k)"
proof (intro conjI)
  have wf: "nat_wf t" using inv by (rule nat_inv_wf)
  note sp = LookupForward_spec [OF wf run]
  note hit = LookupForward_Some_iff [OF inv run]
  show inv': "nat_inv I t'" by (rule LookupForward_inv [OF inv run])
  have len: "length (nt_slots t') = length (nt_slots t)" and to: "nt_timeout t' = nt_timeout t"
    using sp(3) by (auto simp: quiet_def)
  show res: "map_option (slot t) r = conn t now key"
    using hit conn_Some_iff [OF inv, of now key]
    by (cases r; cases "conn t now key") (metis option.distinct(1) option.simps(9) option.simps(8))+
  show "\<forall>k. k \<noteq> key \<longrightarrow> conn t' now k = conn t now k"
  proof (intro allI impI conn_eqI [OF inv' inv])
    fix k f
    assume k: "k \<noteq> key"
    have "slot t' i = f \<and> occupied f \<and> \<not> Expired t' f now \<and> fwd_key f = k \<longleftrightarrow>
        slot t i = f \<and> occupied f \<and> \<not> Expired t f now \<and> fwd_key f = k"
      if i: "i < length (nt_slots t)" for i
    proof (cases "r = Some i")
      case True
      with hit [of i] sp(4) [of i] k show ?thesis by auto
    next
      case False
      with sp(5) [OF i] show ?thesis
        by (auto simp: spared_def Expired_cong [OF to] Expired_reaped_iff)
    qed
    then show "(\<exists>i < length (nt_slots t'). slot t' i = f \<and> occupied f \<and> \<not> Expired t' f now \<and> fwd_key f = k)
      \<longleftrightarrow> (\<exists>i < length (nt_slots t). slot t i = f \<and> occupied f \<and> \<not> Expired t f now \<and> fwd_key f = k)"
      by (auto simp: len)
  qed
  show "conn t' now key = map_option (\<lambda>f. f\<lparr>last_seen_ms := now\<rparr>) (conn t now key)"
  proof (cases r)
    case (Some i)
    with hit [of i] sp(4) [of i] len to
    have "conn t' now key = Some ((slot t i)\<lparr>last_seen_ms := now\<rparr>)"
      unfolding conn_Some_iff [OF inv'] by (intro exI [of _ i]) (auto simp: Expired_def)
    with res [symmetric] Some show ?thesis by simp
  next
    case None
    have "conn t' now key = None"
    proof (rule ccontr)
      assume "conn t' now key \<noteq> None"
      then obtain f i where "i < length (nt_slots t')" "slot t' i = f" "occupied f"
        "\<not> Expired t' f now" "fwd_key f = key"
        using conn_Some_iff [OF inv', of now key] by blast
      with LookupForward_miss [OF inv, of key now t' i] run None show False
        by (auto simp: live_def Expired_def)
    qed
    with res [symmetric] None show ?thesis by simp
  qed
qed

text \<open>
  C16. On a table that satisfies the invariant, \<open>LookupForward\<close> answers exactly what the
  abstract map holds for the key, keeps the invariant, and leaves the entry of every other key
  as it was; a hit only refreshes the time stamp.
\<close>

theorem LookupForward_refines:
  assumes "nat_inv I t" and "LookupForward I t key now = (t', r)"
  shows "map_option (slot t) r = conn t now key \<and> nat_inv I t'
    \<and> conn t' now key = map_option (\<lambda>f. f\<lparr>last_seen_ms := now\<rparr>) (conn t now key)
    \<and> (\<forall>k. k \<noteq> key \<longrightarrow> conn t' now k = conn t now k)"
  by (rule LookupForward_conn [OF assms])

text \<open>
  C17. Insertion after a miss, as the load balancer does it: the abstract map gains the new flow
  under its key and keeps every other entry; only a slot that was free or expired is used; the
  insertion fails exactly when every slot holds an unexpired flow.
\<close>

theorem Insert_refines:
  assumes inv: "nat_inv I t" and miss: "LookupForward I t (fwd_key flow) now = (t1, None)"
    and ins: "Insert I t1 flow now = (t2, ep, ei, r)" and nr: "\<not> reaped flow"
  shows "nat_inv I t2
    \<and> (case r of
        None \<Rightarrow> t2 = t1 \<and> (\<forall>i < length (nt_slots t). occupied (slot t i) \<and> \<not> Expired t (slot t i) now)
      | Some i \<Rightarrow> i < length (nt_slots t) \<and> (\<not> occupied (slot t i) \<or> Expired t (slot t i) now)
          \<and> conn t2 now = (conn t now)(fwd_key flow \<mapsto> flow\<lparr>occupied := True, last_seen_ms := now\<rparr>))"
proof -
  have wf: "nat_wf t" using inv by (rule nat_inv_wf)
  note sp = LookupForward_spec [OF wf miss]
  have inv1: "nat_inv I t1" by (rule LookupForward_inv [OF inv miss])
  have wf1: "nat_wf t1" using inv1 by (rule nat_inv_wf)
  have len: "length (nt_slots t1) = length (nt_slots t)" and to: "nt_timeout t1 = nt_timeout t"
    using sp(3) by (auto simp: quiet_def)
  have inv2: "nat_inv I t2"
    using LookupForward_miss [OF inv miss] by (intro Insert_inv [OF inv1 ins nr]) auto
  have us: "usable t1 now i = usable t now i" if "i < length (nt_slots t)" for i
    using sp(5) [OF that] by (auto simp: usable_def spared_def Expired_def to)
  have conn1: "conn t1 now k = conn t now k" if "k \<noteq> fwd_key flow" for k
    using LookupForward_conn [OF inv miss] that by blast
  from wf1 show ?thesis
  proof (cases rule: Insert_cases [where now = now and I = I and flow = flow])
    case full
    with ins us len inv2 show ?thesis by (auto simp: usable_def)
  next
    case (ok i)
    let ?f = "placed flow now"
    have t2: "t2 = IndexReverse I (put t1 i ?f) (of_nat i) now" and r: "r = Some i"
      using ok(4) ins by auto
    have sl: "nt_slots t2 = (nt_slots t1)[i := ?f]" and to2: "nt_timeout t2 = nt_timeout t1"
      by (simp_all add: t2)
    have "conn t2 now (fwd_key flow) = Some ?f"
      using ok(1) unfolding conn_Some_iff [OF inv2]
      by (intro exI [of _ i]) (simp add: sl placed_def Expired_def nr)
    moreover have "conn t2 now k = conn t1 now k" if k: "k \<noteq> fwd_key flow" for k
    proof (rule conn_eqI [OF inv2 inv1])
      fix f
      have "slot t2 j = f \<and> occupied f \<and> \<not> Expired t2 f now \<and> fwd_key f = k \<longleftrightarrow>
          slot t1 j = f \<and> occupied f \<and> \<not> Expired t1 f now \<and> fwd_key f = k" for j
        using ok(1,2) k by (cases "j = i") (auto simp: sl placed_def usable_def Expired_cong [OF to2])
      then show "(\<exists>j < length (nt_slots t2). slot t2 j = f \<and> occupied f \<and> \<not> Expired t2 f now \<and> fwd_key f = k)
        \<longleftrightarrow> (\<exists>j < length (nt_slots t1). slot t1 j = f \<and> occupied f \<and> \<not> Expired t1 f now \<and> fwd_key f = k)"
        by (simp add: sl)
    qed
    ultimately have "conn t2 now = (conn t now)(fwd_key flow \<mapsto> ?f)"
      using conn1 by (auto simp: fun_eq_iff)
    moreover have "usable t now i" using ok(1,2) us len by simp
    ultimately show ?thesis
      using inv2 r ok(1) len by (simp add: placed_def usable_def)
  qed
qed

section \<open>A small table for the witnesses\<close>

definition ex_key :: FlowKey where
  "ex_key = mk_key 0xC0A80005 0x0A000001 40000 80 6"

definition ex_flow :: "u16 \<Rightarrow> u16 \<Rightarrow> NatFlow" where
  "ex_flow cport sport = NatFlow_default\<lparr>fwd_key := mk_key 0xC0A80005 0x0A000001 cport 80 6,
     backend_ip := 0x0A000101, backend_port := 8080, snat_port := sport, backend_idx := 1\<rparr>"

definition ex_table :: NatTable where
  "ex_table = NatTable_new 4 1000"

definition ex_table1 :: NatTable where
  "ex_table1 = fst (Insert Generic ex_table (ex_flow 40000 50000) 5)"

lemma ex_table_inv: "nat_inv I ex_table"
  unfolding ex_table_def by (rule NatTable_new_inv) simp_all

lemma ex_table_free: "slot ex_table i = NatFlow_default" if "i < length (nt_slots ex_table)" for i
  using that by (simp add: ex_table_def NatTable_new_def)

lemma ex_table1_inv: "nat_inv Generic ex_table1"
proof -
  obtain t2 ep ei r where ins: "Insert Generic ex_table (ex_flow 40000 50000) 5 = (t2, ep, ei, r)"
    by (metis prod_cases4)
  have "nat_inv Generic t2"
    by (rule Insert_inv [OF ex_table_inv ins])
      (auto simp: ex_flow_def NatFlow_default_def live_def dest!: ex_table_free)
  then show ?thesis using ins by (simp add: ex_table1_def)
qed

theorem LookupForward_refines_witness:
  "\<exists>t' i. LookupForward Generic ex_table1 ex_key 1001 = (t', Some i)
     \<and> conn ex_table1 1001 ex_key = Some (slot ex_table1 i) \<and> nat_inv Generic t'"
proof -
  obtain t' r where run: "LookupForward Generic ex_table1 ex_key 1001 = (t', r)" by fastforce
  have "snd (LookupForward Generic ex_table1 ex_key 1001) \<noteq> None" by code_simp
  with run obtain i where "r = Some i" by auto
  then show ?thesis using LookupForward_refines [OF ex_table1_inv run] run by auto
qed

theorem Insert_refines_witness:
  "\<exists>t1 t2 ep ei i. LookupForward Generic ex_table1 (mk_key 0xC0A80005 0x0A000001 40001 80 6) 6 = (t1, None)
     \<and> Insert Generic t1 (ex_flow 40001 50001) 6 = (t2, ep, ei, Some i)
     \<and> conn t2 6 = (conn ex_table1 6)(mk_key 0xC0A80005 0x0A000001 40001 80 6
          \<mapsto> (ex_flow 40001 50001)\<lparr>occupied := True, last_seen_ms := 6\<rparr>)"
proof -
  let ?k = "mk_key 0xC0A80005 0x0A000001 40001 80 6"
  obtain t1 r1 where run: "LookupForward Generic ex_table1 ?k 6 = (t1, r1)" by fastforce
  have "snd (LookupForward Generic ex_table1 ?k 6) = None" by code_simp
  with run have miss: "LookupForward Generic ex_table1 (fwd_key (ex_flow 40001 50001)) 6 = (t1, None)"
    by (simp add: ex_flow_def)
  obtain t2 ep ei r where ins: "Insert Generic t1 (ex_flow 40001 50001) 6 = (t2, ep, ei, r)"
    by (metis prod_cases4)
  have "snd (snd (snd (Insert Generic (fst (LookupForward Generic ex_table1 ?k 6)) (ex_flow 40001 50001) 6))) \<noteq> None"
    by code_simp
  with run ins obtain i where r: "r = Some i" by auto
  have nr: "\<not> reaped (ex_flow 40001 50001)" by (simp add: ex_flow_def NatFlow_default_def)
  from Insert_refines [OF ex_table1_inv miss ins nr] r miss ins show ?thesis
    by (auto simp: ex_flow_def)
qed

section \<open>The reverse index\<close>

text \<open>
  \<open>indexed I t i\<close>: a reverse cell names slot \<open>i\<close>, and the probe that starts at the hash
  of the flow's reverse key comes to that cell without crossing an empty one.
\<close>

definition rev_ring :: "isa \<Rightarrow> NatTable \<Rightarrow> NatFlow \<Rightarrow> nat list" where
  "rev_ring I t f = ring (unat (nt_cap t))
     (unat (RevHash I (backend_ip f) (backend_port f) (snat_port f) (proto (fwd_key f))) mod unat (nt_cap t))"

definition indexed :: "isa \<Rightarrow> NatTable \<Rightarrow> nat \<Rightarrow> bool" where
  "indexed I t i \<longleftrightarrow> (\<exists>c < unat (nt_cap t). nt_rev t ! c \<noteq> 0 \<and> ptr_slot t c = i
     \<and> (\<forall>x \<in> set (before (rev_ring I t (slot t i)) c). nt_rev t ! x \<noteq> 0))"

lemma LookupReverse_indexed:
  assumes wf: "nat_wf t" and ix: "indexed I t i"
    and hit: "rev_hit t bip bp sp pr now i"
    and only: "\<And>j. j < length (nt_slots t) \<Longrightarrow> rev_hit t bip bp sp pr now j \<Longrightarrow> j = i"
  shows "snd (LookupReverse I t bip bp sp pr now) = Some i"
proof -
  obtain t' r where run: "LookupReverse I t bip bp sp pr now = (t', r)" by fastforce
  let ?ring = "ring (unat (nt_cap t)) (unat (RevHash I bip bp sp pr) mod unat (nt_cap t))"
  let ?path = "takeWhile (\<lambda>c. nt_rev t ! c \<noteq> 0) ?ring"
  have rr: "rev_ring I t (slot t i) = ?ring"
    using hit by (auto simp: rev_ring_def rev_hit_def rev_match_def)
  obtain c where c: "c < unat (nt_cap t)" "nt_rev t ! c \<noteq> 0" "ptr_slot t c = i"
    "\<forall>x \<in> set (before ?ring c). nt_rev t ! x \<noteq> 0"
    using ix unfolding indexed_def rr by blast
  then have cp: "c \<in> set ?path" by (simp add: in_takeWhile_iff_before)
  have "find (\<lambda>c. rev_hit t bip bp sp pr now (ptr_slot t c)) ?path \<noteq> None"
    using cp c(3) hit by (auto simp: find_None_iff)
  then obtain d where d: "find (\<lambda>c. rev_hit t bip bp sp pr now (ptr_slot t c)) ?path = Some d" by blast
  from find_Some_before(1,2) [OF d] have dh: "rev_hit t bip bp sp pr now (ptr_slot t d)" and dp: "d \<in> set ?path"
    by simp_all
  have "ptr_slot t d < length (nt_slots t)"
    using dp nat_wf_ptr [OF wf, of d] by (auto simp: ptr_slot_def nat_wf_len [OF wf] dest: set_takeWhileD)
  with dh only have "ptr_slot t d = i" by blast
  with d run LookupReverse_spec(1) [OF wf run] show ?thesis by simp
qed

lemma unat_succ_slot:
  assumes "nat_wf t" and "i < unat (nt_cap t)"
  shows "unat ((of_nat i + 1 :: u32) - 1) = i" and "(of_nat i + 1 :: u32) \<noteq> 0"
proof -
  have lt: "i + 1 < 4294967296" using assms(2) unat32_less [of "nt_cap t"] by linarith
  then show "unat ((of_nat i + 1 :: u32) - 1) = i"
    by (simp add: unsigned_of_nat take_bit_nat_eq_self)
  have "unat (of_nat i + 1 :: u32) = i + 1"
    using lt by (simp add: unat_word_ariths unsigned_of_nat take_bit_nat_eq_self)
  then show "(of_nat i + 1 :: u32) \<noteq> 0" by auto
qed

lemma IndexReverse_indexed:
  assumes wf: "nat_wf t" and i: "i < unat (nt_cap t)"
    and room: "\<exists>c < unat (nt_cap t). rev_free t now c"
  shows "indexed I (IndexReverse I t (of_nat i) now) i"
proof -
  have ui: "unat (of_nat i :: u32) = i"
    using i unat32_less [of "nt_cap t"] by (simp add: unsigned_of_nat take_bit_nat_eq_self)
  let ?ring = "rev_ring I t (slot t i)"
  have "find (rev_free t now) ?ring \<noteq> None"
    using room by (auto simp: find_None_iff rev_ring_def)
  then obtain c where c: "find (rev_free t now) ?ring = Some c" by blast
  from find_Some_before(2) [OF c] have clt: "c < unat (nt_cap t)" by (simp add: rev_ring_def)
  have path: "nt_rev t ! x \<noteq> 0" if "x \<in> set (before ?ring c)" for x
    using find_Some_before(3) [OF c] that by (auto simp: rev_free_def)
  have eq: "IndexReverse I t (of_nat i) now = t\<lparr>nt_rev := (nt_rev t)[c := of_nat i + 1]\<rparr>"
    using c by (simp add: IndexReverse_def Let_def IndexReverse_loop_eq ui probes_ring [OF wf] rev_ring_def)
  note us = unat_succ_slot [OF wf i]
  have len: "c < length (nt_rev t)" using clt by (simp add: nat_wf_len [OF wf])
  have rr: "rev_ring I (t\<lparr>nt_rev := (nt_rev t)[c := of_nat i + 1]\<rparr>) f = rev_ring I t f" for f
    by (simp add: rev_ring_def)
  have "nt_rev t ! x \<noteq> 0 \<Longrightarrow> (nt_rev t)[c := of_nat i + 1] ! x \<noteq> 0" for x
    using us(2) len by (cases "x = c") auto
  then show ?thesis
    unfolding eq indexed_def rr using clt len us path
    by (intro exI [of _ c]) (auto simp: ptr_slot_def)
qed

lemma indexed_quiet:
  assumes "quiet t t'" and "i < length (nt_slots t)"
  shows "indexed I t' i = indexed I t i"
proof -
  have "rev_ring I t' (slot t' i) = rev_ring I t (slot t i)"
    using assms by (simp add: rev_ring_def quiet_fields) (simp add: quiet_def)
  moreover have "nt_cap t' = nt_cap t" "nt_rev t' = nt_rev t" using assms(1) by (simp_all add: quiet_def)
  ultimately show ?thesis by (simp add: indexed_def ptr_slot_def)
qed

text \<open>Writing the index for another flow never takes the cell of a flow that is still valid.\<close>

lemma indexed_IndexReverse:
  assumes wf: "nat_wf t" and j: "j < unat (nt_cap t)" and ix: "indexed I t i"
    and valid: "occupied (slot t i)" "\<not> Expired t (slot t i) now"
  shows "indexed I (IndexReverse I t (of_nat j) now) i"
proof -
  obtain c where c: "c < unat (nt_cap t)" "nt_rev t ! c \<noteq> 0" "ptr_slot t c = i"
    "\<forall>x \<in> set (before (rev_ring I t (slot t i)) c). nt_rev t ! x \<noteq> 0"
    using ix unfolding indexed_def by blast
  have nf: "\<not> rev_free t now c" using c valid by (simp add: rev_free_def)
  show ?thesis
  proof (cases "IndexReverse I t (of_nat j) now = t")
    case True
    with ix show ?thesis by simp
  next
    case False
    then obtain d cs where d: "IndexReverse I t (of_nat j) now = t\<lparr>nt_rev := (nt_rev t)[d := of_nat j + 1]\<rparr>"
      and fd: "find (rev_free t now) cs = Some d"
      by (auto simp: IndexReverse_def Let_def IndexReverse_loop_eq split: option.splits)
    have "d \<noteq> c" using find_Some_before(1) [OF fd] nf by auto
    have rr: "rev_ring I (t\<lparr>nt_rev := (nt_rev t)[d := of_nat j + 1]\<rparr>) f = rev_ring I t f" for f
      by (simp add: rev_ring_def)
    have nz: "nt_rev t ! x \<noteq> 0 \<Longrightarrow> (nt_rev t)[d := of_nat j + 1] ! x \<noteq> 0" for x
      using unat_succ_slot(2) [OF wf j] by (cases "x = d"; cases "d < length (nt_rev t)") (auto simp: list_update_beyond)
    from c \<open>d \<noteq> c\<close> nz show ?thesis
      unfolding d indexed_def rr by (intro exI [of _ c]) (auto simp: ptr_slot_def)
  qed
qed

lemma Insert_Some:
  assumes wf: "nat_wf t" and ins: "Insert I t flow now = (t', ep, ei, Some i)"
  shows "i < length (nt_slots t)" and "usable t now i"
    and "t' = IndexReverse I (put t i (placed flow now)) (of_nat i) now"
    and "ep = (if occupied (slot t i) then snat_port (slot t i) else 0)"
    and "ei = (if occupied (slot t i) then backend_idx (slot t i) else 0)"
  using wf by (cases rule: Insert_cases [where now = now and I = I and flow = flow], use ins in auto)+

text \<open>
  C24. A flow that goes in while the reverse array still has an empty cell is found by its
  reverse key as long as it has not timed out, provided no other valid flow has the same
  reverse key.
\<close>

theorem Insert_then_LookupReverse:
  assumes inv: "nat_inv I t" and ins: "Insert I t flow now = (t', ep, ei, Some i)"
    and nr: "\<not> reaped flow"
    and room: "0 \<in> set (nt_rev t)" and time: "now' - now \<le> nt_timeout t"
    and only: "\<And>j. j < length (nt_slots t') \<Longrightarrow> j \<noteq> i \<Longrightarrow> occupied (slot t' j) \<Longrightarrow> \<not> Expired t' (slot t' j) now'
      \<Longrightarrow> \<not> rev_match (backend_ip flow) (backend_port flow) (snat_port flow) (proto (fwd_key flow)) (slot t' j)"
  shows "snd (LookupReverse I t' (backend_ip flow) (backend_port flow) (snat_port flow)
     (proto (fwd_key flow)) now') = Some i"
proof (rule LookupReverse_indexed)
  have wf: "nat_wf t" using inv by (rule nat_inv_wf)
  note pl = Insert_Some [OF wf ins]
  let ?f = "placed flow now"
  let ?u = "put t i ?f"
  have lv: "live ?f" using nr by (simp add: placed_def live_def)
  have wfu: "nat_wf ?u" by (rule put_wf [OF wf pl(1) lv])
  have icap: "i < unat (nt_cap ?u)" using pl(1) nat_wf_len(1) [OF wf] by simp
  show "nat_wf t'" unfolding pl(3) by (rule IndexReverse_wf [OF wfu icap])
  obtain c where "c < unat (nt_cap t)" "nt_rev t ! c = 0"
    using room nat_wf_len(2) [OF wf] by (auto simp: in_set_conv_nth)
  then have "\<exists>c < unat (nt_cap ?u). rev_free ?u now c" by (auto simp: rev_free_def)
  then show "indexed I t' i" unfolding pl(3) by (rule IndexReverse_indexed [OF wfu icap])
  have sl: "slot t' i = ?f" and to: "nt_timeout t' = nt_timeout t" using pl(1) by (simp_all add: pl(3))
  show "rev_hit t' (backend_ip flow) (backend_port flow) (snat_port flow) (proto (fwd_key flow)) now' i"
    using time nr by (simp add: rev_hit_def sl to placed_def Expired_def rev_match_def not_less)
  fix j
  assume "j < length (nt_slots t')"
    and "rev_hit t' (backend_ip flow) (backend_port flow) (snat_port flow) (proto (fwd_key flow)) now' j"
  then show "j = i" using only [of j] by (auto simp: rev_hit_def)
qed

theorem Insert_then_LookupReverse_witness:
  "\<exists>t' ep ei i. Insert Generic ex_table (ex_flow 40000 50000) 5 = (t', ep, ei, Some i)
     \<and> snd (LookupReverse Generic t' 0x0A000101 8080 50000 6 1005) = Some i"
proof -
  obtain t' ep ei r where ins': "Insert Generic ex_table (ex_flow 40000 50000) 5 = (t', ep, ei, r)"
    by (metis prod_cases4)
  have "snd (snd (snd (Insert Generic ex_table (ex_flow 40000 50000) 5))) \<noteq> None" by code_simp
  with ins' obtain i where ins: "Insert Generic ex_table (ex_flow 40000 50000) 5 = (t', ep, ei, Some i)" by auto
  note pl = Insert_Some [OF nat_inv_wf [OF ex_table_inv] ins]
  have "snd (LookupReverse Generic t' (backend_ip (ex_flow 40000 50000)) (backend_port (ex_flow 40000 50000))
     (snat_port (ex_flow 40000 50000)) (proto (fwd_key (ex_flow 40000 50000))) 1005) = Some i"
  proof (rule Insert_then_LookupReverse [OF ex_table_inv ins])
    show "\<not> reaped (ex_flow 40000 50000)" by (simp add: ex_flow_def NatFlow_default_def)
    show "0 \<in> set (nt_rev ex_table)" by (simp add: ex_table_def NatTable_new_def)
    show "1005 - 5 \<le> nt_timeout ex_table" by (simp add: ex_table_def NatTable_new_def)
    fix j
    assume "j < length (nt_slots t')" "j \<noteq> i" "occupied (slot t' j)"
    then have "occupied (slot ex_table j)" "j < length (nt_slots ex_table)" by (auto simp: pl(3))
    then show "\<not> rev_match (backend_ip (ex_flow 40000 50000)) (backend_port (ex_flow 40000 50000))
        (snat_port (ex_flow 40000 50000)) (proto (fwd_key (ex_flow 40000 50000))) (slot t' j)"
      by (simp add: ex_table_free NatFlow_default_def)
  qed
  with ins show ?thesis by (auto simp: ex_flow_def)
qed

text \<open>When no cell is free for it, a flow that goes in gets no cell of its own.\<close>

lemma IndexReverse_full:
  assumes wf: "nat_wf t" and full: "\<And>c. c < unat (nt_cap t) \<Longrightarrow> \<not> rev_free t now c"
  shows "IndexReverse I t s now = t"
proof -
  have "find (rev_free t now) cs = None" if "set cs \<subseteq> {..<unat (nt_cap t)}" for cs using that full by (auto simp: find_None_iff)
  from this [of "ring (unat (nt_cap t)) k" for k] show ?thesis by (simp add: IndexReverse_def Let_def IndexReverse_loop_eq probes_ring [OF wf] lessThan_atLeast0)
qed

lemma LookupReverse_full:
  assumes wf: "nat_wf t" and full: "\<And>c. c < unat (nt_cap t) \<Longrightarrow> nt_rev t ! c \<noteq> 0" and hit: "rev_hit t bip bp sp pr now i"
    and only: "\<And>j. j < length (nt_slots t) \<Longrightarrow> rev_hit t bip bp sp pr now j \<Longrightarrow> j = i"
  shows "snd (LookupReverse I t bip bp sp pr now) = (if \<exists>c < unat (nt_cap t). ptr_slot t c = i then Some i else None)"
proof (cases "\<exists>c < unat (nt_cap t). ptr_slot t c = i")
  case True
  have "x < unat (nt_cap t)" if "x \<in> set (before (rev_ring I t (slot t i)) c)" for x c
    using that by (auto simp: rev_ring_def before_def dest!: set_takeWhileD)
  with True full have "indexed I t i" unfolding indexed_def by blast
  from LookupReverse_indexed [OF wf this hit only] True show ?thesis by simp
next
  case False
  have "snd (LookupReverse I t bip bp sp pr now) \<noteq> Some j" for j
  proof
    assume "snd (LookupReverse I t bip bp sp pr now) = Some j"
    then obtain t1 where run: "LookupReverse I t bip bp sp pr now = (t1, Some j)" by (metis prod.collapse)
    obtain c where c: "find (\<lambda>c. rev_hit t bip bp sp pr now (ptr_slot t c)) (takeWhile (\<lambda>c. nt_rev t ! c \<noteq> 0)
      (ring (unat (nt_cap t)) (unat (RevHash I bip bp sp pr) mod unat (nt_cap t)))) = Some c" "ptr_slot t c = j"
      using LookupReverse_spec(1) [OF wf run, symmetric] by (auto simp: map_option_eq_Some)
    then have "c < unat (nt_cap t)" using find_Some_before(2) [OF c(1)] by (auto dest!: set_takeWhileD)
    moreover have "j = i" using only LookupReverse_hit [OF wf run] by blast
    ultimately show False using False c(2) by blast
  qed
  then have "snd (LookupReverse I t bip bp sp pr now) = None" by (metis not_None_eq)
  with False show ?thesis by simp
qed

text \<open>
  C37. The reverse index can lose a flow. On a table whose reverse cells are all in use, each naming the slot the flow goes into or
  the slot of a valid flow, \<open>Insert\<close> reports success, and the forward lookup finds the flow for as long as it has not timed out; but the lookup
  by its reverse key, when no other valid flow has that key, finds it only if some cell left from an earlier use names its slot,
  and otherwise finds nothing.
\<close>

theorem reverse_index_loses_flow:
  assumes inv: "nat_inv I t" and ins: "Insert I t flow now = (t', ep, ei, Some i)" and nr: "\<not> reaped flow"
    and fresh: "\<And>j. j < length (nt_slots t) \<Longrightarrow> live (slot t j) \<Longrightarrow> fwd_key (slot t j) \<noteq> fwd_key flow"
    and full: "\<And>c. c < unat (nt_cap t) \<Longrightarrow> nt_rev t ! c \<noteq> 0
      \<and> (ptr_slot t c = i \<or> occupied (slot t (ptr_slot t c)) \<and> \<not> Expired t (slot t (ptr_slot t c)) now)"
    and time: "now' - now \<le> nt_timeout t"
    and only: "\<And>j. j < length (nt_slots t') \<Longrightarrow> j \<noteq> i \<Longrightarrow> occupied (slot t' j) \<Longrightarrow> \<not> Expired t' (slot t' j) now'
      \<Longrightarrow> \<not> rev_match (backend_ip flow) (backend_port flow) (snat_port flow) (proto (fwd_key flow)) (slot t' j)"
  shows "snd (LookupForward I t' (fwd_key flow) now') = Some i
    \<and> snd (LookupReverse I t' (backend_ip flow) (backend_port flow) (snat_port flow) (proto (fwd_key flow)) now') =
      (if \<exists>c < unat (nt_cap t). ptr_slot t c = i then Some i else None)"
proof -
  have wf: "nat_wf t" using inv by (rule nat_inv_wf)
  note pl = Insert_Some [OF wf ins]
  let ?f = "placed flow now"
  let ?u = "put t i ?f"
  have lv: "live ?f" using nr by (simp add: placed_def live_def)
  have wfu: "nat_wf ?u" by (rule put_wf [OF wf pl(1) lv])
  have "\<not> rev_free ?u now c" if "c < unat (nt_cap t)" for c
    using full [OF that] pl(1) nr by (cases "ptr_slot t c = i") (auto simp: rev_free_def ptr_slot_def placed_def Expired_def)
  then have t': "t' = ?u" unfolding pl(3) by (intro IndexReverse_full [OF wfu]) simp
  have inv': "nat_inv I t'" by (rule Insert_inv [OF inv ins nr fresh])
  have sl: "slot t' i = ?f" "i < length (nt_slots t')" and to: "nt_timeout t' = nt_timeout t" using pl(1) by (simp_all add: t')
  have valid: "occupied (slot t' i)" "\<not> Expired t' (slot t' i) now'" using time nr by (simp_all add: sl to placed_def Expired_def not_less)
  obtain t2 r where look: "LookupForward I t' (fwd_key flow) now' = (t2, r)" by fastforce
  have "r = Some i" using LookupForward_Some_iff [OF inv' look] valid sl by (simp add: placed_def)
  have hit: "rev_hit t' (backend_ip flow) (backend_port flow) (snat_port flow) (proto (fwd_key flow)) now' i"
    using valid by (simp add: rev_hit_def) (simp add: sl placed_def rev_match_def)
  have "j = i" if "j < length (nt_slots t')" "rev_hit t' (backend_ip flow) (backend_port flow) (snat_port flow) (proto (fwd_key flow)) now' j" for j
    using only [of j] that by (auto simp: rev_hit_def)
  moreover have "nt_rev t' ! c \<noteq> 0" if "c < unat (nt_cap t')" for c using full [of c] that by (simp add: t')
  ultimately have "snd (LookupReverse I t' (backend_ip flow) (backend_port flow) (snat_port flow) (proto (fwd_key flow)) now') =
      (if \<exists>c < unat (nt_cap t'). ptr_slot t' c = i then Some i else None)"
    by (intro LookupReverse_full [OF nat_inv_wf [OF inv'] _ hit])
  with \<open>r = Some i\<close> look show ?thesis by (simp add: t' ptr_slot_def)
qed

text \<open>A table of two slots: a flow is opened, closed and opened again, which leaves both reverse cells naming its slot.\<close>

definition ex_two_open :: NatTable where
  "ex_two_open = fst (Insert Generic (NatTable_new 2 1000) (ex_flow 40000 50000) 1)"

definition ex_two_closed :: NatTable where
  "ex_two_closed = fst (Close ex_two_open 1)"

definition ex_stale :: NatTable where
  "ex_stale = fst (Insert Generic ex_two_closed (ex_flow 40000 50000) 2)"

lemma Insert_fst_inv:
  assumes "nat_inv I t" and "\<not> reaped flow" and "\<forall>f \<in> set (nt_slots t). \<not> live f"
  shows "nat_inv I (fst (Insert I t flow now))"
proof -
  obtain t' ep ei r where ins: "Insert I t flow now = (t', ep, ei, r)" by (metis prod_cases4)
  have "nat_inv I t'" by (rule Insert_inv [OF assms(1) ins assms(2)]) (use assms(3) nth_mem in blast)
  with ins show ?thesis by simp
qed

lemma ex_stale_inv: "nat_inv Generic ex_stale"
proof -
  have n: "\<not> reaped (ex_flow c p)" for c p by (simp add: ex_flow_def NatFlow_default_def)
  have "nat_inv Generic (NatTable_new 2 1000)" by (rule NatTable_new_inv) simp_all
  then have "nat_inv Generic ex_two_open" unfolding ex_two_open_def
    by (rule Insert_fst_inv [OF _ n]) (simp add: NatTable_new_def NatFlow_default_def live_def)
  moreover have "1 < length (nt_slots ex_two_open)" by code_simp
  ultimately have "nat_inv Generic ex_two_closed" using Close_inv [of Generic ex_two_open 1]
    by (cases "Close ex_two_open 1") (simp add: ex_two_closed_def)
  moreover have "list_all (\<lambda>f. \<not> live f) (nt_slots ex_two_closed)" by code_simp
  ultimately show ?thesis unfolding ex_stale_def by (intro Insert_fst_inv n) (auto simp: list_all_iff)
qed

lemma ex_stale_eq:
  "nt_cap ex_stale = 2" "length (nt_slots ex_stale) = 2" "nt_timeout ex_stale = 1000" "nt_rev ex_stale = [2, 2]"
  "map live (nt_slots ex_stale) = [False, True]" "map (src_port \<circ> fwd_key) (nt_slots ex_stale) = [0, 40000]"
  "occupied (slot ex_stale 1)" "\<not> Expired ex_stale (slot ex_stale 1) 3" "snat_port (slot ex_stale 1) = 50000"
  "snd (snd (snd (Insert Generic ex_stale (ex_flow 40001 50001) 3))) = Some 0"
  by code_simp+

theorem reverse_index_loses_flow_witness:
  "\<exists>t' ep ei. Insert Generic ex_stale (ex_flow 40001 50001) 3 = (t', ep, ei, Some 0)
     \<and> snd (LookupForward Generic t' (mk_key 0xC0A80005 0x0A000001 40001 80 6) 1003) = Some 0
     \<and> snd (LookupReverse Generic t' 0x0A000101 8080 50001 6 1003) = None"
proof -
  let ?f = "ex_flow 40001 50001"
  obtain t' ep ei where ins: "Insert Generic ex_stale ?f 3 = (t', ep, ei, Some 0)" using ex_stale_eq(10) by (metis prod.collapse)
  note pl = Insert_Some [OF nat_inv_wf [OF ex_stale_inv] ins]
  have two: "i < 2 \<Longrightarrow> i = 0 \<or> i = 1" for i :: nat by auto
  have p: "ptr_slot ex_stale c = 1" if "c < 2" for c using two [OF that] by (auto simp: ptr_slot_def ex_stale_eq(4))
  have "snd (LookupForward Generic t' (fwd_key ?f) 1003) = Some 0
    \<and> snd (LookupReverse Generic t' (backend_ip ?f) (backend_port ?f) (snat_port ?f) (proto (fwd_key ?f)) 1003) =
      (if \<exists>c < unat (nt_cap ex_stale). ptr_slot ex_stale c = 0 then Some 0 else None)"
  proof (rule reverse_index_loses_flow [OF ex_stale_inv ins])
    show "\<not> reaped ?f" by (simp add: ex_flow_def NatFlow_default_def)
    show "fwd_key (slot ex_stale j) \<noteq> fwd_key ?f" if "j < length (nt_slots ex_stale)" for j
    proof -
      have "src_port (fwd_key (slot ex_stale j)) = [0, 40000] ! j" using that ex_stale_eq(6) by (metis comp_apply nth_map)
      with that two [of j] show ?thesis by (auto simp: ex_stale_eq(2) ex_flow_def mk_key_def)
    qed
    show "nt_rev ex_stale ! c \<noteq> 0 \<and> (ptr_slot ex_stale c = 0 \<or> occupied (slot ex_stale (ptr_slot ex_stale c)) \<and> \<not> Expired ex_stale (slot ex_stale (ptr_slot ex_stale c)) 3)"
      if "c < unat (nt_cap ex_stale)" for c
      using that two [of c] p [of c] ex_stale_eq(7,8) by (auto simp: ex_stale_eq(1,4))
    show "1003 - 3 \<le> nt_timeout ex_stale" by (simp add: ex_stale_eq(3))
    show "\<not> rev_match (backend_ip ?f) (backend_port ?f) (snat_port ?f) (proto (fwd_key ?f)) (slot t' j)" if "j < length (nt_slots t')" "j \<noteq> 0" for j
    proof -
      have "j = 1" using that two [of j] by (simp add: pl(3) ex_stale_eq(2))
      then have "snat_port (slot t' j) = 50000" using ex_stale_eq(9) by (simp add: pl(3))
      then show ?thesis by (simp add: rev_match_def ex_flow_def)
    qed
  qed
  moreover have "\<not> (\<exists>c < unat (nt_cap ex_stale). ptr_slot ex_stale c = 0)" using p by (auto simp: ex_stale_eq(1))
  ultimately show ?thesis using ins by (simp add: ex_flow_def)
qed

section \<open>The interface of the table\<close>

text \<open>
  A run of lookups is a list of keys with their times. \<open>alive to k seen es\<close>: at every
  lookup of the run, at most the timeout has passed since key \<open>k\<close> was last looked up
  (\<open>seen\<close> at the start).
\<close>

primrec alive :: "u32 \<Rightarrow> 'k \<Rightarrow> u32 \<Rightarrow> ('k \<times> u32) list \<Rightarrow> bool" where
  "alive to k seen [] = True"
| "alive to k seen (e # es) =
     (snd e - seen \<le> to \<and> alive to k (if fst e = k then snd e else seen) es)"

primrec seen_after :: "'k \<Rightarrow> u32 \<Rightarrow> ('k \<times> u32) list \<Rightarrow> u32" where
  "seen_after k seen [] = seen"
| "seen_after k seen (e # es) = seen_after k (if fst e = k then snd e else seen) es"

text \<open>
  What a client of the table relies on when it looks flows up: the answer is the map's entry,
  a hit renews the entry, other entries stay, and renewing changes no flow's identity.
\<close>

locale conntrack =
  fixes inv :: "'t \<Rightarrow> bool"
    and timeout :: "'t \<Rightarrow> u32"
    and look :: "'t \<Rightarrow> 'k \<Rightarrow> u32 \<Rightarrow> 't \<times> 'f option"
    and view :: "'t \<Rightarrow> u32 \<Rightarrow> 'k \<Rightarrow> 'f option"
    and stamp :: "u32 \<Rightarrow> 'f \<Rightarrow> 'f"
    and ident :: "'f \<Rightarrow> 'd"
  assumes look_view: "inv t \<Longrightarrow> snd (look t k n) = view t n k"
    and look_inv: "inv t \<Longrightarrow> inv (fst (look t k n))"
    and look_timeout: "inv t \<Longrightarrow> timeout (fst (look t k n)) = timeout t"
    and look_hit: "inv t \<Longrightarrow> view t n k = Some f \<Longrightarrow> n' - n \<le> timeout t \<Longrightarrow>
      view (fst (look t k n)) n' k = Some (stamp n f)"
    and look_other: "inv t \<Longrightarrow> k2 \<noteq> k \<Longrightarrow> view t n k = Some f \<Longrightarrow>
      view (fst (look t k2 n)) n' k = view t n' k"
    and ident_stamp: "ident (stamp n f) = ident f"
begin

definition held :: "'t \<Rightarrow> 'k \<Rightarrow> 'f \<Rightarrow> u32 \<Rightarrow> bool" where
  "held t k f seen \<longleftrightarrow> (\<forall>n. n - seen \<le> timeout t \<longrightarrow> view t n k = Some f)"

primrec run :: "'t \<Rightarrow> ('k \<times> u32) list \<Rightarrow> 't" where
  "run t [] = t"
| "run t (e # es) = run (fst (look t (fst e) (snd e))) es"

lemma run_keeps:
  assumes "inv t" and "held t k f seen" and "alive (timeout t) k seen es"
  shows "inv (run t es) \<and> timeout (run t es) = timeout t
    \<and> (\<exists>f'. ident f' = ident f \<and> held (run t es) k f' (seen_after k seen es))"
  using assms
proof (induction es arbitrary: t f seen)
  case Nil
  then show ?case by auto
next
  case (Cons e es)
  obtain k2 n where e: "e = (k2, n)" by fastforce
  let ?t = "fst (look t k2 n)"
  have v: "view t n k = Some f" using Cons.prems(2,3) e by (simp add: held_def)
  have to: "timeout ?t = timeout t" and iv: "inv ?t"
    using Cons.prems(1) by (auto intro: look_timeout look_inv)
  have held: "held ?t k (if k2 = k then stamp n f else f) (if k2 = k then n else seen)"
    using Cons.prems(1,2) look_hit [OF Cons.prems(1) v] look_other [OF Cons.prems(1) _ v, of k2]
    by (auto simp: held_def to)
  from Cons.IH [OF iv held] Cons.prems(3) show ?case
    unfolding e to by (auto simp: ident_stamp split: if_splits)
qed

end

lemma conn_look_other:
  assumes inv: "nat_inv I t" and ne: "k2 \<noteq> k" and f: "conn t n k = Some f"
    and run: "LookupForward I t k2 n = (t', r)"
  shows "conn t' n' k = conn t n' k"
proof (rule conn_eqI)
  have wf: "nat_wf t" using inv by (rule nat_inv_wf)
  note sp = LookupForward_spec [OF wf run]
  have to: "nt_timeout t' = nt_timeout t" and len: "length (nt_slots t') = length (nt_slots t)"
    using sp(3) by (auto simp: quiet_def)
  show "nat_inv I t'" by (rule LookupForward_inv [OF inv run])
  show "nat_inv I t" by (rule inv)
  obtain i where i: "i < length (nt_slots t)" "slot t i = f" "occupied f" "\<not> Expired t f n" "fwd_key f = k"
    using f conn_Some_iff [OF inv] by blast
  fix g
  have "slot t' j = g \<and> occupied g \<and> \<not> Expired t' g n' \<and> fwd_key g = k \<longleftrightarrow>
      slot t j = g \<and> occupied g \<and> \<not> Expired t g n' \<and> fwd_key g = k" if j: "j < length (nt_slots t)" for j
  proof (cases "slot t' j = slot t j")
    case True
    then show ?thesis by (simp add: Expired_cong [OF to])
  next
    case False
    have "\<not> live (slot t j)" if "fwd_key (slot t j) = k"
    proof
      assume "live (slot t j)"
      then have "j = i"
        using inv i j that unfolding nat_inv_def uniq_ok_def live_def Expired_def by metis
      moreover have "r \<noteq> Some i"
        using LookupForward_Some_iff [OF inv run] i ne by auto
      ultimately show False using sp(5) [of i] i False by (auto simp: spared_def)
    qed
    moreover have "\<not> live (slot t' j)" if "fwd_key (slot t' j) = k"
      using calculation that quiet_fields [OF sp(3) j] sp(3) j by (auto simp: live_def quiet_def)
    ultimately show ?thesis by (auto simp: live_def Expired_def)
  qed
  then show "(\<exists>j < length (nt_slots t'). slot t' j = g \<and> occupied g \<and> \<not> Expired t' g n' \<and> fwd_key g = k)
    \<longleftrightarrow> (\<exists>j < length (nt_slots t). slot t j = g \<and> occupied g \<and> \<not> Expired t g n' \<and> fwd_key g = k)"
    by (auto simp: len)
qed

lemma conn_look_hit:
  assumes inv: "nat_inv I t" and f: "conn t n k = Some f"
    and run: "LookupForward I t k n = (t', r)" and time: "n' - n \<le> nt_timeout t"
  shows "conn t' n' k = Some (f\<lparr>last_seen_ms := n\<rparr>)"
proof -
  note sp = LookupForward_spec [OF nat_inv_wf [OF inv] run]
  obtain i where i: "i < length (nt_slots t)" "slot t i = f" "occupied f" "\<not> Expired t f n" "fwd_key f = k"
    using f conn_Some_iff [OF inv] by blast
  then have "r = Some i" using LookupForward_Some_iff [OF inv run] by auto
  with sp(4) [of i] sp(3) i time show ?thesis
    unfolding conn_Some_iff [OF LookupForward_inv [OF inv run]]
    by (intro exI [of _ i]) (auto simp: quiet_def Expired_def)
qed

definition LookupForward_flow :: "isa \<Rightarrow> NatTable \<Rightarrow> FlowKey \<Rightarrow> u32 \<Rightarrow> NatTable \<times> NatFlow option" where
  "LookupForward_flow I t key now = map_prod id (map_option (slot t)) (LookupForward I t key now)"

interpretation ct: conntrack "nat_inv I" nt_timeout "LookupForward_flow I" conn
  "\<lambda>n f. f\<lparr>last_seen_ms := n\<rparr>" core for I
proof (unfold_locales, goal_cases)
  case (1 t k n)
  then show ?case
    using LookupForward_conn [of I t k n] by (cases "LookupForward I t k n") (simp add: LookupForward_flow_def)
next
  case (2 t k n)
  then show ?case
    using LookupForward_inv [of I t k n] by (cases "LookupForward I t k n") (simp add: LookupForward_flow_def)
next
  case (3 t k n)
  then show ?case
    using LookupForward_spec(3) [OF nat_inv_wf, of I t I k n]
    by (cases "LookupForward I t k n") (simp add: LookupForward_flow_def quiet_def)
next
  case (4 t n k f n')
  then show ?case
    using conn_look_hit [of I t n k f] by (cases "LookupForward I t k n") (simp add: LookupForward_flow_def)
next
  case (5 t k2 k n f n')
  then show ?case
    using conn_look_other [of I t k2 k n f] by (cases "LookupForward I t k2 n") (simp add: LookupForward_flow_def)
next
  case (6 n f)
  then show ?case by simp
qed

end
