(* ===== verification/Port_Pool.thy ===== *)
theory Port_Pool
  imports Cere_Prelude
begin

text \<open>
  \<open>dataplane/include/lb/port_pool.hpp\<close>: a stack of free SNAT ports, filled once and then
  used by \<open>Acquire\<close> and \<open>Release\<close>. The filling loop counts a \<open>uint32_t\<close> down while
  it is at least \<open>low\<close>; for \<open>low = 0\<close> the counter wraps and the loop never ends, so it
  is a \<^theory_text>\<open>partial_function\<close> whose \<open>None\<close> is "does not return".
  A constructor returns \<open>None\<close> when it runs forever and \<open>Some (Inl e)\<close> when its
  \<open>reserve\<close> asks for more than a vector can hold (\<open>high < low\<close>).
\<close>

record PortPool =
  free_ports :: "u16 list"

definition kEphemeralLow :: u16 where "kEphemeralLow = 1024"
definition kEphemeralHigh :: u16 where "kEphemeralHigh = 65535"

partial_function (option) fill_loop :: "(u32 \<Rightarrow> bool) \<Rightarrow> u32 \<Rightarrow> u16 \<Rightarrow> u16 list \<Rightarrow> u16 list option" where
  "fill_loop keep port low acc =
     (if port \<ge> ucast low
      then fill_loop keep (port - 1) low (if keep port then acc @ [ucast port] else acc)
      else Some acc)"

text \<open>
  \<open>static_cast<size_t>(high - low)\<close>: the subtraction is done in \<open>int\<close>, then converted
  to 64 bits. A \<open>vector<uint16_t>\<close> holds at most \<open>2 ^ 62 - 1\<close> elements.
\<close>

definition port_span :: "u16 \<Rightarrow> u16 \<Rightarrow> u64" where
  "port_span low high = word_of_int (uint high - uint low)"

definition reserve_fails :: "u64 \<Rightarrow> bool" where
  "reserve_fails n \<longleftrightarrow> unat n > 2 ^ 62 - 1"

definition PortPool_new :: "u16 \<Rightarrow> u16 \<Rightarrow> PortPool result option" where
  "PortPool_new low high =
     (if reserve_fails (port_span low high + 1) then Some (Inl BadAlloc)
      else map_option (\<lambda>fs. Inr \<lparr>free_ports = fs\<rparr>) (fill_loop (\<lambda>_. True) (ucast high) low []))"

definition ForWorker :: "u16 \<Rightarrow> u16 \<Rightarrow> u16 \<Rightarrow> u16 \<Rightarrow> PortPool result option" where
  "ForWorker worker_id n_workers low high =
     (if reserve_fails (port_span low high div ucast n_workers + 1) then Some (Inl BadAlloc)
      else map_option (\<lambda>fs. Inr \<lparr>free_ports = fs\<rparr>)
        (fill_loop (\<lambda>port. port mod ucast n_workers = ucast worker_id) (ucast high) low []))"

definition Acquire :: "PortPool \<Rightarrow> u16 \<times> PortPool" where
  "Acquire p = (if free_ports p = [] then (0, p)
                else (last (free_ports p), p\<lparr>free_ports := butlast (free_ports p)\<rparr>))"

definition Release :: "u16 \<Rightarrow> PortPool \<Rightarrow> PortPool" where
  "Release port p = p\<lparr>free_ports := free_ports p @ [port]\<rparr>"

definition Available :: "PortPool \<Rightarrow> nat" where
  "Available p = length (free_ports p)"

section \<open>The filling loop\<close>

lemma fill_loop_returns:
  assumes "0 < low" and "unat low \<le> Suc (unat port)"
  shows "fill_loop keep port low acc =
    Some (acc @ map of_nat (filter (\<lambda>n. keep (of_nat n)) (rev [unat low..<Suc (unat port)])))"
  using assms
proof (induction "unat port" arbitrary: port acc)
  case 0
  then have p: "port = 0" by (simp add: unat_eq_0)
  then have "\<not> ucast low \<le> port" using "0.prems"(1) by (simp add: word_le_nat_alt word_less_nat_alt)
  then have "fill_loop keep port low acc = Some acc" by (simp add: fill_loop.simps [of keep port])
  then show ?case using p "0.prems" by (simp add: word_less_nat_alt)
next
  case (Suc m)
  show ?case
  proof (cases "ucast low \<le> port")
    case False
    then have "Suc (unat port) \<le> unat low"
      by (simp add: word_le_nat_alt not_le)
    with False show ?thesis by (simp add: fill_loop.simps [of keep port])
  next
    case True
    have pos: "port \<noteq> 0" using Suc.hyps(2) by auto
    then have m: "unat (port - 1) = m" using Suc.hyps(2) by (simp add: unat_minus_one)
    have le: "unat low \<le> Suc m" and le': "unat low \<le> unat port"
      using True Suc.hyps(2) by (simp_all add: word_le_nat_alt)
    have "fill_loop keep port low acc =
        fill_loop keep (port - 1) low (if keep port then acc @ [ucast port] else acc)"
      using True by (simp add: fill_loop.simps [of keep port])
    also have "\<dots> = Some ((if keep port then acc @ [ucast port] else acc) @
        map of_nat (filter (\<lambda>n. keep (of_nat n)) (rev [unat low..<Suc m])))"
      using Suc.hyps(1) [of "port - 1"] m Suc.prems(1) le by simp
    finally have run: "fill_loop keep port low acc =
        Some ((if keep port then acc @ [ucast port] else acc) @
        map of_nat (filter (\<lambda>n. keep (of_nat n)) (rev [unat low..<Suc m])))" .
    have "[unat low..<Suc (unat port)] = [unat low..<Suc m] @ [unat port]"
      using le' Suc.hyps(2) by (metis upt_Suc_append)
    then show ?thesis
      using run by simp
  qed
qed

text \<open>With \<open>low = 0\<close> the guard never fails.\<close>

lemma fill_loop_zero_no_return: "fill_loop keep port 0 acc \<noteq> Some fs"
proof
  assume "fill_loop keep port 0 acc = Some fs"
  moreover have "low = 0 \<longrightarrow> False" if "fill_loop keep port low acc = Some fs" for low
  proof (rule fill_loop.raw_induct [where P = "\<lambda>keep port low acc fs. low = 0 \<longrightarrow> False", OF _ that])
    fix f keep port low acc fs
    assume IH: "\<And>keep port low acc fs. f keep port low acc = Some fs \<Longrightarrow> low = 0 \<longrightarrow> False"
      and eq: "(if ucast low \<le> port
        then f keep (port - 1) low (if keep port then acc @ [ucast port] else acc)
        else Some acc) = Some fs"
    show "low = 0 \<longrightarrow> False" using IH eq by (auto split: if_splits)
  qed
  ultimately show False by blast
qed

section \<open>What a fresh pool holds\<close>

definition worker_ports :: "nat \<Rightarrow> nat \<Rightarrow> nat \<Rightarrow> nat \<Rightarrow> u16 list" where
  "worker_ports w n lo hi = map of_nat (filter (\<lambda>p. p mod n = w) (rev [lo..<Suc hi]))"

lemma port_span_unat: "low \<le> high \<Longrightarrow> unat (port_span low high) = unat high - unat low"
proof -
  assume le: "low \<le> high"
  have "port_span low high = ucast high - ucast low"
    by (simp add: port_span_def)
  moreover have "(ucast low :: u64) \<le> ucast high"
    using le by (simp add: word_le_nat_alt)
  ultimately show ?thesis by (simp add: unat_sub)
qed

lemma reserve_ok:
  assumes "low \<le> high"
  shows "\<not> reserve_fails (port_span low high div d + 1)"
proof -
  have "unat (port_span low high div d) \<le> unat (port_span low high)"
    by (simp add: unat_div div_le_dividend)
  then have le: "unat (port_span low high div d) < 65536"
    using port_span_unat [OF assms] unat16_less [of high] by linarith
  then have "unat (port_span low high div d + 1) = unat (port_span low high div d) + 1"
    by (simp add: unat_word_ariths)
  with le show ?thesis by (simp add: reserve_fails_def)
qed

lemma ForWorker_free:
  assumes "0 < low" and "low \<le> high"
  shows "ForWorker w n low high =
    Some (Inr \<lparr>free_ports = worker_ports (unat w) (unat n) (unat low) (unat high)\<rparr>)"
proof -
  have keep: "((of_nat p :: u32) mod ucast n = ucast w) = (p mod unat n = unat w)"
    if "p < 65536" for p
    using that by (simp add: word_unat_eq_iff unat_mod unsigned_of_nat take_bit_nat_eq_self)
  have "filter (\<lambda>p. (of_nat p :: u32) mod ucast n = ucast w) (rev [unat low..<Suc (unat high)])
      = filter (\<lambda>p. p mod unat n = unat w) (rev [unat low..<Suc (unat high)])"
    using unat16_less [of high] by (intro filter_cong refl keep) auto
  moreover have "unat low \<le> Suc (unat (ucast high :: u32))"
    using assms(2) by (simp add: word_le_nat_alt)
  ultimately show ?thesis
    using reserve_ok [OF assms(2)] fill_loop_returns [OF assms(1), of "ucast high"]
    by (simp add: ForWorker_def worker_ports_def del: upt_Suc)
qed

lemma of_nat_u16_inj: "a < 65536 \<Longrightarrow> b < 65536 \<Longrightarrow> (of_nat a :: u16) = of_nat b \<Longrightarrow> a = b"
  by (simp add: word_unat_eq_iff unsigned_of_nat take_bit_nat_eq_self)

lemma distinct_worker_ports:
  assumes "hi < 65536"
  shows "distinct (worker_ports w n lo hi)"
  using assms unfolding worker_ports_def
  by (auto simp: distinct_map inj_on_def simp del: upt_Suc intro: of_nat_u16_inj)

lemma set_worker_ports:
  assumes "hi < 65536"
  shows "set (worker_ports w n lo hi) = {p. lo \<le> unat p \<and> unat p \<le> hi \<and> unat p mod n = w}"
proof (intro set_eqI iffI)
  fix p :: u16
  assume "p \<in> set (worker_ports w n lo hi)"
  then obtain k where "p = of_nat k" "lo \<le> k" "k \<le> hi" "k mod n = w"
    by (auto simp: worker_ports_def simp del: upt_Suc)
  with assms show "p \<in> {p. lo \<le> unat p \<and> unat p \<le> hi \<and> unat p mod n = w}"
    by (simp add: unsigned_of_nat take_bit_nat_eq_self)
next
  fix p :: u16
  assume "p \<in> {p. lo \<le> unat p \<and> unat p \<le> hi \<and> unat p mod n = w}"
  then have "unat p \<in> set (filter (\<lambda>p. p mod n = w) (rev [lo..<Suc hi]))"
    by (auto simp del: upt_Suc)
  then have "of_nat (unat p) \<in> set (worker_ports w n lo hi)"
    unfolding worker_ports_def set_map by (rule imageI)
  then show "p \<in> set (worker_ports w n lo hi)" by simp
qed

text \<open>
  The ports \<open>ForWorker\<close> gives a worker, for a range that starts above zero: the call
  returns, every port of the range whose residue modulo the number of workers is the worker's
  id is there exactly once, and nothing else is. Two workers therefore share no port and
  together hold the range.
\<close>

theorem ForWorker_partition:
  assumes "0 < low" and "low \<le> high" and "0 < n"
  shows "\<exists>p. ForWorker w n low high = Some (Inr p) \<and> distinct (free_ports p)
    \<and> set (free_ports p) = {port. low \<le> port \<and> port \<le> high \<and> unat port mod unat n = unat w}"
  using assms unat16_less [of high]
  by (auto simp: ForWorker_free distinct_worker_ports set_worker_ports word_le_nat_alt)

theorem ForWorker_partition_witness:
  "\<exists>p. ForWorker 1 4 1024 2047 = Some (Inr p) \<and> distinct (free_ports p)
    \<and> set (free_ports p) = {port. 1024 \<le> port \<and> port \<le> 2047 \<and> unat port mod unat (4 :: u16) = unat (1 :: u16)}"
  by (rule ForWorker_partition) simp_all

text \<open>
  A pool whose range starts at port 0 is never built: the \<open>uint32_t\<close> counter wraps
  below zero and the filling loop does not return, whatever the upper end and the worker.
\<close>

lemma pool_from_zero_diverges:
  "PortPool_new 0 high = None \<and> ForWorker w n 0 high = None"
proof -
  have "fill_loop keep port 0 [] = None" for keep port
    using fill_loop_zero_no_return [of keep port "[]"] by (cases "fill_loop keep port 0 []") auto
  moreover have "\<not> reserve_fails (port_span 0 high div ucast n + 1)"
    by (rule reserve_ok) simp
  moreover have "\<not> reserve_fails (port_span 0 high + 1)"
    using reserve_ok [of 0 high 1] by simp
  ultimately show ?thesis by (simp add: PortPool_new_def ForWorker_def)
qed

section \<open>The allocator interface\<close>

text \<open>
  What the load balancer relies on: a bag of ports from which \<open>acquire\<close> takes one and to
  which \<open>release\<close> gives one back; 0 is the answer of an empty allocator.
\<close>

locale port_allocator =
  fixes acquire :: "'p \<Rightarrow> u16 \<times> 'p"
    and release :: "u16 \<Rightarrow> 'p \<Rightarrow> 'p"
    and ports :: "'p \<Rightarrow> u16 multiset"
  assumes acquire_empty: "ports p = {#} \<Longrightarrow> acquire p = (0, p)"
    and acquire_takes: "ports p \<noteq> {#} \<Longrightarrow> ports p = add_mset (fst (acquire p)) (ports (snd (acquire p)))"
    and release_gives: "ports (release x p) = add_mset x (ports p)"
begin

lemma acquire_zero_iff:
  assumes "0 \<notin># ports p"
  shows "fst (acquire p) = 0 \<longleftrightarrow> ports p = {#}"
  using assms acquire_empty [of p] acquire_takes [of p] by (metis fst_conv union_single_eq_member)

lemma acquire_fail:
  assumes "0 \<notin># ports p" and "fst (acquire p) = 0"
  shows "ports p = {#}" and "snd (acquire p) = p"
  using assms acquire_zero_iff [of p] acquire_empty [of p] by auto

lemma acquire_ok:
  assumes "fst (acquire p) \<noteq> 0"
  shows "ports p = add_mset (fst (acquire p)) (ports (snd (acquire p)))"
  using assms acquire_empty [of p] acquire_takes [of p] by fastforce

lemma acquire_then_release:
  assumes "fst (acquire p) \<noteq> 0"
  shows "ports (release (fst (acquire p)) (snd (acquire p))) = ports p"
  using acquire_ok [OF assms] by (simp add: release_gives)

primrec acquire_many :: "nat \<Rightarrow> 'p \<Rightarrow> u16 list \<times> 'p" where
  "acquire_many 0 p = ([], p)"
| "acquire_many (Suc n) p =
     (let (x, q) = acquire p; (xs, r) = acquire_many n q in (x # xs, r))"

lemma length_acquire_many: "length (fst (acquire_many n p)) = n"
  by (induction n arbitrary: p) (simp_all add: split_beta)

lemma acquire_many_conserve:
  "n \<le> size (ports p) \<Longrightarrow>
     ports p = mset (fst (acquire_many n p)) + ports (snd (acquire_many n p))"
proof (induction n arbitrary: p)
  case 0
  then show ?case by simp
next
  case (Suc n)
  then have "ports p \<noteq> {#}" by auto
  then have t: "ports p = add_mset (fst (acquire p)) (ports (snd (acquire p)))"
    by (rule acquire_takes)
  with Suc.prems have "n \<le> size (ports (snd (acquire p)))" by (metis Suc_le_mono size_add_mset)
  from Suc.IH [OF this] t show ?case by (simp add: split_beta)
qed

end

lemma mset_last_butlast: "xs \<noteq> [] \<Longrightarrow> mset xs = add_mset (last xs) (mset (butlast xs))"
proof -
  assume "xs \<noteq> []"
  then have "mset xs = mset (butlast xs @ [last xs])" by (metis append_butlast_last_id)
  then show ?thesis by simp
qed

interpretation pp: port_allocator Acquire Release "\<lambda>p. mset (free_ports p)"
  by unfold_locales (auto simp: Acquire_def Release_def mset_last_butlast)

text \<open>
  Taking all the ports of a pool one after the other gives every port exactly once and
  empties it; the next request answers 0 and changes nothing.
\<close>

lemma Acquire_drains:
  "\<exists>xs q. pp.acquire_many (Available p) p = (xs, q) \<and> mset xs = mset (free_ports p)
     \<and> free_ports q = [] \<and> Acquire q = (0, q)"
proof -
  obtain xs q where run: "pp.acquire_many (Available p) p = (xs, q)" by fastforce
  have c: "mset (free_ports p) = mset xs + mset (free_ports q)"
    using pp.acquire_many_conserve [of "Available p" p] run by (simp add: Available_def)
  have "length xs = Available p"
    using pp.length_acquire_many [of "Available p" p] run by simp
  with c have "size (mset (free_ports q)) = 0"
    by (metis Available_def add_cancel_left_right size_mset size_union)
  then have e: "free_ports q = []" by simp
  with c run show ?thesis by (auto simp: Acquire_def)
qed

end
