(* ===== verification/Backend_Pool.thy ===== *)
theory Backend_Pool
  imports Net_Types Flow_Key
begin

text \<open>
  \<open>dataplane/include/lb/backend_pool.hpp\<close> and \<open>atomic_rcu.hpp\<close>: the immutable backend
  set a worker reads, its slots in configuration order and the list of the enabled slots.
  The constructors count the slots with a \<open>uint8_t\<close>: with 256 slots or more the counter
  wraps and the loop never ends, so the loop is a \<^theory_text>\<open>partial_function\<close>.
  \<open>AtomicRcu\<close> is a cell that holds the current pool or nothing.
\<close>

record BackendPool =
  bp_slots :: "BackendInfo list"
  bp_active :: "u8 list"

partial_function (option) active_loop :: "nat \<Rightarrow> (nat \<Rightarrow> bool) \<Rightarrow> u8 \<Rightarrow> u8 list \<Rightarrow> u8 list option" where
  "active_loop n keep i acc =
     (if unat i < n then active_loop n keep (i + 1) (if keep (unat i) then acc @ [i] else acc)
      else Some acc)"

definition BackendPool_all :: "BackendInfo list \<Rightarrow> BackendPool option" where
  "BackendPool_all slots =
     map_option (\<lambda>act. \<lparr>bp_slots = slots, bp_active = act\<rparr>)
       (active_loop (length slots) (\<lambda>_. True) 0 [])"

definition BackendPool_enabled :: "BackendInfo list \<Rightarrow> u8 list \<Rightarrow> BackendPool result option" where
  "BackendPool_enabled slots enabled =
     (if length enabled \<noteq> length slots then Some (Inl AssertFail)
      else map_option (\<lambda>act. Inr \<lparr>bp_slots = slots, bp_active = act\<rparr>)
        (active_loop (length slots) (\<lambda>i. enabled ! i \<noteq> 0) 0 []))"

definition Select :: "isa \<Rightarrow> BackendPool \<Rightarrow> FlowKey \<Rightarrow> u8 result" where
  "Select I pool key =
     (if bp_active pool = [] then Inl AssertFail
      else Inr (bp_active pool ! (unat (Hash I key) mod length (bp_active pool))))"

definition At :: "BackendPool \<Rightarrow> u8 \<Rightarrow> BackendInfo result" where
  "At pool idx = (if unat idx < length (bp_slots pool) then Inr (bp_slots pool ! unat idx)
                  else Inl AssertFail)"

definition ActiveCount :: "BackendPool \<Rightarrow> u16" where
  "ActiveCount pool = of_nat (length (bp_active pool))"

record 'a AtomicRcu =
  rcu_ptr :: "'a option"

definition Rcu_Load :: "'a AtomicRcu \<Rightarrow> 'a option" where
  "Rcu_Load r = rcu_ptr r"

definition Rcu_Store :: "'a \<Rightarrow> 'a AtomicRcu \<Rightarrow> 'a AtomicRcu" where
  "Rcu_Store p r = r\<lparr>rcu_ptr := Some p\<rparr>"

section \<open>The constructors\<close>

lemma active_loop_returns:
  assumes "n < 256" and "unat i \<le> n"
  shows "active_loop n keep i acc = Some (acc @ map of_nat (filter keep [unat i..<n]))"
  using assms
proof (induction "n - unat i" arbitrary: i acc)
  case 0
  then have "\<not> unat i < n" by simp
  with "0.prems" show ?case by (simp add: active_loop.simps [of _ keep i])
next
  case (Suc m)
  then have lt: "unat i < n" by simp
  then have i1: "unat (i + 1) = Suc (unat i)"
    using Suc.prems(1) by (simp add: unat_word_ariths)
  have "active_loop n keep i acc =
      active_loop n keep (i + 1) (if keep (unat i) then acc @ [i] else acc)"
    using lt by (simp add: active_loop.simps [of n keep i])
  also have "\<dots> = Some ((if keep (unat i) then acc @ [i] else acc)
      @ map of_nat (filter keep [Suc (unat i)..<n]))"
    using Suc.hyps(1) [of "i + 1"] Suc.hyps(2) Suc.prems(1) i1 lt by simp
  also have "\<dots> = Some (acc @ map of_nat (filter keep (unat i # [Suc (unat i)..<n])))"
    by simp
  also have "unat i # [Suc (unat i)..<n] = [unat i..<n]"
    using lt by (simp add: upt_conv_Cons)
  finally show ?case .
qed

lemma active_loop_no_return:
  assumes "256 \<le> n"
  shows "active_loop n keep i acc = None"
proof -
  have "256 \<le> n \<longrightarrow> False" if "active_loop n keep i acc = Some r" for r
  proof (rule active_loop.raw_induct [where P = "\<lambda>n keep i acc r. 256 \<le> n \<longrightarrow> False", OF _ that])
    fix f n keep i acc r
    assume IH: "\<And>n keep i acc r. f n keep i acc = Some r \<Longrightarrow> 256 \<le> n \<longrightarrow> False"
      and eq: "(if unat (i :: u8) < n
        then f n keep (i + 1) (if keep (unat i) then acc @ [i] else acc) else Some acc) = Some r"
    show "256 \<le> n \<longrightarrow> False"
      using IH eq unat8_less [of i] by (auto split: if_splits)
  qed
  with assms show ?thesis by (cases "active_loop n keep i acc") auto
qed

definition enabled_idx :: "u8 list \<Rightarrow> nat list" where
  "enabled_idx enabled = filter (\<lambda>i. enabled ! i \<noteq> 0) [0..<length enabled]"

lemma BackendPool_enabled_eq:
  assumes "length enabled = length slots" and "length slots < 256"
  shows "BackendPool_enabled slots enabled =
    Some (Inr \<lparr>bp_slots = slots, bp_active = map of_nat (enabled_idx enabled)\<rparr>)"
  using assms by (simp add: BackendPool_enabled_def active_loop_returns enabled_idx_def)

text \<open>
  C40. The two constructors on \<open>n\<close> slots: below 256 slots both return, the first with every
  slot active and the second with exactly the enabled slots, in order; from 256 slots on
  neither returns, because the \<open>uint8_t\<close> counter never reaches the size.
\<close>

theorem BackendPool_ctor:
  "BackendPool_all slots =
     (if length slots < 256
      then Some \<lparr>bp_slots = slots, bp_active = map of_nat [0..<length slots]\<rparr> else None)
   \<and> BackendPool_enabled slots enabled =
     (if length enabled \<noteq> length slots then Some (Inl AssertFail)
      else if length slots < 256
      then Some (Inr \<lparr>bp_slots = slots,
             bp_active = map of_nat (filter (\<lambda>i. enabled ! i \<noteq> 0) [0..<length slots])\<rparr>)
      else None)"
  by (auto simp: BackendPool_all_def BackendPool_enabled_def active_loop_returns
      active_loop_no_return)

section \<open>Choosing a backend\<close>

text \<open>Every active index is a slot: the invariant of a constructed pool.\<close>

definition pool_ok :: "BackendPool \<Rightarrow> bool" where
  "pool_ok p \<longleftrightarrow> length (bp_slots p) < 256 \<and> (\<forall>i \<in> set (bp_active p). unat i < length (bp_slots p))"

lemma BackendPool_enabled_ok:
  assumes "BackendPool_enabled slots enabled = Some (Inr p)"
  shows "pool_ok p"
proof -
  have "length slots < 256" "length enabled = length slots"
    using assms by (auto simp: BackendPool_enabled_def active_loop_no_return split: if_splits
        intro: ccontr)
  with assms show ?thesis
    by (auto simp: BackendPool_enabled_eq pool_ok_def enabled_idx_def unsigned_of_nat
        take_bit_nat_eq_self)
qed

lemma Select_active:
  assumes "Select I p key = Inr b"
  shows "b \<in> set (bp_active p)"
  using assms by (auto simp: Select_def split: if_splits)

lemma Select_At:
  assumes "pool_ok p" and "bp_active p \<noteq> []"
  obtains b info where "Select I p key = Inr b" "b \<in> set (bp_active p)" "At p b = Inr info"
    "info = bp_slots p ! unat b" "unat b < length (bp_slots p)"
proof -
  let ?b = "bp_active p ! (unat (Hash I key) mod length (bp_active p))"
  have b: "?b \<in> set (bp_active p)" using assms(2) by simp
  then have "unat ?b < length (bp_slots p)" using assms(1) by (simp add: pool_ok_def)
  with assms(2) b that [of ?b] show ?thesis by (simp add: Select_def At_def)
qed

lemma ActiveCount_zero: "pool_ok p \<Longrightarrow> distinct (bp_active p) \<Longrightarrow> ActiveCount p = 0 \<longleftrightarrow> bp_active p = []"
proof -
  assume ok: "pool_ok p" and d: "distinct (bp_active p)"
  have "card (set (bp_active p)) \<le> card (UNIV :: u8 set)"
    by (rule card_mono) simp_all
  then have "length (bp_active p) \<le> 256"
    using d by (simp add: distinct_card card_word)
  then show ?thesis
    by (simp add: ActiveCount_def word_unat_eq_iff unsigned_of_nat take_bit_nat_eq_self)
qed

end
