(* ===== verification/Ipc_Types.thy ===== *)
theory Ipc_Types
  imports Net_Types
begin

text \<open>
  The shared-memory layouts of \<open>libs/ipc\<close>: the versioned header, the per-lcore counters the
  dataplane writes and the controlplane reads, and the backend set the controlplane publishes.
  The counters are 64-bit atomics with a single writer each; an increment wraps.
\<close>

definition kMaxLcores :: nat where "kMaxLcores = 32"
definition kMaxBackends :: nat where "kMaxBackends = 64"

record ShmHeader =
  hdr_magic :: u32
  hdr_version :: u32

definition kShmMagic :: u32 where "kShmMagic = 0x43455242"
definition kShmVersion :: u32 where "kShmVersion = 1"

definition InitShmHeader :: "ShmHeader \<Rightarrow> ShmHeader" where
  "InitShmHeader h = h\<lparr>hdr_magic := kShmMagic, hdr_version := kShmVersion\<rparr>"

definition CheckShmHeader :: "ShmHeader \<Rightarrow> bool" where
  "CheckShmHeader h \<longleftrightarrow> hdr_magic h = kShmMagic \<and> hdr_version h = kShmVersion"

record LcoreStats =
  rx_packets :: u64
  tx_packets :: u64
  dropped :: u64
  new_flows :: u64
  active_flows :: u64
  backend_flows :: "u64 list"

definition LcoreStats_zero :: LcoreStats where
  "LcoreStats_zero = \<lparr>rx_packets = 0, tx_packets = 0, dropped = 0, new_flows = 0,
     active_flows = 0, backend_flows = replicate kMaxBackends 0\<rparr>"

record StatsView =
  sv_header :: ShmHeader
  sv_lcores :: "LcoreStats list"

record ControlBackend =
  cb_ip :: u32
  cb_port :: u16
  cb_mac :: "u8 list"
  cb_enabled :: u8

record ControlView =
  cv_header :: ShmHeader
  cv_seq :: u32
  cv_count :: u32
  cv_backends :: "ControlBackend list"

lemma InitShmHeader_checks [simp]: "CheckShmHeader (InitShmHeader h)"
  by (simp add: CheckShmHeader_def InitShmHeader_def)

end
