(* ===== verification/Lb_Node.thy ===== *)
theory Lb_Node
  imports Nat_Spec Port_Pool Backend_Pool Ipc_Types
begin

text \<open>
  \<open>dataplane/include/nodes/lb_node.hpp\<close> and \<open>src/nodes/lb_node.cpp\<close>, with the packet
  metadata of \<open>graph/packet_meta.hpp\<close>: the load-balancing node. Its state is the connection
  table, one SNAT port pool per backend slot and the lcore's counters. The pool of backends it
  reads through \<open>AtomicRcu\<close> is an argument, as is the time. The table capacity, which the
  source fixes by the default template argument, is an argument of the constructor.
\<close>

datatype Direction = kForward | kReverse

record PacketMeta =
  meta_src_ip :: u32
  meta_dst_ip :: u32
  meta_src_port :: u16
  meta_dst_port :: u16
  meta_proto :: u8
  meta_dir :: Direction
  meta_backend_ip :: IPv4Addr
  meta_backend_mac :: MacAddr
  meta_backend_port :: u16
  meta_snat_port :: u16
  meta_client_ip :: IPv4Addr
  meta_client_mac :: MacAddr
  meta_client_port :: u16
  meta_tcp_flags :: u8

record LbNode =
  lb_nat :: NatTable
  lb_pools :: "PortPool list"
  lb_stats :: LcoreStats

definition LbNode_new :: "u32 \<Rightarrow> Config \<Rightarrow> LcoreStats \<Rightarrow> u16 \<Rightarrow> u16 \<Rightarrow> LbNode result option" where
  "LbNode_new cap cfg stats worker_id n_workers =
     map_option (map_sum id (\<lambda>p. \<lparr>lb_nat = NatTable_new cap (conntrack_timeout_ms cfg),
        lb_pools = replicate kMaxBackends p, lb_stats = stats\<rparr>))
       (ForWorker worker_id n_workers kEphemeralLow kEphemeralHigh)"

definition NowMs :: "u64 \<Rightarrow> u64 \<Rightarrow> u32" where
  "NowMs cycles hz = ucast (cycles div (hz div 1000))"

definition kProtoTcp :: u8 where "kProtoTcp = 6"
definition kTcpFin :: u8 where "kTcpFin = 0x01"
definition kTcpSyn :: u8 where "kTcpSyn = 0x02"
definition kTcpRst :: u8 where "kTcpRst = 0x04"
definition kFinForward :: u8 where "kFinForward = 0x1"
definition kFinReverse :: u8 where "kFinReverse = 0x2"

definition pool_release :: "u8 \<Rightarrow> u16 \<Rightarrow> LbNode \<Rightarrow> LbNode" where
  "pool_release idx port st =
     st\<lparr>lb_pools := (lb_pools st)[unat idx := Release port (lb_pools st ! unat idx)]\<rparr>"

definition MaybeTeardown :: "LbNode \<Rightarrow> nat \<Rightarrow> Direction \<Rightarrow> u8 \<Rightarrow> LbNode" where
  "MaybeTeardown st i dir tcp_flags =
     (let flow = slot (lb_nat st) i;
          fin = tcp_flags AND kTcpFin \<noteq> 0;
          flow' = (if fin then flow\<lparr>fin_seen := fin_seen flow OR (if dir = kForward then kFinForward else kFinReverse)\<rparr>
                   else flow);
          close = (tcp_flags AND kTcpRst \<noteq> 0 \<or> (fin \<and> fin_seen flow' = kFinForward OR kFinReverse));
          st1 = st\<lparr>lb_nat := set_slot (lb_nat st) i flow'\<rparr>
      in if \<not> close then st1
         else (let (t2, released_port, idx) = Close (lb_nat st1) i;
                   st2 = st1\<lparr>lb_nat := t2\<rparr>
               in if released_port \<noteq> 0 then pool_release idx released_port st2 else st2))"

definition count_flow :: "u8 \<Rightarrow> LcoreStats \<Rightarrow> LcoreStats" where
  "count_flow idx s = s\<lparr>new_flows := new_flows s + 1,
     backend_flows := (backend_flows s)[unat idx := backend_flows s ! unat idx + 1]\<rparr>"

definition new_flow :: "PacketMeta \<Rightarrow> FlowKey \<Rightarrow> BackendInfo \<Rightarrow> u16 \<Rightarrow> u8 \<Rightarrow> NatFlow" where
  "new_flow meta key backend sport idx = NatFlow_default\<lparr>fwd_key := key, client_mac := meta_client_mac meta,
     backend_ip := ip_value (bi_ip backend), backend_mac := bi_mac backend,
     backend_port := bi_port backend, snat_port := sport, backend_idx := idx\<rparr>"

definition CreateFlow :: "isa \<Rightarrow> LbNode \<Rightarrow> PacketMeta \<Rightarrow> FlowKey \<Rightarrow> BackendPool \<Rightarrow> u32
    \<Rightarrow> (LbNode \<times> nat option) result" where
  "CreateFlow I st meta key pool now_ms =
     bind_r (Select I pool key) (\<lambda>idx.
     bind_r (At pool idx) (\<lambda>backend.
       let (sport, pp) = Acquire (lb_pools st ! unat idx);
           st1 = st\<lparr>lb_pools := (lb_pools st)[unat idx := pp]\<rparr>
       in if sport = 0 then Inr (st1, None)
          else let (t', evicted_port, evicted_idx, inserted) =
                     Insert I (lb_nat st1) (new_flow meta key backend sport idx) now_ms;
                   st2 = st1\<lparr>lb_nat := t'\<rparr>;
                   st3 = (if evicted_port \<noteq> 0 then pool_release evicted_idx evicted_port st2 else st2)
               in case inserted of
                    None \<Rightarrow> Inr (pool_release idx sport st3, None)
                  | Some i \<Rightarrow> Inr (st3\<lparr>lb_stats := count_flow idx (lb_stats st3)\<rparr>, Some i)))"

definition meta_key :: "PacketMeta \<Rightarrow> FlowKey" where
  "meta_key meta = mk_key (meta_src_ip meta) (meta_dst_ip meta) (meta_src_port meta)
     (meta_dst_port meta) (meta_proto meta)"

definition fwd_meta :: "PacketMeta \<Rightarrow> NatFlow \<Rightarrow> PacketMeta" where
  "fwd_meta meta flow = meta\<lparr>meta_backend_ip := \<lparr>ip_value = backend_ip flow\<rparr>,
     meta_backend_mac := backend_mac flow, meta_backend_port := backend_port flow,
     meta_snat_port := snat_port flow\<rparr>"

definition rev_meta :: "PacketMeta \<Rightarrow> NatFlow \<Rightarrow> PacketMeta" where
  "rev_meta meta flow = meta\<lparr>meta_client_ip := \<lparr>ip_value = src_ip (fwd_key flow)\<rparr>,
     meta_client_port := src_port (fwd_key flow), meta_client_mac := client_mac flow\<rparr>"

definition finish_fwd :: "LbNode \<Rightarrow> PacketMeta \<Rightarrow> nat \<Rightarrow> LbNode \<times> PacketMeta \<times> bool" where
  "finish_fwd st meta i =
     (MaybeTeardown st i (meta_dir meta) (meta_tcp_flags meta), fwd_meta meta (slot (lb_nat st) i), True)"

definition HandlePacket :: "isa \<Rightarrow> LbNode \<Rightarrow> PacketMeta \<Rightarrow> BackendPool \<Rightarrow> u32
    \<Rightarrow> (LbNode \<times> PacketMeta \<times> bool) result" where
  "HandlePacket I st meta pool now_ms =
     (if meta_dir meta = kForward then
        let (t1, found) = LookupForward I (lb_nat st) (meta_key meta) now_ms;
            st1 = st\<lparr>lb_nat := t1\<rparr>
        in case found of
             Some i \<Rightarrow> Inr (finish_fwd st1 meta i)
           | None \<Rightarrow>
               if meta_proto meta = kProtoTcp \<and> meta_tcp_flags meta AND kTcpSyn = 0
               then Inr (st1, meta, False)
               else bind_r (CreateFlow I st1 meta (meta_key meta) pool now_ms) (\<lambda>(st2, created).
                 case created of None \<Rightarrow> Inr (st2, meta, False)
                 | Some i \<Rightarrow> Inr (finish_fwd st2 meta i))
      else
        let (t1, found) = LookupReverse I (lb_nat st) (meta_src_ip meta) (meta_src_port meta)
                            (meta_dst_port meta) (meta_proto meta) now_ms;
            st1 = st\<lparr>lb_nat := t1\<rparr>
        in case found of None \<Rightarrow> Inr (st1, meta, False)
           | Some i \<Rightarrow> Inr (MaybeTeardown st1 i (meta_dir meta) (meta_tcp_flags meta),
                            rev_meta meta (slot t1 i), True))"

text \<open>The batch: each packet's metadata after the node, with the output it goes to.\<close>

definition kNextDnat :: nat where "kNextDnat = 0"
definition kNextDrop_lb :: nat where "kNextDrop_lb = 1"

fun Lb_loop :: "isa \<Rightarrow> LbNode \<Rightarrow> BackendPool \<Rightarrow> u32 \<Rightarrow> PacketMeta list
    \<Rightarrow> (LbNode \<times> (PacketMeta \<times> nat) list) result" where
  "Lb_loop I st pool now_ms [] = Inr (st, [])"
| "Lb_loop I st pool now_ms (m # ms) =
     bind_r (HandlePacket I st m pool now_ms) (\<lambda>(st1, m', ok).
     bind_r (Lb_loop I st1 pool now_ms ms) (\<lambda>(st2, outs).
       Inr (st2, (m', if ok then kNextDnat else kNextDrop_lb) # outs)))"

definition Lb_Process :: "isa \<Rightarrow> LbNode \<Rightarrow> BackendPool AtomicRcu \<Rightarrow> u32 \<Rightarrow> PacketMeta list
    \<Rightarrow> (LbNode \<times> (PacketMeta \<times> nat) list) result" where
  "Lb_Process I st rcu now_ms ms =
     (case Rcu_Load rcu of
        None \<Rightarrow> Inr (st, map (\<lambda>m. (m, kNextDrop_lb)) ms)
      | Some pool \<Rightarrow>
          if ActiveCount pool = 0 then Inr (st, map (\<lambda>m. (m, kNextDrop_lb)) ms)
          else bind_r (Lb_loop I st pool now_ms ms) (\<lambda>(st1, outs).
            Inr (st1\<lparr>lb_stats := (lb_stats st1)\<lparr>active_flows := ucast (nt_size (lb_nat st1))\<rparr>\<rparr>, outs)))"

end
