(* ===== verification/Packet.thy ===== *)
theory Packet
  imports Lb_Node
begin

text \<open>
  Packet buffers. An \<open>rte_mbuf\<close> has an identity, the bytes from its data pointer on, and the
  \<open>PacketMeta\<close> of its private area (\<open>graph/packet_meta.hpp\<close>). The code reads headers at fixed
  offsets with no length check, so the bytes are a total function of the offset. Fields the
  code converts with \<open>rte_be_to_cpu\<close> or \<open>rte_cpu_to_be\<close> are in network order: they are read
  and written as big-endian bytes at the offsets of the Ethernet, IPv4, TCP, UDP and ARP
  headers. The DPDK functions that compute on a header are parameters, the record \<open>dpdk\<close>.
\<close>

type_synonym bytes = "nat \<Rightarrow> u8"

record mbuf =
  mb_id :: nat
  mb_data :: bytes
  mb_meta :: PacketMeta

record dpdk =
  ipv4_hdr_len :: "bytes \<Rightarrow> nat \<Rightarrow> nat"
  ipv4_cksum :: "bytes \<Rightarrow> nat \<Rightarrow> u16"
  udptcp_cksum :: "bytes \<Rightarrow> nat \<Rightarrow> nat \<Rightarrow> u16"

definition PacketMeta_default :: PacketMeta where
  "PacketMeta_default = \<lparr>meta_src_ip = 0, meta_dst_ip = 0, meta_src_port = 0, meta_dst_port = 0,
     meta_proto = 0, meta_dir = kForward, meta_backend_ip = \<lparr>ip_value = 0\<rparr>, meta_backend_mac = MacAddr_zero,
     meta_backend_port = 0, meta_snat_port = 0, meta_client_ip = \<lparr>ip_value = 0\<rparr>,
     meta_client_mac = MacAddr_zero, meta_client_port = 0, meta_tcp_flags = 0\<rparr>"

section \<open>Bytes\<close>

definition rd16 :: "bytes \<Rightarrow> nat \<Rightarrow> u16" where
  "rd16 d i = push_bit 8 (ucast (d i)) OR ucast (d (i + 1))"

definition rd32 :: "bytes \<Rightarrow> nat \<Rightarrow> u32" where
  "rd32 d i = push_bit 24 (ucast (d i)) OR push_bit 16 (ucast (d (i + 1)))
     OR push_bit 8 (ucast (d (i + 2))) OR ucast (d (i + 3))"

definition rd_bytes :: "bytes \<Rightarrow> nat \<Rightarrow> nat \<Rightarrow> u8 list" where
  "rd_bytes d i n = map d [i..<i + n]"

definition wr_bytes :: "bytes \<Rightarrow> nat \<Rightarrow> u8 list \<Rightarrow> bytes" where
  "wr_bytes d i bs = (\<lambda>a. if i \<le> a \<and> a < i + length bs then bs ! (a - i) else d a)"

definition wr16 :: "bytes \<Rightarrow> nat \<Rightarrow> u16 \<Rightarrow> bytes" where
  "wr16 d i v = wr_bytes d i [ucast (drop_bit 8 v), ucast v]"

definition wr32 :: "bytes \<Rightarrow> nat \<Rightarrow> u32 \<Rightarrow> bytes" where
  "wr32 d i v = wr_bytes d i [ucast (drop_bit 24 v), ucast (drop_bit 16 v), ucast (drop_bit 8 v), ucast v]"

text \<open>A 16-bit store of a value that is not converted: the host's byte order, little-endian.\<close>

definition wr16_raw :: "bytes \<Rightarrow> nat \<Rightarrow> u16 \<Rightarrow> bytes" where
  "wr16_raw d i v = wr_bytes d i (le16 v)"

section \<open>Header offsets\<close>

definition ETH_DST :: nat where "ETH_DST = 0"
definition ETH_SRC :: nat where "ETH_SRC = 6"
definition ETH_TYPE :: nat where "ETH_TYPE = 12"
definition L3 :: nat where "L3 = 14"
definition IP_PROTO :: nat where "IP_PROTO = 14 + 9"
definition IP_CKSUM :: nat where "IP_CKSUM = 14 + 10"
definition IP_SRC :: nat where "IP_SRC = 14 + 12"
definition IP_DST :: nat where "IP_DST = 14 + 16"

definition ARP_OPCODE :: nat where "ARP_OPCODE = 14 + 6"
definition ARP_SHA :: nat where "ARP_SHA = 14 + 8"
definition ARP_SIP :: nat where "ARP_SIP = 14 + 14"
definition ARP_THA :: nat where "ARP_THA = 14 + 18"
definition ARP_TIP :: nat where "ARP_TIP = 14 + 24"

definition RTE_ETHER_TYPE_ARP :: u16 where "RTE_ETHER_TYPE_ARP = 0x0806"
definition RTE_ETHER_TYPE_IPV4 :: u16 where "RTE_ETHER_TYPE_IPV4 = 0x0800"
definition IPPROTO_TCP :: u8 where "IPPROTO_TCP = 6"
definition IPPROTO_UDP :: u8 where "IPPROTO_UDP = 17"
definition RTE_ARP_OP_REQUEST :: u16 where "RTE_ARP_OP_REQUEST = 1"
definition RTE_ARP_OP_REPLY :: u16 where "RTE_ARP_OP_REPLY = 2"

lemmas offsets = ETH_DST_def ETH_SRC_def ETH_TYPE_def L3_def IP_PROTO_def IP_CKSUM_def IP_SRC_def
  IP_DST_def ARP_OPCODE_def ARP_SHA_def ARP_SIP_def ARP_THA_def ARP_TIP_def

section \<open>Reading what was written\<close>

lemma length_rd_bytes [simp]: "length (rd_bytes d i n) = n"
  by (simp add: rd_bytes_def)

lemma wr_bytes_other: "a < i \<or> i + length bs \<le> a \<Longrightarrow> wr_bytes d i bs a = d a"
  by (auto simp: wr_bytes_def)

lemma wr16_other: "a < i \<or> i + 2 \<le> a \<Longrightarrow> wr16 d i v a = d a"
  unfolding wr16_def by (rule wr_bytes_other) simp

lemma wr32_other: "a < i \<or> i + 4 \<le> a \<Longrightarrow> wr32 d i v a = d a"
  unfolding wr32_def by (rule wr_bytes_other) auto

lemma wr16_raw_other: "a < i \<or> i + 2 \<le> a \<Longrightarrow> wr16_raw d i v a = d a"
  unfolding wr16_raw_def by (rule wr_bytes_other) (simp add: le16_def)

lemmas wr_other = wr_bytes_other wr16_other wr32_other wr16_raw_other

lemma rd16_wr16 [simp]: "rd16 (wr16 d i v) i = v"
  by (rule bit_word_eqI) (auto simp: rd16_def wr16_def wr_bytes_def bit_simps)

lemma rd32_wr32 [simp]: "rd32 (wr32 d i v) i = v"
proof (rule bit_word_eqI)
  fix n
  assume "n < LENGTH(32)"
  then have "n < 8 \<or> 8 \<le> n \<and> n < 16 \<or> 16 \<le> n \<and> n < 24 \<or> 24 \<le> n \<and> n < 32" by auto
  then show "bit (rd32 (wr32 d i v) i) n = bit v n"
    by (auto simp: rd32_def wr32_def wr_bytes_def bit_simps)
qed

lemma rd_bytes_wr_bytes [simp]: "length bs = n \<Longrightarrow> rd_bytes (wr_bytes d i bs) i n = bs"
  by (auto simp: rd_bytes_def wr_bytes_def intro!: nth_equalityI)

lemma rd16_cong: "d' i = d i \<Longrightarrow> d' (i + 1) = d (i + 1) \<Longrightarrow> rd16 d' i = rd16 d i"
  by (simp add: rd16_def)

lemma rd32_cong:
  assumes "\<And>k. k < 4 \<Longrightarrow> d' (i + k) = d (i + k)"
  shows "rd32 d' i = rd32 d i"
  using assms [of 0] assms [of 1] assms [of 2] assms [of 3] by (simp add: rd32_def)

lemma rd_bytes_cong:
  assumes "\<And>k. k < n \<Longrightarrow> d' (i + k) = d (i + k)"
  shows "rd_bytes d' i n = rd_bytes d i n"
  using assms by (intro nth_equalityI) (simp_all add: rd_bytes_def)

end
