(* ===== verification/Packet_Nodes.thy ===== *)
theory Packet_Nodes
  imports Packet
begin

text \<open>
  The nodes that read and rewrite headers: \<open>lb/steering.hpp\<close>, \<open>nodes/ip4_parse_node.cpp\<close>,
  \<open>nodes/dnat_node.cpp\<close>, \<open>nodes/ether_rewrite_node.cpp\<close> and \<open>nodes/arp_node.cpp\<close>. Each
  \<open>Process\<close> maps the packets of a frame, in order, to packets with the output they go to.
\<close>

section \<open>Steering\<close>

record L4Ports =
  l4_src :: u16
  l4_dst :: u16

definition ReadL4Ports :: "bytes \<Rightarrow> nat \<Rightarrow> u8 \<Rightarrow> L4Ports" where
  "ReadL4Ports d l4 pr =
     (if pr = IPPROTO_TCP then \<lparr>l4_src = rd16 d l4, l4_dst = rd16 d (l4 + 2)\<rparr>
      else \<lparr>l4_src = rd16 d l4, l4_dst = rd16 d (l4 + 2)\<rparr>)"

datatype SteerClass = kSteer | kArp | kDrop

record SteerResult =
  steer_cls :: SteerClass
  steer_worker :: u32

definition ClassifyForSteer :: "isa \<Rightarrow> dpdk \<Rightarrow> Config \<Rightarrow> u32 \<Rightarrow> mbuf \<Rightarrow> SteerResult" where
  "ClassifyForSteer I D cfg n_workers mb =
     (let d = mb_data mb; ether_type = rd16 d ETH_TYPE in
      if ether_type = RTE_ETHER_TYPE_ARP then \<lparr>steer_cls = kArp, steer_worker = 0\<rparr>
      else if ether_type \<noteq> RTE_ETHER_TYPE_IPV4 then \<lparr>steer_cls = kDrop, steer_worker = 0\<rparr>
      else let pr = d IP_PROTO in
        if pr \<noteq> IPPROTO_TCP \<and> pr \<noteq> IPPROTO_UDP then \<lparr>steer_cls = kDrop, steer_worker = 0\<rparr>
        else let ports = ReadL4Ports d (L3 + ipv4_hdr_len D d L3) pr;
                 src = rd32 d IP_SRC; dst = rd32 d IP_DST
             in if dst = ip_value (vip cfg) \<and> l4_dst ports = vip_port cfg
                then \<lparr>steer_cls = kSteer,
                       steer_worker = SteerWorker I (mk_key src dst (l4_src ports) (l4_dst ports) pr) n_workers\<rparr>
                else if dst = ip_value (self_ip cfg)
                then \<lparr>steer_cls = kSteer, steer_worker = ucast (l4_dst ports) mod n_workers\<rparr>
                else \<lparr>steer_cls = kDrop, steer_worker = 0\<rparr>)"

section \<open>Parsing\<close>

definition kNextFwd :: nat where "kNextFwd = 0"
definition kNextRev :: nat where "kNextRev = 1"
definition kNextDrop_ip :: nat where "kNextDrop_ip = 2"
definition kNextArp_ip :: nat where "kNextArp_ip = 3"

definition ReadPorts :: "bytes \<Rightarrow> nat \<Rightarrow> u8 \<Rightarrow> L4Ports" where
  "ReadPorts d l4 pr =
     (if pr = IPPROTO_TCP then \<lparr>l4_src = rd16 d l4, l4_dst = rd16 d (l4 + 2)\<rparr>
      else \<lparr>l4_src = rd16 d l4, l4_dst = rd16 d (l4 + 2)\<rparr>)"

definition ReadTcpFlags :: "bytes \<Rightarrow> nat \<Rightarrow> u8 \<Rightarrow> u8" where
  "ReadTcpFlags d l4 pr = (if pr \<noteq> IPPROTO_TCP then 0 else d (l4 + 13))"

definition ClassifyIpv4 :: "dpdk \<Rightarrow> Config \<Rightarrow> mbuf \<Rightarrow> mbuf \<times> nat" where
  "ClassifyIpv4 D cfg mb =
     (let d = mb_data mb; pr = d IP_PROTO in
      if pr \<noteq> IPPROTO_TCP \<and> pr \<noteq> IPPROTO_UDP then (mb, kNextDrop_ip)
      else let l4 = L3 + ipv4_hdr_len D d L3;
               ports = ReadPorts d l4 pr;
               src = rd32 d IP_SRC; dst = rd32 d IP_DST;
               meta = PacketMeta_default\<lparr>meta_src_ip := src, meta_dst_ip := dst,
                 meta_src_port := l4_src ports, meta_dst_port := l4_dst ports, meta_proto := pr,
                 meta_dir := kForward, meta_tcp_flags := ReadTcpFlags d l4 pr,
                 meta_client_mac := \<lparr>mac_bytes = rd_bytes d ETH_SRC 6\<rparr>\<rparr>
           in if dst = ip_value (vip cfg) \<and> l4_dst ports = vip_port cfg
              then (mb\<lparr>mb_meta := meta\<lparr>meta_dir := kForward\<rparr>\<rparr>, kNextFwd)
              else if dst = ip_value (self_ip cfg)
              then (mb\<lparr>mb_meta := meta\<lparr>meta_dir := kReverse\<rparr>\<rparr>, kNextRev)
              else (mb\<lparr>mb_meta := meta\<rparr>, kNextDrop_ip))"

definition Classify :: "dpdk \<Rightarrow> Config \<Rightarrow> mbuf \<Rightarrow> mbuf \<times> nat" where
  "Classify D cfg mb =
     (let ether_type = rd16 (mb_data mb) ETH_TYPE in
      if ether_type = RTE_ETHER_TYPE_ARP then (mb, kNextArp_ip)
      else if ether_type \<noteq> RTE_ETHER_TYPE_IPV4 then (mb, kNextDrop_ip)
      else ClassifyIpv4 D cfg mb)"

definition Ip4Parse_Process :: "dpdk \<Rightarrow> Config \<Rightarrow> mbuf list \<Rightarrow> (mbuf \<times> nat) list" where
  "Ip4Parse_Process D cfg frame = map (Classify D cfg) frame"

section \<open>Rewriting\<close>

definition SetPorts :: "bytes \<Rightarrow> nat \<Rightarrow> u8 \<Rightarrow> u16 \<Rightarrow> u16 \<Rightarrow> bytes" where
  "SetPorts d l4 pr sport dport =
     (if pr = IPPROTO_TCP then wr16 (wr16 d l4 sport) (l4 + 2) dport
      else wr16 (wr16 d l4 sport) (l4 + 2) dport)"

definition FixChecksums :: "dpdk \<Rightarrow> bytes \<Rightarrow> u8 \<Rightarrow> nat \<Rightarrow> bytes" where
  "FixChecksums D d pr l4 =
     (let d1 = wr16_raw d IP_CKSUM 0;
          d2 = wr16_raw d1 IP_CKSUM (ipv4_cksum D d1 L3)
      in if pr = IPPROTO_TCP
         then let d3 = wr16_raw d2 (l4 + 16) 0 in wr16_raw d3 (l4 + 16) (udptcp_cksum D d3 L3 l4)
         else let d3 = wr16_raw d2 (l4 + 6) 0 in wr16_raw d3 (l4 + 6) (udptcp_cksum D d3 L3 l4))"

definition Rewrite :: "dpdk \<Rightarrow> Config \<Rightarrow> mbuf \<Rightarrow> mbuf" where
  "Rewrite D cfg mb =
     (let d = mb_data mb; meta = mb_meta mb; l4 = L3 + ipv4_hdr_len D d L3;
          d' = (if meta_dir meta = kForward
            then SetPorts (wr32 (wr32 d IP_SRC (ip_value (self_ip cfg))) IP_DST (ip_value (meta_backend_ip meta)))
                   l4 (meta_proto meta) (meta_snat_port meta) (meta_backend_port meta)
            else SetPorts (wr32 (wr32 d IP_SRC (ip_value (vip cfg))) IP_DST (ip_value (meta_client_ip meta)))
                   l4 (meta_proto meta) (vip_port cfg) (meta_client_port meta))
      in mb\<lparr>mb_data := FixChecksums D d' (meta_proto meta) l4\<rparr>)"

definition Dnat_Process :: "dpdk \<Rightarrow> Config \<Rightarrow> mbuf list \<Rightarrow> (mbuf \<times> nat) list" where
  "Dnat_Process D cfg frame = map (\<lambda>mb. (Rewrite D cfg mb, 0)) frame"

definition EtherRewrite :: "Config \<Rightarrow> mbuf \<Rightarrow> mbuf" where
  "EtherRewrite cfg mb =
     (let meta = mb_meta mb;
          dst_mac = (if meta_dir meta = kForward then meta_backend_mac meta else meta_client_mac meta)
      in mb\<lparr>mb_data := wr_bytes (wr_bytes (mb_data mb) ETH_DST (mac_bytes dst_mac)) ETH_SRC (mac_bytes (self_mac cfg))\<rparr>)"

definition EtherRewrite_Process :: "Config \<Rightarrow> mbuf list \<Rightarrow> (mbuf \<times> nat) list" where
  "EtherRewrite_Process cfg frame = map (\<lambda>mb. (EtherRewrite cfg mb, 0)) frame"

section \<open>ARP\<close>

definition kNextTx :: nat where "kNextTx = 0"
definition kNextDrop_arp :: nat where "kNextDrop_arp = 1"

definition BuildReply :: "Config \<Rightarrow> mbuf \<Rightarrow> mbuf \<times> bool" where
  "BuildReply cfg mb =
     (let d = mb_data mb in
      if rd16 d ARP_OPCODE \<noteq> RTE_ARP_OP_REQUEST then (mb, False)
      else let target = rd32 d ARP_TIP in
        if target \<noteq> ip_value (self_ip cfg) \<and> target \<noteq> ip_value (vip cfg) then (mb, False)
        else let self = mac_bytes (self_mac cfg);
                 d1 = wr_bytes d ETH_DST (rd_bytes d ETH_SRC 6);
                 d2 = wr_bytes d1 ETH_SRC self;
                 d3 = wr16 d2 ARP_OPCODE RTE_ARP_OP_REPLY;
                 d4 = wr_bytes d3 ARP_THA (rd_bytes d3 ARP_SHA 6);
                 d5 = wr_bytes d4 ARP_TIP (rd_bytes d4 ARP_SIP 4);
                 d6 = wr_bytes d5 ARP_SHA self;
                 d7 = wr32 d6 ARP_SIP target
             in (mb\<lparr>mb_data := d7\<rparr>, True))"

definition Arp_Process :: "Config \<Rightarrow> mbuf list \<Rightarrow> (mbuf \<times> nat) list" where
  "Arp_Process cfg frame =
     map (\<lambda>mb. let (mb', ok) = BuildReply cfg mb in (mb', if ok then kNextTx else kNextDrop_arp)) frame"

section \<open>Steering and parsing agree\<close>

text \<open>
  C20. The distributor and the worker classify alike: a packet is steered exactly when the
  worker's parser sends it to the load balancer, ARP and dropped packets are the same; and the
  worker it is steered to is, for a forward packet, the hash of the key the load balancer will
  look up, and for a reverse packet the remainder of the port it came to.
\<close>

theorem steer_matches_parse:
  "(steer_cls (ClassifyForSteer I D cfg n mb) = kArp \<longleftrightarrow> snd (Classify D cfg mb) = kNextArp_ip)
   \<and> (steer_cls (ClassifyForSteer I D cfg n mb) = kDrop \<longleftrightarrow> snd (Classify D cfg mb) = kNextDrop_ip)
   \<and> (steer_cls (ClassifyForSteer I D cfg n mb) = kSteer \<longleftrightarrow> snd (Classify D cfg mb) \<in> {kNextFwd, kNextRev})
   \<and> (snd (Classify D cfg mb) = kNextFwd \<longrightarrow> meta_dir (mb_meta (fst (Classify D cfg mb))) = kForward
        \<and> steer_worker (ClassifyForSteer I D cfg n mb) = SteerWorker I (meta_key (mb_meta (fst (Classify D cfg mb)))) n)
   \<and> (snd (Classify D cfg mb) = kNextRev \<longrightarrow> meta_dir (mb_meta (fst (Classify D cfg mb))) = kReverse
        \<and> steer_worker (ClassifyForSteer I D cfg n mb) = ucast (meta_dst_port (mb_meta (fst (Classify D cfg mb)))) mod n)"
  by (simp add: ClassifyForSteer_def Classify_def ClassifyIpv4_def Let_def ReadL4Ports_def ReadPorts_def
      kNextArp_ip_def kNextDrop_ip_def kNextFwd_def kNextRev_def meta_key_def)

definition bytes_of :: "u8 list \<Rightarrow> bytes" where
  "bytes_of bs = (\<lambda>i. if i < length bs then bs ! i else 0)"

text \<open>A SYN from 192.168.0.5:40000 to 10.0.0.1:80, and the DPDK functions at concrete values:
  the header length from the IHL field, and some function of the bytes as checksum.\<close>

definition ex_dpdk :: dpdk where
  "ex_dpdk = \<lparr>ipv4_hdr_len = (\<lambda>d i. 4 * unat (d i AND 15)),
     ipv4_cksum = (\<lambda>d i. rd16 d (i + 2)), udptcp_cksum = (\<lambda>d i l4. rd16 d l4)\<rparr>"

definition ex_mbuf :: mbuf where
  "ex_mbuf = \<lparr>mb_id = 1, mb_data = bytes_of ([2,0,0,0,0,1, 2,0,0,0,0,9, 8,0]
     @ [0x45,0,0,40, 0,0,0,0, 64,6,0,0, 192,168,0,5, 10,0,0,1]
     @ [156,64, 0,80, 0,0,0,0, 0,0,0,0, 0x50,2, 0,0, 0,0, 0,0]), mb_meta = PacketMeta_default\<rparr>"

lemma ex_mbuf_fwd: "snd (Classify ex_dpdk ex_cfg ex_mbuf) = kNextFwd"
  by code_simp

theorem steer_matches_parse_witness:
  "steer_worker (ClassifyForSteer Generic ex_dpdk ex_cfg 4 ex_mbuf) =
     SteerWorker Generic (meta_key (mb_meta (fst (Classify ex_dpdk ex_cfg ex_mbuf)))) 4"
  using steer_matches_parse [of Generic ex_dpdk ex_cfg 4 ex_mbuf] ex_mbuf_fwd by simp

section \<open>What rewriting changes\<close>

text \<open>The offset of the layer-4 checksum, and the bytes a rewrite may touch.\<close>

definition l4_cksum_off :: "u8 \<Rightarrow> nat" where
  "l4_cksum_off pr = (if pr = IPPROTO_TCP then 16 else 6)"

definition touched :: "nat \<Rightarrow> u8 \<Rightarrow> nat set" where
  "touched l4 pr = {IP_CKSUM..<IP_DST + 4} \<union> {l4..<l4 + 4} \<union> {l4 + l4_cksum_off pr..<l4 + l4_cksum_off pr + 2}"

lemma FixChecksums_other:
  assumes "a \<notin> {IP_CKSUM..<IP_CKSUM + 2}" and "a \<notin> {l4 + l4_cksum_off pr..<l4 + l4_cksum_off pr + 2}"
  shows "FixChecksums D d pr l4 a = d a"
proof -
  have "a < IP_CKSUM \<or> IP_CKSUM + 2 \<le> a" "a < l4 + l4_cksum_off pr \<or> l4 + l4_cksum_off pr + 2 \<le> a"
    using assms by auto
  then show ?thesis
    by (cases "pr = IPPROTO_TCP") (simp_all only: FixChecksums_def Let_def l4_cksum_off_def if_True if_False simp_thms wr16_raw_other)
qed

lemma SetPorts_eq: "SetPorts d l4 pr s t = wr16 (wr16 d l4 s) (l4 + 2) t"
  by (simp add: SetPorts_def)

text \<open>The four header fields a rewrite sets, read back through the checksum updates.\<close>

lemma header_fields:
  fixes D d a b pr s t
  assumes l4: "L3 + 20 \<le> l4"
  defines "d' \<equiv> FixChecksums D (SetPorts (wr32 (wr32 d IP_SRC a) IP_DST b) l4 pr s t) pr l4"
  shows "rd32 d' IP_SRC = a" and "rd32 d' IP_DST = b" and "rd16 d' l4 = s" and "rd16 d' (l4 + 2) = t"
    and "\<And>x. x \<notin> touched l4 pr \<Longrightarrow> d' x = d x"
proof -
  let ?e = "SetPorts (wr32 (wr32 d IP_SRC a) IP_DST b) l4 pr s t"
  have off: "4 \<le> l4_cksum_off pr" by (simp add: l4_cksum_off_def)
  have fix1: "d' x = ?e x" if "IP_SRC \<le> x" "x < l4 + 4" for x
    unfolding d'_def using that off l4 by (intro FixChecksums_other) (auto simp: offsets)
  have low: "?e x = wr32 (wr32 d IP_SRC a) IP_DST b x" if "x < l4" for x
    using that by (simp add: SetPorts_eq wr16_other)
  have low2: "d' x = wr32 (wr32 d IP_SRC a) IP_DST b x" if "IP_SRC \<le> x" "x < l4" for x
    using that by (simp add: fix1 low)
  have "rd32 d' IP_DST = rd32 (wr32 (wr32 d IP_SRC a) IP_DST b) IP_DST"
    using l4 by (intro rd32_cong low2) (auto simp: offsets)
  then show "rd32 d' IP_DST = b" by simp
  have "rd32 d' IP_SRC = rd32 (wr32 d IP_SRC a) IP_SRC"
    using l4 by (intro rd32_cong) (subst low2, auto simp: offsets wr32_other)
  then show "rd32 d' IP_SRC = a" by simp
  have "rd16 d' (l4 + 2) = rd16 ?e (l4 + 2)" using l4 by (intro rd16_cong fix1) (auto simp: offsets)
  then show "rd16 d' (l4 + 2) = t" by (simp add: SetPorts_eq)
  have "rd16 d' l4 = rd16 (wr16 (wr32 (wr32 d IP_SRC a) IP_DST b) l4 s) l4"
    using l4 by (intro rd16_cong) (subst fix1, auto simp: offsets SetPorts_eq wr16_other)+
  then show "rd16 d' l4 = s" by simp
  fix x
  assume x: "x \<notin> touched l4 pr"
  then have "d' x = ?e x"
    unfolding d'_def by (intro FixChecksums_other) (auto simp: touched_def offsets)
  also have "\<dots> = d x"
  proof -
    have "x < l4 \<or> l4 + 2 \<le> x" "x < l4 + 2 \<or> l4 + 2 + 2 \<le> x" "x < IP_SRC \<or> IP_SRC + 4 \<le> x" "x < IP_DST \<or> IP_DST + 4 \<le> x"
      using x by (auto simp: touched_def offsets)
    then show ?thesis by (simp only: SetPorts_eq wr16_other wr32_other)
  qed
  finally show "d' x = d x" .
qed

lemma Rewrite_meta [simp]: "mb_meta (Rewrite D cfg mb) = mb_meta mb" "mb_id (Rewrite D cfg mb) = mb_id mb"
  by (simp_all add: Rewrite_def Let_def)

text \<open>
  C21. The NAT rewrite, on a packet whose IPv4 header has at least 20 bytes: towards the backend the source is the
  balancer's own address with the connection's port and the destination the backend; towards
  the client the source is the virtual service and the destination the client; outside the
  address, port and checksum fields no byte changes.
\<close>

theorem rewrite_headers:
  assumes hl: "20 \<le> ipv4_hdr_len D (mb_data mb) L3"
  shows "let l4 = L3 + ipv4_hdr_len D (mb_data mb) L3; d' = mb_data (Rewrite D cfg mb); m = mb_meta mb in
    (meta_dir m = kForward \<longrightarrow>
       rd32 d' IP_SRC = ip_value (self_ip cfg) \<and> rd32 d' IP_DST = ip_value (meta_backend_ip m)
       \<and> rd16 d' l4 = meta_snat_port m \<and> rd16 d' (l4 + 2) = meta_backend_port m)
    \<and> (meta_dir m = kReverse \<longrightarrow>
       rd32 d' IP_SRC = ip_value (vip cfg) \<and> rd32 d' IP_DST = ip_value (meta_client_ip m)
       \<and> rd16 d' l4 = vip_port cfg \<and> rd16 d' (l4 + 2) = meta_client_port m)
    \<and> (\<forall>x. x \<notin> {IP_CKSUM..<IP_DST + 4} \<union> {l4..<l4 + 4}
          \<union> (if meta_proto m = IPPROTO_TCP then {l4 + 16..<l4 + 18} else {l4 + 6..<l4 + 8})
        \<longrightarrow> d' x = mb_data mb x)"
proof -
  have t: "{IP_CKSUM..<IP_DST + 4} \<union> {l4..<l4 + 4}
          \<union> (if pr = IPPROTO_TCP then {l4 + 16..<l4 + 18} else {l4 + 6..<l4 + 8}) = touched l4 pr" for l4 pr
    by (auto simp: touched_def l4_cksum_off_def)
  show ?thesis
    using header_fields [of "L3 + ipv4_hdr_len D (mb_data mb) L3"] hl
    unfolding Let_def t by (cases "meta_dir (mb_meta mb)") (auto simp: Rewrite_def Let_def)
qed

theorem rewrite_headers_witness:
  "rd32 (mb_data (Rewrite ex_dpdk ex_cfg ex_mbuf)) IP_SRC = 0x0A0000FE"
proof -
  have "20 \<le> ipv4_hdr_len ex_dpdk (mb_data ex_mbuf) L3" "meta_dir (mb_meta ex_mbuf) = kForward"
    "ip_value (self_ip ex_cfg) = 0x0A0000FE" by code_simp+
  then show ?thesis using rewrite_headers [of ex_dpdk ex_mbuf ex_cfg] unfolding Let_def by simp
qed

lemma EtherRewrite_meta [simp]: "mb_meta (EtherRewrite cfg mb) = mb_meta mb" "mb_id (EtherRewrite cfg mb) = mb_id mb"
  by (simp_all add: EtherRewrite_def Let_def)

lemma EtherRewrite_data:
  assumes "MacAddr_ok (self_mac cfg)" and "MacAddr_ok mac"
    and "mac = (if meta_dir (mb_meta mb) = kForward then meta_backend_mac (mb_meta mb) else meta_client_mac (mb_meta mb))"
  shows "rd_bytes (mb_data (EtherRewrite cfg mb)) ETH_DST 6 = mac_bytes mac"
    and "rd_bytes (mb_data (EtherRewrite cfg mb)) ETH_SRC 6 = mac_bytes (self_mac cfg)"
    and "\<And>x. ETH_TYPE \<le> x \<Longrightarrow> mb_data (EtherRewrite cfg mb) x = mb_data mb x"
proof -
  let ?d = "wr_bytes (mb_data mb) ETH_DST (mac_bytes mac)"
  have d: "mb_data (EtherRewrite cfg mb) = wr_bytes ?d ETH_SRC (mac_bytes (self_mac cfg))"
    by (simp add: EtherRewrite_def Let_def assms(3))
  have len: "length (mac_bytes mac) = 6" "length (mac_bytes (self_mac cfg)) = 6"
    using assms(1,2) by (simp_all add: MacAddr_ok_def)
  have "rd_bytes (mb_data (EtherRewrite cfg mb)) ETH_DST 6 = rd_bytes ?d ETH_DST 6"
    unfolding d by (intro rd_bytes_cong wr_bytes_other) (simp add: offsets)
  then show "rd_bytes (mb_data (EtherRewrite cfg mb)) ETH_DST 6 = mac_bytes mac" using len by simp
  show "rd_bytes (mb_data (EtherRewrite cfg mb)) ETH_SRC 6 = mac_bytes (self_mac cfg)" unfolding d using len by simp
  show "mb_data (EtherRewrite cfg mb) x = mb_data mb x" if "ETH_TYPE \<le> x" for x
    unfolding d using that len by (simp add: wr_bytes_other offsets)
qed

section \<open>ARP replies\<close>

lemma BuildReply_spec:
  assumes mac: "MacAddr_ok (self_mac cfg)"
  shows "let d = mb_data mb; (mb', ok) = BuildReply cfg mb; d' = mb_data mb' in
    (ok \<longleftrightarrow> rd16 d ARP_OPCODE = RTE_ARP_OP_REQUEST \<and> rd32 d ARP_TIP \<in> {ip_value (self_ip cfg), ip_value (vip cfg)})
    \<and> (\<not> ok \<longrightarrow> mb' = mb)
    \<and> (ok \<longrightarrow> rd_bytes d' ETH_DST 6 = rd_bytes d ETH_SRC 6 \<and> rd_bytes d' ETH_SRC 6 = mac_bytes (self_mac cfg)
        \<and> rd16 d' ARP_OPCODE = RTE_ARP_OP_REPLY
        \<and> rd_bytes d' ARP_SHA 6 = mac_bytes (self_mac cfg) \<and> rd32 d' ARP_SIP = rd32 d ARP_TIP
        \<and> rd_bytes d' ARP_THA 6 = rd_bytes d ARP_SHA 6 \<and> rd_bytes d' ARP_TIP 4 = rd_bytes d ARP_SIP 4
        \<and> (\<forall>x. x \<in> {ETH_TYPE..<ARP_OPCODE} \<union> {ARP_TIP + 4..} \<longrightarrow> d' x = d x))"
proof -
  let ?d = "mb_data mb"
  let ?self = "mac_bytes (self_mac cfg)"
  have len: "length ?self = 6" using mac by (simp add: MacAddr_ok_def)
  define d1 where "d1 = wr_bytes ?d ETH_DST (rd_bytes ?d ETH_SRC 6)"
  define d2 where "d2 = wr_bytes d1 ETH_SRC ?self"
  define d3 where "d3 = wr16 d2 ARP_OPCODE RTE_ARP_OP_REPLY"
  define d4 where "d4 = wr_bytes d3 ARP_THA (rd_bytes d3 ARP_SHA 6)"
  define d5 where "d5 = wr_bytes d4 ARP_TIP (rd_bytes d4 ARP_SIP 4)"
  define d6 where "d6 = wr_bytes d5 ARP_SHA ?self"
  define d7 where "d7 = wr32 d6 ARP_SIP (rd32 ?d ARP_TIP)"
  note ds = d1_def d2_def d3_def d4_def d5_def d6_def d7_def
  note away = wr_bytes_other wr16_other wr32_other len offsets
  have b: "BuildReply cfg mb =
      (if rd16 ?d ARP_OPCODE = RTE_ARP_OP_REQUEST \<and> rd32 ?d ARP_TIP \<in> {ip_value (self_ip cfg), ip_value (vip cfg)}
       then (mb\<lparr>mb_data := d7\<rparr>, True) else (mb, False))"
    by (simp add: BuildReply_def Let_def ds)
  have d7_5: "d7 x = d5 x" if "x < ARP_SHA \<or> ARP_THA \<le> x" for x
    using that by (elim disjE) (simp_all add: d7_def d6_def away)
  have d7_2: "d7 x = d2 x" if "x < ARP_OPCODE" for x
    using that by (simp add: d7_5 offsets) (simp add: d5_def d4_def d3_def away)
  have d3_0: "d3 x = ?d x" if "ARP_SHA \<le> x" for x using that by (simp add: d3_def d2_def d1_def away)
  have "rd_bytes d7 ETH_DST 6 = rd_bytes ?d ETH_SRC 6"
  proof -
    have "rd_bytes d7 ETH_DST 6 = rd_bytes d1 ETH_DST 6"
      by (intro rd_bytes_cong) (simp add: d7_2 offsets, simp add: d2_def away)
    then show ?thesis by (simp add: d1_def)
  qed
  moreover have "rd_bytes d7 ETH_SRC 6 = ?self"
  proof -
    have "rd_bytes d7 ETH_SRC 6 = rd_bytes d2 ETH_SRC 6" by (intro rd_bytes_cong) (simp add: d7_2 offsets)
    then show ?thesis by (simp add: d2_def len)
  qed
  moreover have "rd16 d7 ARP_OPCODE = RTE_ARP_OP_REPLY"
  proof -
    have "rd16 d7 ARP_OPCODE = rd16 d3 ARP_OPCODE"
      by (intro rd16_cong) (simp_all add: d7_5 offsets, simp_all add: d5_def d4_def away)
    then show ?thesis by (simp add: d3_def)
  qed
  moreover have "rd_bytes d7 ARP_SHA 6 = ?self"
  proof -
    have "rd_bytes d7 ARP_SHA 6 = rd_bytes d6 ARP_SHA 6" by (intro rd_bytes_cong) (simp add: d7_def away)
    then show ?thesis by (simp add: d6_def len)
  qed
  moreover have "rd32 d7 ARP_SIP = rd32 ?d ARP_TIP" by (simp add: d7_def)
  moreover have "rd_bytes d7 ARP_THA 6 = rd_bytes ?d ARP_SHA 6"
  proof -
    have "rd_bytes d7 ARP_THA 6 = rd_bytes d4 ARP_THA 6"
      by (intro rd_bytes_cong) (simp add: d7_5, simp add: d5_def away)
    also have "\<dots> = rd_bytes d3 ARP_SHA 6" by (simp add: d4_def)
    also have "\<dots> = rd_bytes ?d ARP_SHA 6" by (intro rd_bytes_cong d3_0) simp
    finally show ?thesis .
  qed
  moreover have "rd_bytes d7 ARP_TIP 4 = rd_bytes ?d ARP_SIP 4"
  proof -
    have "rd_bytes d7 ARP_TIP 4 = rd_bytes d5 ARP_TIP 4" by (intro rd_bytes_cong d7_5) (simp add: offsets)
    also have "\<dots> = rd_bytes d4 ARP_SIP 4" by (simp add: d5_def)
    also have "\<dots> = rd_bytes ?d ARP_SIP 4"
      by (intro rd_bytes_cong) (simp add: d4_def away, subst d3_0, simp_all add: offsets)
    finally show ?thesis .
  qed
  moreover have "d7 x = ?d x" if "x \<in> {ETH_TYPE..<ARP_OPCODE} \<union> {ARP_TIP + 4..}" for x
    using that by (auto simp: d7_2 d2_def d1_def away) (simp_all add: ds away)
  ultimately show ?thesis by (simp add: b)
qed

text \<open>
  C25. ARP. Of a batch, the node sends on to transmission exactly the requests for the balancer's own address and for the
  virtual address, turned into answers, and hands every other packet to the drop stage as it was; each packet comes out once, in its place. The answer goes
  to the asker, says that the address it asked for is at the balancer's MAC, names the asker as its target, and
  changes no byte outside the Ethernet addresses, the opcode and the four ARP addresses.
\<close>

theorem arp_answers:
  assumes mac: "MacAddr_ok (self_mac cfg)"
  shows "length (Arp_Process cfg ms) = length ms
    \<and> (\<forall>k < length ms. let d = mb_data (ms ! k); (mb', out) = Arp_Process cfg ms ! k; d' = mb_data mb' in
      if rd16 d ARP_OPCODE = RTE_ARP_OP_REQUEST \<and> rd32 d ARP_TIP \<in> {ip_value (self_ip cfg), ip_value (vip cfg)}
      then out = kNextTx \<and> mb_id mb' = mb_id (ms ! k)
        \<and> rd_bytes d' ETH_DST 6 = rd_bytes d ETH_SRC 6 \<and> rd_bytes d' ETH_SRC 6 = mac_bytes (self_mac cfg)
        \<and> rd16 d' ARP_OPCODE = RTE_ARP_OP_REPLY
        \<and> rd_bytes d' ARP_SHA 6 = mac_bytes (self_mac cfg) \<and> rd32 d' ARP_SIP = rd32 d ARP_TIP
        \<and> rd_bytes d' ARP_THA 6 = rd_bytes d ARP_SHA 6 \<and> rd_bytes d' ARP_TIP 4 = rd_bytes d ARP_SIP 4
        \<and> (\<forall>x. x \<in> {ETH_TYPE..<ARP_OPCODE} \<union> {ARP_TIP + 4..} \<longrightarrow> d' x = d x)
      else out = kNextDrop_arp \<and> mb' = ms ! k)"
proof (intro conjI allI impI)
  show "length (Arp_Process cfg ms) = length ms" by (simp add: Arp_Process_def)
  fix k
  assume k: "k < length ms"
  obtain mb' ok where b: "BuildReply cfg (ms ! k) = (mb', ok)" by fastforce
  then have "mb_id mb' = mb_id (ms ! k)" by (auto simp: BuildReply_def Let_def split: if_splits)
  moreover have "Arp_Process cfg ms ! k = (mb', if ok then kNextTx else kNextDrop_arp)" using k b by (simp add: Arp_Process_def)
  moreover note BuildReply_spec [OF mac, of "ms ! k", unfolded b]
  ultimately show "let d = mb_data (ms ! k); (mb', out) = Arp_Process cfg ms ! k; d' = mb_data mb' in
      if rd16 d ARP_OPCODE = RTE_ARP_OP_REQUEST \<and> rd32 d ARP_TIP \<in> {ip_value (self_ip cfg), ip_value (vip cfg)}
      then out = kNextTx \<and> mb_id mb' = mb_id (ms ! k)
        \<and> rd_bytes d' ETH_DST 6 = rd_bytes d ETH_SRC 6 \<and> rd_bytes d' ETH_SRC 6 = mac_bytes (self_mac cfg)
        \<and> rd16 d' ARP_OPCODE = RTE_ARP_OP_REPLY
        \<and> rd_bytes d' ARP_SHA 6 = mac_bytes (self_mac cfg) \<and> rd32 d' ARP_SIP = rd32 d ARP_TIP
        \<and> rd_bytes d' ARP_THA 6 = rd_bytes d ARP_SHA 6 \<and> rd_bytes d' ARP_TIP 4 = rd_bytes d ARP_SIP 4
        \<and> (\<forall>x. x \<in> {ETH_TYPE..<ARP_OPCODE} \<union> {ARP_TIP + 4..} \<longrightarrow> d' x = d x)
      else out = kNextDrop_arp \<and> mb' = ms ! k"
    unfolding Let_def by (cases ok) (simp_all only: prod.case if_True if_False simp_thms, blast)
qed

definition ex_arp :: mbuf where
  "ex_arp = \<lparr>mb_id = 2, mb_data = bytes_of ([255,255,255,255,255,255, 2,0,0,0,0,9, 8,6]
     @ [0,1, 8,0, 6, 4, 0,1, 2,0,0,0,0,9, 192,168,0,5, 0,0,0,0,0,0, 10,0,0,1]), mb_meta = PacketMeta_default\<rparr>"

theorem arp_answers_witness:
  "\<exists>mb'. Arp_Process ex_cfg [ex_arp, ex_arp\<lparr>mb_data := \<lambda>x. 0\<rparr>] = [(mb', kNextTx), (ex_arp\<lparr>mb_data := \<lambda>x. 0\<rparr>, kNextDrop_arp)]
     \<and> rd_bytes (mb_data mb') ETH_DST 6 = [2,0,0,0,0,9] \<and> rd_bytes (mb_data mb') ARP_SHA 6 = [2,0,0,0,0,1]"
proof -
  let ?z = "ex_arp\<lparr>mb_data := \<lambda>x. 0\<rparr>"
  let ?outs = "Arp_Process ex_cfg [ex_arp, ?z]"
  have m: "MacAddr_ok (self_mac ex_cfg)" by code_simp
  have r: "rd16 (mb_data ex_arp) ARP_OPCODE = RTE_ARP_OP_REQUEST" "rd32 (mb_data ex_arp) ARP_TIP = ip_value (vip ex_cfg)"
    "rd_bytes (mb_data ex_arp) ETH_SRC 6 = [2,0,0,0,0,9]" "mac_bytes (self_mac ex_cfg) = [2,0,0,0,0,1]"
    "rd16 (\<lambda>x. 0) ARP_OPCODE \<noteq> RTE_ARP_OP_REQUEST" by code_simp+
  note a = arp_answers [OF m, of "[ex_arp, ?z]"]
  then have len: "length ?outs = 2" by simp
  obtain mb' o1 where o1: "?outs ! 0 = (mb', o1)" by fastforce
  obtain mb2 o2 where o2: "?outs ! 1 = (mb2, o2)" by fastforce
  have "o1 = kNextTx" "rd_bytes (mb_data mb') ETH_DST 6 = [2,0,0,0,0,9]" "rd_bytes (mb_data mb') ARP_SHA 6 = [2,0,0,0,0,1]"
    using a [THEN conjunct2, rule_format, of 0] r(1-4) o1 by (simp_all add: Let_def)
  moreover have "o2 = kNextDrop_arp" "mb2 = ?z" using a [THEN conjunct2, rule_format, of 1] r(5) o2 by (simp_all add: Let_def)
  moreover have "?outs = [?outs ! 0, ?outs ! 1]" using len by (intro nth_equalityI) (auto simp: less_Suc_eq numeral_2_eq_2)
  ultimately show ?thesis using o1 o2 by auto
qed

end
