(* ===== verification/Frame_Graph.thy ===== *)
theory Frame_Graph
  imports Packet_Nodes
begin

text \<open>
  \<open>graph/frame.hpp\<close>, \<open>graph/frame_pool.cpp\<close>, \<open>graph/graph.cpp\<close> and \<open>graph/dispatcher.cpp\<close>. A
  frame is the list of its first \<open>count\<close> buffers. Frames are allocated in a pool and passed by
  pointer: a pointer is an index into the pool's storage. What a node does with a frame is a
  parameter \<open>proc\<close> of the dispatcher (the virtual \<open>Process\<close>), on a world that holds the
  nodes' states and the devices; the nodes of the program are plugged in by the theory that
  builds the graphs.
\<close>

section \<open>Frames\<close>

definition kBurstSize :: nat where "kBurstSize = 64"

type_synonym 'p frame = "'p list"

definition Full :: "'p frame \<Rightarrow> bool" where
  "Full f \<longleftrightarrow> length f = kBurstSize"

definition Push :: "'p \<Rightarrow> 'p frame \<Rightarrow> 'p frame result" where
  "Push m f = (if length f < kBurstSize then Inr (f @ [m]) else Inl AssertFail)"

text \<open>\<open>emit\<close>: the calls \<open>in.MoveTo(i, nexts[out])\<close> of a node, in order.\<close>

fun emit :: "('p \<times> nat) list \<Rightarrow> 'p frame list \<Rightarrow> 'p frame list result" where
  "emit [] nexts = Inr nexts"
| "emit ((m, out) # ms) nexts = bind_r (Push m (nexts ! out)) (\<lambda>f. emit ms (nexts[out := f]))"

section \<open>The frame pool\<close>

record 'p FramePool =
  fp_storage :: "'p frame list"
  fp_free :: "nat list"

definition FramePool_new :: "nat \<Rightarrow> 'p FramePool" where
  "FramePool_new reserve = \<lparr>fp_storage = replicate reserve [], fp_free = [0..<reserve]\<rparr>"

definition FP_Acquire :: "'p FramePool \<Rightarrow> nat \<times> 'p FramePool" where
  "FP_Acquire p =
     (if fp_free p = [] then (length (fp_storage p), p\<lparr>fp_storage := fp_storage p @ [[]]\<rparr>)
      else let f = last (fp_free p) in
           (f, p\<lparr>fp_free := butlast (fp_free p), fp_storage := (fp_storage p)[f := []]\<rparr>))"

definition FP_Release :: "nat \<Rightarrow> 'p FramePool \<Rightarrow> 'p FramePool" where
  "FP_Release f p = p\<lparr>fp_storage := (fp_storage p)[f := []], fp_free := fp_free p @ [f]\<rparr>"

section \<open>The graph\<close>

definition kInvalid :: u16 where "kInvalid = 0xFFFF"
definition kMaxFanout :: nat where "kMaxFanout = 8"

record 'n Graph =
  gr_nodes :: "'n list"
  gr_routing :: "u16 list list"

definition Graph_empty :: "'n Graph" where
  "Graph_empty = \<lparr>gr_nodes = [], gr_routing = []\<rparr>"

text \<open>\<open>AddNode\<close> takes the node and its \<open>NextCount()\<close>.\<close>

definition AddNode :: "'n \<Rightarrow> nat \<Rightarrow> 'n Graph \<Rightarrow> u16 \<times> 'n Graph" where
  "AddNode node next_count g =
     (of_nat (length (gr_nodes g)),
      g\<lparr>gr_routing := gr_routing g @ [replicate next_count kInvalid], gr_nodes := gr_nodes g @ [node]\<rparr>)"

definition Wire :: "u16 \<Rightarrow> nat \<Rightarrow> u16 \<Rightarrow> 'n Graph \<Rightarrow> 'n Graph result" where
  "Wire src out_idx dest g =
     (if unat src \<ge> length (gr_nodes g) \<or> unat dest \<ge> length (gr_nodes g) then Inl (OutOfRange (''Wire: invalid node '' @ dec (unat src) @ '' or '' @ dec (unat dest)))
      else if out_idx \<ge> length (gr_routing g ! unat src) then Inl (OutOfRange (''Wire: out_idx '' @ dec out_idx @ '' >= NextCount()''))
      else Inr (g\<lparr>gr_routing := (gr_routing g)[unat src := (gr_routing g ! unat src)[out_idx := dest]]\<rparr>))"

definition NodeCount :: "'n Graph \<Rightarrow> u16" where
  "NodeCount g = of_nat (length (gr_nodes g))"

definition Fanout :: "'n Graph \<Rightarrow> nat \<Rightarrow> nat" where
  "Fanout g n = length (gr_routing g ! n)"

definition Target :: "'n Graph \<Rightarrow> nat \<Rightarrow> nat \<Rightarrow> u16" where
  "Target g n out = gr_routing g ! n ! out"

section \<open>The dispatcher\<close>

record 'p Dispatcher =
  dp_pending :: "nat list list"
  dp_scheduled :: "u8 list"
  dp_queue :: "nat list"
  dp_pool :: "'p FramePool"

definition Dispatcher_new :: "'n Graph \<Rightarrow> 'p Dispatcher" where
  "Dispatcher_new g = \<lparr>dp_pending = replicate (unat (NodeCount g)) [], dp_scheduled = replicate (unat (NodeCount g)) 0,
     dp_queue = [], dp_pool = FramePool_new (unat (NodeCount g) + kMaxFanout)\<rparr>"

abbreviation frame_at :: "'p Dispatcher \<Rightarrow> nat \<Rightarrow> 'p frame" where
  "frame_at st f \<equiv> fp_storage (dp_pool st) ! f"

definition set_frame :: "nat \<Rightarrow> 'p frame \<Rightarrow> 'p Dispatcher \<Rightarrow> 'p Dispatcher" where
  "set_frame f x st = st\<lparr>dp_pool := (dp_pool st)\<lparr>fp_storage := (fp_storage (dp_pool st))[f := x]\<rparr>\<rparr>"

definition Schedule :: "nat \<Rightarrow> 'p Dispatcher \<Rightarrow> 'p Dispatcher" where
  "Schedule n st = (if dp_scheduled st ! n = 0
     then st\<lparr>dp_scheduled := (dp_scheduled st)[n := 1], dp_queue := dp_queue st @ [n]\<rparr> else st)"

definition need_frame :: "nat \<Rightarrow> 'p Dispatcher \<Rightarrow> 'p Dispatcher" where
  "need_frame target st =
     (let pend = dp_pending st ! target in
      if pend = [] \<or> Full (frame_at st (last pend))
      then let (f, pool) = FP_Acquire (dp_pool st)
           in st\<lparr>dp_pool := pool, dp_pending := (dp_pending st)[target := pend @ [f]]\<rparr>
      else st)"

fun RouteInto :: "nat \<Rightarrow> 'p frame \<Rightarrow> 'p Dispatcher \<Rightarrow> 'p Dispatcher result" where
  "RouteInto target [] st = Inr st"
| "RouteInto target (m # ms) st =
     (let st1 = need_frame target st;
          f = last (dp_pending st1 ! target)
      in bind_r (Push m (frame_at st1 f)) (\<lambda>x. RouteInto target ms (set_frame f x st1)))"

fun route_outs :: "(nat \<times> u16 \<times> 'p frame) list \<Rightarrow> 'p Dispatcher \<Rightarrow> 'p Dispatcher result" where
  "route_outs [] st = Inr st"
| "route_outs ((out, target, frame) # outs) st =
     (if target = kInvalid \<or> frame = [] then route_outs outs st
      else bind_r (RouteInto (unat target) frame st) (\<lambda>st1. route_outs outs (Schedule (unat target) st1)))"

type_synonym ('w, 'p) proc = "nat \<Rightarrow> 'w \<Rightarrow> 'p frame \<Rightarrow> 'p frame list \<Rightarrow> ('w \<times> 'p frame \<times> 'p frame list) result"

definition RunNode :: "('w, 'p) proc \<Rightarrow> 'n Graph \<Rightarrow> nat \<Rightarrow> nat \<Rightarrow> 'w \<Rightarrow> 'p Dispatcher \<Rightarrow> ('w \<times> 'p Dispatcher) result" where
  "RunNode proc g n f w st =
     (let fanout = Fanout g n in
      bind_r (proc n w (frame_at st f) (replicate fanout [])) (\<lambda>(w', frame', nexts).
      bind_r (route_outs (map (\<lambda>out. (out, Target g n out, nexts ! out)) [0..<fanout]) (set_frame f frame' st)) (\<lambda>st'.
        Inr (w', st'))))"

fun drain_loop :: "('w, 'p) proc \<Rightarrow> 'n Graph \<Rightarrow> nat \<Rightarrow> nat list \<Rightarrow> 'w \<Rightarrow> 'p Dispatcher \<Rightarrow> ('w \<times> 'p Dispatcher) result" where
  "drain_loop proc g n [] w st = Inr (w, st)"
| "drain_loop proc g n (f # fs) w st =
     bind_r (RunNode proc g n f w st) (\<lambda>(w1, st1).
       drain_loop proc g n fs w1 (st1\<lparr>dp_pool := FP_Release f (dp_pool st1)\<rparr>))"

definition DrainNode :: "('w, 'p) proc \<Rightarrow> 'n Graph \<Rightarrow> nat \<Rightarrow> 'w \<Rightarrow> 'p Dispatcher \<Rightarrow> ('w \<times> 'p Dispatcher) result" where
  "DrainNode proc g n w st =
     drain_loop proc g n (dp_pending st ! n) w (st\<lparr>dp_pending := (dp_pending st)[n := []]\<rparr>)"

definition Reset :: "'p Dispatcher \<Rightarrow> 'p Dispatcher" where
  "Reset st = st\<lparr>dp_pool := fold FP_Release (concat (dp_pending st)) (dp_pool st),
     dp_pending := map (\<lambda>_. []) (dp_pending st), dp_queue := [],
     dp_scheduled := map (\<lambda>_. 0) (dp_scheduled st)\<rparr>"

partial_function (option) dispatch_loop ::
  "('w, 'p) proc \<Rightarrow> 'n Graph \<Rightarrow> 'w \<Rightarrow> 'p Dispatcher \<Rightarrow> ('w \<times> 'p Dispatcher) result option" where
  "dispatch_loop proc g w st =
     (if dp_queue st = [] then Some (Inr (w, st))
      else let n = last (dp_queue st);
               st1 = st\<lparr>dp_queue := butlast (dp_queue st), dp_scheduled := (dp_scheduled st)[n := 0]\<rparr>
           in case DrainNode proc g n w st1 of
                Inl e \<Rightarrow> Some (Inl e)
              | Inr (w', st') \<Rightarrow> dispatch_loop proc g w' st')"

fun push_all :: "'p list \<Rightarrow> 'p frame \<Rightarrow> 'p frame result" where
  "push_all [] f = Inr f"
| "push_all (m # ms) f = bind_r (Push m f) (push_all ms)"

definition RunOnce :: "('w, 'p) proc \<Rightarrow> 'n Graph \<Rightarrow> nat \<Rightarrow> 'p frame \<Rightarrow> 'w \<Rightarrow> 'p Dispatcher
    \<Rightarrow> ('w \<times> 'p Dispatcher) result option" where
  "RunOnce proc g root root_frame w st =
     (let st0 = Reset st; (seed, pool) = FP_Acquire (dp_pool st0) in
      case push_all root_frame (fp_storage pool ! seed) of
        Inl e \<Rightarrow> Some (Inl e)
      | Inr x \<Rightarrow>
          let st1 = set_frame seed x (st0\<lparr>dp_pool := pool\<rparr>);
              st2 = st1\<lparr>dp_pending := (dp_pending st1)[root := dp_pending st1 ! root @ [seed]]\<rparr>
          in dispatch_loop proc g w (Schedule root st2))"

end
