(* ===== verification/Dispatch_Inv.thy ===== *)
theory Dispatch_Inv
  imports Frame_Graph
begin

text \<open>
  The dispatcher at work. The pointers of the pool are partitioned: every frame is free, queued
  at one node, or being drained. On this rests that no frame is written through two pointers,
  so that routing adds exactly the packets it routes. A pass over an acyclic graph ends, and
  every packet that came in went out.
\<close>

section \<open>The pool of frames\<close>

definition fp_part :: "nat multiset \<Rightarrow> 'p FramePool \<Rightarrow> bool" where
  "fp_part used p \<longleftrightarrow> mset (fp_free p) + used = mset [0..<length (fp_storage p)]
     \<and> (\<forall>f \<in> set (fp_storage p). length f \<le> kBurstSize)"

lemma fp_part_once:
  assumes "fp_part used p"
  shows "count used f \<le> 1" and "f \<in># used \<Longrightarrow> f < length (fp_storage p)" and "f \<in># used \<Longrightarrow> f \<notin> set (fp_free p)"
    and "f \<in> set (fp_free p) \<Longrightarrow> f < length (fp_storage p)"
proof -
  have eq: "mset (fp_free p) + used = mset [0..<length (fp_storage p)]" using assms by (simp add: fp_part_def)
  have c: "count (mset (fp_free p)) f + count used f = count (mset [0..<length (fp_storage p)]) f"
    using eq by (metis count_union)
  have le: "count (mset [0..<length (fp_storage p)]) f \<le> 1" using distinct_count_atmost_1 [of "[0..<length (fp_storage p)]"] by simp
  show "count used f \<le> 1" using c le by linarith
  have s: "set_mset (mset (fp_free p) + used) = {0..<length (fp_storage p)}" unfolding eq by simp
  then show "f \<in># used \<Longrightarrow> f < length (fp_storage p)" "f \<in> set (fp_free p) \<Longrightarrow> f < length (fp_storage p)" by auto
  show "f \<notin> set (fp_free p)" if "f \<in># used"
  proof
    assume "f \<in> set (fp_free p)"
    then have "0 < count (mset (fp_free p)) f" "0 < count used f"
      using that by (simp_all only: count_greater_zero_iff set_mset_mset)
    then show False using c le by linarith
  qed
qed

lemma FP_Acquire_part:
  assumes "fp_part used p" and "FP_Acquire p = (f, p')"
  shows "fp_part (add_mset f used) p'" and "fp_storage p' ! f = []" and "f < length (fp_storage p')"
    and "\<And>g. g \<in># used \<Longrightarrow> fp_storage p' ! g = fp_storage p ! g"
proof -
  have eq: "mset (fp_free p) + used = mset [0..<length (fp_storage p)]"
    and sz: "\<forall>f \<in> set (fp_storage p). length f \<le> kBurstSize" using assms(1) by (auto simp: fp_part_def)
  show "fp_part (add_mset f used) p'"
  proof (cases "fp_free p = []")
    case True
    then have "used = mset [0..<length (fp_storage p)]" using eq by simp
    with True assms(2) sz show ?thesis by (auto simp: FP_Acquire_def fp_part_def simp del: mset_upt)
  next
    case False
    then have "mset (fp_free p) = add_mset (last (fp_free p)) (mset (butlast (fp_free p)))"
      by (metis append_butlast_last_id mset.simps(2) mset_append add.commute add_mset_add_single mset_single_iff)
    with False assms(2) eq sz show ?thesis
      by (auto simp: FP_Acquire_def fp_part_def Let_def dest!: set_update_subset_insert [THEN subsetD])
  qed
  show "fp_storage p' ! f = []" and "f < length (fp_storage p')"
    using assms(2) fp_part_once(4) [OF assms(1), of "last (fp_free p)"]
    by (auto simp: FP_Acquire_def Let_def split: if_splits)
  show "fp_storage p' ! g = fp_storage p ! g" if "g \<in># used" for g
  proof (cases "fp_free p = []")
    case True
    with assms(2) fp_part_once(2) [OF assms(1) that] show ?thesis by (auto simp: FP_Acquire_def nth_append)
  next
    case False
    then have "last (fp_free p) \<noteq> g" using fp_part_once(3) [OF assms(1) that] last_in_set by metis
    with False assms(2) show ?thesis by (auto simp: FP_Acquire_def Let_def)
  qed
qed

lemma FP_Release_part:
  assumes "fp_part (add_mset f used) p"
  shows "fp_part used (FP_Release f p)" and "\<And>g. g \<in># used \<Longrightarrow> fp_storage (FP_Release f p) ! g = fp_storage p ! g"
proof -
  show "fp_part used (FP_Release f p)"
    using assms by (auto simp: fp_part_def FP_Release_def dest!: set_update_subset_insert [THEN subsetD])
  have "f \<notin># used" using fp_part_once(1) [OF assms, of f] by (simp add: not_in_iff)
  then show "fp_storage (FP_Release f p) ! g = fp_storage p ! g" if "g \<in># used" for g
    using that by (simp add: FP_Release_def) (metis nth_list_update_neq)
qed

section \<open>Packets at the nodes\<close>

text \<open>The packets of the frames with the given pointers.\<close>

definition load :: "'p frame list \<Rightarrow> nat multiset \<Rightarrow> 'p multiset" where
  "load s fs = (\<Sum>f \<in># fs. mset (s ! f))"

lemma load_cong: "(\<And>f. f \<in># fs \<Longrightarrow> s' ! f = s ! f) \<Longrightarrow> load s' fs = load s fs"
  unfolding load_def by (rule arg_cong [of _ _ sum_mset], rule image_mset_cong) simp

lemma load_add [simp]: "load s (add_mset f fs) = mset (s ! f) + load s fs" "load s {#} = {#}"
  by (simp_all add: load_def)

lemma load_union [simp]: "load s (fs + gs) = load s fs + load s gs"
  by (simp add: load_def)

lemma load_update:
  assumes "count fs f = 1" and "f < length s"
  shows "load (s[f := x]) fs + mset (s ! f) = load s fs + mset x"
proof -
  obtain gs where gs: "fs = add_mset f gs" using assms(1) by (metis count_inI multi_member_split zero_neq_one)
  with assms(1) have "f \<notin># gs" by (simp add: not_in_iff)
  then have "load (s[f := x]) gs = load s gs" by (intro load_cong) (metis nth_list_update_neq)
  with gs assms(2) show ?thesis by (simp add: ac_simps)
qed

lemma mset_concat_update:
  assumes "t < length xss"
  shows "mset (concat (xss[t := xs])) + mset (xss ! t) = mset (concat xss) + mset xs"
  using assms
proof (induction xss arbitrary: t)
  case (Cons ys yss)
  then show ?case by (cases t) (auto simp: ac_simps)
qed simp

text \<open>
  \<open>disp_ok N ds\<close>: the frames are partitioned into the free ones, those pending at a node and
  those of \<open>ds\<close>, which are being drained; the queue has no duplicates and is marked in
  \<open>scheduled_\<close>.
\<close>

definition used_of :: "nat list \<Rightarrow> 'p Dispatcher \<Rightarrow> nat multiset" where
  "used_of ds st = mset (concat (dp_pending st)) + mset ds"

definition disp_ok :: "nat \<Rightarrow> nat list \<Rightarrow> 'p Dispatcher \<Rightarrow> bool" where
  "disp_ok N ds st \<longleftrightarrow> length (dp_pending st) = N \<and> length (dp_scheduled st) = N \<and> fp_part (used_of ds st) (dp_pool st)
     \<and> distinct (dp_queue st) \<and> set (dp_queue st) \<subseteq> {..<N}
     \<and> (\<forall>n < N. dp_scheduled st ! n = (if n \<in> set (dp_queue st) then 1 else 0))"

definition waiting :: "'p Dispatcher \<Rightarrow> 'p multiset" where
  "waiting st = load (fp_storage (dp_pool st)) (mset (concat (dp_pending st)))"

text \<open>What the operations leave alone: the frames being drained, and the other nodes' queues.\<close>

definition aside :: "nat \<Rightarrow> nat list \<Rightarrow> 'p Dispatcher \<Rightarrow> 'p Dispatcher \<Rightarrow> bool" where
  "aside t ds st st' \<longleftrightarrow> (\<forall>f \<in> set ds. frame_at st' f = frame_at st f)
     \<and> (\<forall>n. n \<noteq> t \<longrightarrow> dp_pending st' ! n = dp_pending st ! n)
     \<and> dp_queue st' = dp_queue st \<and> dp_scheduled st' = dp_scheduled st"

lemma aside_refl [simp]: "aside t ds st st"
  by (simp add: aside_def)

lemma aside_trans: "aside t ds st st1 \<Longrightarrow> aside t ds st1 st2 \<Longrightarrow> aside t ds st st2"
  by (simp add: aside_def)

lemma need_frame_ok:
  assumes ok: "disp_ok N ds st" and t: "t < N"
  defines "st1 \<equiv> need_frame t st"
  shows "disp_ok N ds st1" and "waiting st1 = waiting st" and "aside t ds st st1"
    and "dp_pending st1 ! t \<noteq> []" and "length (frame_at st1 (last (dp_pending st1 ! t))) < kBurstSize"
proof -
  let ?pend = "dp_pending st ! t"
  let ?u = "used_of ds st"
  have part: "fp_part ?u (dp_pool st)" and len: "t < length (dp_pending st)" using ok t by (simp_all add: disp_ok_def)
  have "disp_ok N ds st1 \<and> waiting st1 = waiting st \<and> aside t ds st st1 \<and> dp_pending st1 ! t \<noteq> []
    \<and> length (frame_at st1 (last (dp_pending st1 ! t))) < kBurstSize"
  proof (cases "?pend = [] \<or> Full (frame_at st (last ?pend))")
    case True
    obtain f p' where acq: "FP_Acquire (dp_pool st) = (f, p')" by fastforce
    note fp = FP_Acquire_part [OF part acq]
    have st1: "st1 = st\<lparr>dp_pool := p', dp_pending := (dp_pending st)[t := ?pend @ [f]]\<rparr>"
      using True acq by (simp add: st1_def need_frame_def Let_def)
    have conc: "mset (concat ((dp_pending st)[t := ?pend @ [f]])) = add_mset f (mset (concat (dp_pending st)))"
      using mset_concat_update [OF len, of "?pend @ [f]"] by simp
    have "load (fp_storage p') (mset (concat (dp_pending st))) = load (fp_storage (dp_pool st)) (mset (concat (dp_pending st)))"
      by (rule load_cong) (auto simp: used_of_def intro!: fp(4))
    then have "waiting st1 = waiting st" by (simp add: st1 waiting_def conc fp(2) del: mset_concat)
    moreover have "disp_ok N ds st1" using ok fp(1) by (simp add: disp_ok_def st1 used_of_def conc del: mset_concat)
    moreover have "aside t ds st st1" using fp(4) by (simp add: aside_def st1 used_of_def)
    ultimately show ?thesis using len by (simp add: st1 fp(2) kBurstSize_def)
  next
    case False
    then have "st1 = st" by (simp add: st1_def need_frame_def Let_def)
    moreover have "last ?pend \<in># ?u"
      using False nth_mem [OF len] last_in_set [of ?pend] by (fastforce simp: used_of_def)
    then have "frame_at st (last ?pend) \<in> set (fp_storage (dp_pool st))" using fp_part_once(2) [OF part] by simp
    then have "length (frame_at st (last ?pend)) \<le> kBurstSize" using part by (simp add: fp_part_def)
    ultimately show ?thesis using ok False by (auto simp: Full_def)
  qed
  then show "disp_ok N ds st1" "waiting st1 = waiting st" "aside t ds st st1" "dp_pending st1 ! t \<noteq> []"
    "length (frame_at st1 (last (dp_pending st1 ! t))) < kBurstSize" by auto
qed

lemma set_frame_pending:
  assumes ok: "disp_ok N ds st" and t: "t < N" "dp_pending st ! t \<noteq> []" and x: "length x \<le> kBurstSize"
  defines "f \<equiv> last (dp_pending st ! t)"
  shows "disp_ok N ds (set_frame f x st)"
    and "waiting (set_frame f x st) + mset (frame_at st f) = waiting st + mset x"
    and "aside t ds st (set_frame f x st)"
proof -
  let ?u = "used_of ds st"
  have part: "fp_part ?u (dp_pool st)" and len: "t < length (dp_pending st)" using ok t by (simp_all add: disp_ok_def)
  have fin: "f \<in> set (concat (dp_pending st))"
    using nth_mem [OF len] last_in_set [OF t(2)] by (auto simp: f_def)
  have flt: "f < length (fp_storage (dp_pool st))"
    using fp_part_once(2) [OF part, of f] fin by (auto simp: used_of_def)
  have "0 < count (mset (concat (dp_pending st))) f" using fin by (simp only: count_greater_zero_iff set_mset_mset)
  moreover have "count (mset (concat (dp_pending st))) f + count (mset ds) f \<le> 1"
    using fp_part_once(1) [OF part, of f] by (simp only: used_of_def count_union)
  ultimately have one: "count (mset (concat (dp_pending st))) f = 1" and nds: "count (mset ds) f = 0" by linarith+
  have "f \<notin> set ds" using nds by (simp only: count_eq_zero_iff set_mset_mset not_False_eq_True)
  then show "aside t ds st (set_frame f x st)"
    by (simp add: aside_def set_frame_def) (metis nth_list_update_neq)
  show "waiting (set_frame f x st) + mset (frame_at st f) = waiting st + mset x"
    using load_update [OF one flt] by (simp add: waiting_def set_frame_def del: mset_concat)
  have "fp_part ?u ((dp_pool st)\<lparr>fp_storage := (fp_storage (dp_pool st))[f := x]\<rparr>)"
    using part x by (auto simp: fp_part_def dest!: set_update_subset_insert [THEN subsetD])
  with ok show "disp_ok N ds (set_frame f x st)" by (simp add: disp_ok_def set_frame_def used_of_def)
qed

lemma RouteInto_ok:
  assumes "disp_ok N ds st" and "t < N"
  shows "\<exists>st'. RouteInto t ms st = Inr st' \<and> disp_ok N ds st' \<and> waiting st' = waiting st + mset ms \<and> aside t ds st st'"
  using assms
proof (induction ms arbitrary: st)
  case Nil
  then show ?case by simp
next
  case (Cons m ms)
  let ?st1 = "need_frame t st"
  let ?f = "last (dp_pending ?st1 ! t)"
  let ?x = "frame_at ?st1 ?f @ [m]"
  note nf = need_frame_ok [OF Cons.prems]
  have lx: "length ?x \<le> kBurstSize" using nf(5) by simp
  note sf = set_frame_pending [OF nf(1) Cons.prems(2) nf(4) lx]
  obtain st' where st': "RouteInto t ms (set_frame ?f ?x ?st1) = Inr st'" "disp_ok N ds st'"
    "waiting st' = waiting (set_frame ?f ?x ?st1) + mset ms" "aside t ds (set_frame ?f ?x ?st1) st'"
    using Cons.IH [OF sf(1) Cons.prems(2)] by blast
  have "RouteInto t (m # ms) st = Inr st'" using st'(1) nf(5) by (simp add: Let_def Push_def)
  moreover have "waiting st' = waiting st + mset (m # ms)" using sf(2) st'(3) nf(2) by simp
  moreover have "aside t ds st st'" using nf(3) sf(3) st'(4) by (blast intro: aside_trans)
  ultimately show ?case using st'(2) by blast
qed

lemma Schedule_ok:
  assumes ok: "disp_ok N ds st" and n: "n < N"
  shows "disp_ok N ds (Schedule n st)" and "waiting (Schedule n st) = waiting st"
    and "set (dp_queue (Schedule n st)) = insert n (set (dp_queue st))"
    and "dp_pending (Schedule n st) = dp_pending st" and "dp_pool (Schedule n st) = dp_pool st"
proof -
  have sch: "dp_scheduled st ! n = (if n \<in> set (dp_queue st) then 1 else 0)" using ok n by (simp add: disp_ok_def)
  then show "set (dp_queue (Schedule n st)) = insert n (set (dp_queue st))" by (auto simp: Schedule_def)
  show "dp_pending (Schedule n st) = dp_pending st" "dp_pool (Schedule n st) = dp_pool st"
    "waiting (Schedule n st) = waiting st" by (simp_all add: Schedule_def waiting_def)
  show "disp_ok N ds (Schedule n st)"
    using ok n sch by (auto simp: disp_ok_def Schedule_def used_of_def nth_list_update)
qed

text \<open>Every node with pending frames is queued.\<close>

definition all_queued :: "'p Dispatcher \<Rightarrow> bool" where
  "all_queued st \<longleftrightarrow> (\<forall>n < length (dp_pending st). dp_pending st ! n \<noteq> [] \<longrightarrow> n \<in> set (dp_queue st))"

lemma route_outs_ok:
  assumes "disp_ok N ds st" and "\<forall>e \<in> set outs. fst (snd e) \<noteq> kInvalid \<and> unat (fst (snd e)) < N" and "all_queued st"
  shows "\<exists>st'. route_outs outs st = Inr st' \<and> disp_ok N ds st'
    \<and> waiting st' = waiting st + sum_list (map (\<lambda>e. mset (snd (snd e))) outs) \<and> all_queued st'
    \<and> (\<forall>f \<in> set ds. frame_at st' f = frame_at st f)
    \<and> set (dp_queue st') \<subseteq> set (dp_queue st) \<union> (\<lambda>e. unat (fst (snd e))) ` set outs
    \<and> (\<forall>n. n \<notin> (\<lambda>e. unat (fst (snd e))) ` set outs \<longrightarrow> dp_pending st' ! n = dp_pending st ! n)"
  using assms
proof (induction outs arbitrary: st)
  case Nil
  then show ?case by simp
next
  case (Cons e outs)
  obtain k t fr where e: "e = (k, t, fr)" by (metis prod_cases3)
  have t: "t \<noteq> kInvalid" "unat t < N" using Cons.prems(2) e by auto
  show ?case
  proof (cases "fr = []")
    case True
    with Cons e show ?thesis by fastforce
  next
    case False
    obtain st1 where st1: "RouteInto (unat t) fr st = Inr st1" "disp_ok N ds st1" "waiting st1 = waiting st + mset fr"
      "aside (unat t) ds st st1" using RouteInto_ok [OF Cons.prems(1) t(2)] by blast
    let ?st2 = "Schedule (unat t) st1"
    note sc = Schedule_ok [OF st1(2) t(2)]
    have len: "length (dp_pending st1) = N" "length (dp_pending st) = N" using st1(2) Cons.prems(1) by (simp_all add: disp_ok_def)
    have q: "all_queued ?st2"
      using Cons.prems(3) st1(4) sc(3,4) len by (auto simp: all_queued_def aside_def)
    from Cons.IH [OF sc(1) _ q] Cons.prems(2) obtain st' where
      st': "route_outs outs ?st2 = Inr st'" "disp_ok N ds st'"
        "waiting st' = waiting ?st2 + sum_list (map (\<lambda>e. mset (snd (snd e))) outs)" "all_queued st'"
        "\<forall>f \<in> set ds. frame_at st' f = frame_at ?st2 f"
        "set (dp_queue st') \<subseteq> set (dp_queue ?st2) \<union> (\<lambda>e. unat (fst (snd e))) ` set outs"
        "\<forall>n. n \<notin> (\<lambda>e. unat (fst (snd e))) ` set outs \<longrightarrow> dp_pending st' ! n = dp_pending ?st2 ! n" by auto
    have "route_outs (e # outs) st = Inr st'" using False t st1(1) st'(1) by (simp add: e)
    moreover have "waiting st' = waiting st + sum_list (map (\<lambda>e. mset (snd (snd e))) (e # outs))"
      using st'(3) st1(3) sc(2) by (simp add: e ac_simps)
    moreover have "\<forall>f \<in> set ds. frame_at st' f = frame_at st f" using st'(5) st1(4) sc(5) by (simp add: aside_def)
    moreover have "set (dp_queue st') \<subseteq> set (dp_queue st) \<union> (\<lambda>e. unat (fst (snd e))) ` set (e # outs)"
      using st'(6) sc(3) st1(4) by (auto simp: e aside_def)
    moreover have "\<forall>n. n \<notin> (\<lambda>e. unat (fst (snd e))) ` set (e # outs) \<longrightarrow> dp_pending st' ! n = dp_pending st ! n"
      using st'(7) sc(4) st1(4) by (auto simp: e aside_def)
    ultimately show ?thesis using st'(2,4) by blast
  qed
qed

section \<open>A pass over the graph\<close>

text \<open>Draining frames is no business of the waiting ones.\<close>

lemma set_frame_drained:
  assumes ok: "disp_ok N (f # fs) st" and x: "length x \<le> kBurstSize"
  shows "disp_ok N (f # fs) (set_frame f x st)" and "waiting (set_frame f x st) = waiting st"
    and "\<And>g. g \<in> set fs \<Longrightarrow> frame_at (set_frame f x st) g = frame_at st g"
    and "dp_queue (set_frame f x st) = dp_queue st" "dp_pending (set_frame f x st) = dp_pending st"
proof -
  let ?u = "used_of (f # fs) st"
  have part: "fp_part ?u (dp_pool st)" using ok by (simp add: disp_ok_def)
  have c: "count (mset (concat (dp_pending st))) f + (count (mset fs) f + 1) \<le> 1"
    using fp_part_once(1) [OF part, of f] by (simp add: used_of_def del: mset_concat)
  then have "count (mset (concat (dp_pending st))) f = 0" "count (mset fs) f = 0" by linarith+
  then have no: "f \<notin># mset (concat (dp_pending st))" "f \<notin> set fs"
    by (simp_all only: count_eq_zero_iff set_mset_mset not_False_eq_True)
  show "waiting (set_frame f x st) = waiting st"
    unfolding waiting_def set_frame_def using no(1) by (simp del: mset_concat, intro load_cong) (metis nth_list_update_neq)
  show "\<And>g. g \<in> set fs \<Longrightarrow> frame_at (set_frame f x st) g = frame_at st g"
    using no(2) by (simp add: set_frame_def) (metis nth_list_update_neq)
  have "fp_part ?u ((dp_pool st)\<lparr>fp_storage := (fp_storage (dp_pool st))[f := x]\<rparr>)"
    using part x by (auto simp: fp_part_def dest!: set_update_subset_insert [THEN subsetD])
  with ok show "disp_ok N (f # fs) (set_frame f x st)" by (simp add: disp_ok_def set_frame_def used_of_def)
  show "dp_queue (set_frame f x st) = dp_queue st" "dp_pending (set_frame f x st) = dp_pending st"
    by (simp_all add: set_frame_def)
qed

lemma release_drained:
  assumes ok: "disp_ok N (f # fs) st"
  defines "st' \<equiv> st\<lparr>dp_pool := FP_Release f (dp_pool st)\<rparr>"
  shows "disp_ok N fs st'" and "waiting st' = waiting st" and "\<And>g. g \<in> set fs \<Longrightarrow> frame_at st' g = frame_at st g"
proof -
  have part: "fp_part (add_mset f (used_of fs st)) (dp_pool st)" using ok by (simp add: disp_ok_def used_of_def)
  note fr = FP_Release_part [OF part]
  show "disp_ok N fs st'" using ok fr(1) by (simp add: disp_ok_def st'_def used_of_def)
  show "waiting st' = waiting st"
    unfolding waiting_def st'_def by (simp del: mset_concat, intro load_cong fr(2)) (simp add: used_of_def)
  show "\<And>g. g \<in> set fs \<Longrightarrow> frame_at st' g = frame_at st g" using fr(2) by (simp add: st'_def used_of_def)
qed

text \<open>The last node of the queue is taken off, and its frames out of its queue of pending ones.\<close>

definition popped :: "'p Dispatcher \<Rightarrow> 'p Dispatcher" where
  "popped st = st\<lparr>dp_queue := butlast (dp_queue st), dp_scheduled := (dp_scheduled st)[last (dp_queue st) := 0]\<rparr>"

definition claimed :: "'p Dispatcher \<Rightarrow> 'p Dispatcher" where
  "claimed st = (popped st)\<lparr>dp_pending := (dp_pending st)[last (dp_queue st) := []]\<rparr>"

lemma DrainNode_popped:
  "DrainNode proc g (last (dp_queue st)) w (popped st) =
     drain_loop proc g (last (dp_queue st)) (dp_pending st ! last (dp_queue st)) w (claimed st)"
  by (simp add: DrainNode_def claimed_def popped_def)

lemma claimed_ok:
  assumes ok: "disp_ok N [] st" and q: "all_queued st" and ne: "dp_queue st \<noteq> []"
  defines "n \<equiv> last (dp_queue st)"
  shows "n < N" and "disp_ok N (dp_pending st ! n) (claimed st)" and "all_queued (claimed st)"
    and "set (dp_queue (claimed st)) = set (dp_queue st) - {n}"
    and "mset (concat ((dp_pending st)[n := []])) + mset (dp_pending st ! n) = mset (concat (dp_pending st))"
proof -
  have nq: "n \<in> set (dp_queue st)" using ne by (simp add: n_def)
  show nN: "n < N" using ok nq by (auto simp: disp_ok_def)
  have len: "length (dp_pending st) = N" and d: "distinct (dp_queue st)" using ok by (simp_all add: disp_ok_def)
  have bl: "set (butlast (dp_queue st)) = set (dp_queue st) - {n}" "distinct (butlast (dp_queue st))"
    using d ne append_butlast_last_id [OF ne] unfolding n_def
    by (metis distinct_append Diff_insert_absorb Un_insert_right butlast_snoc distinct_butlast list.set(1,2)
        not_distinct_conv_prefix set_append sup_bot_right, simp add: distinct_butlast)
  show conc: "mset (concat ((dp_pending st)[n := []])) + mset (dp_pending st ! n) = mset (concat (dp_pending st))"
    using mset_concat_update [of n "dp_pending st" "[]"] nN len by simp
  have st: "claimed st = st\<lparr>dp_queue := butlast (dp_queue st), dp_scheduled := (dp_scheduled st)[n := 0],
      dp_pending := (dp_pending st)[n := []]\<rparr>" by (simp add: claimed_def popped_def n_def)
  show "disp_ok N (dp_pending st ! n) (claimed st)"
    using ok bl nN conc by (auto simp: disp_ok_def st used_of_def nth_list_update simp del: mset_concat)
  show "all_queued (claimed st)"
    using q bl(1) nN len by (auto simp: all_queued_def st nth_list_update)
  show "set (dp_queue (claimed st)) = set (dp_queue st) - {n}" using bl(1) by (simp add: st)
qed

lemma balance_trans:
  fixes a :: "'i multiset"
  assumes "a + b1 + w1 = a1 + b + (w0 + x)" and "a1 + b' + w' = a' + b1 + (w1 + y)"
  shows "a + b' + w' = a' + b + (w0 + x + y)"
proof (rule multiset_eqI)
  fix z
  have "count (a + b1 + w1) z = count (a1 + b + (w0 + x)) z" "count (a1 + b' + w') z = count (a' + b1 + (w1 + y)) z"
    using assms by simp_all
  then show "count (a + b' + w') z = count (a' + b + (w0 + x + y)) z" by simp
qed

text \<open>
  The contract of the nodes of a graph. On a good world and a frame of legal size (an empty one
  for the root), a node does not fail, fills one legal frame per output, and accounts for every
  packet: \<open>came w\<close> and \<open>gone w\<close> are the packets that entered from a device and that left
  for one or were freed. All outputs are wired, away from the root, and upwards in \<open>rank\<close>.
\<close>

locale node_net =
  fixes proc :: "('w, 'p) proc" and g :: "'n Graph" and root :: nat and rank :: "nat \<Rightarrow> nat"
    and okw :: "'w \<Rightarrow> bool" and came gone :: "'w \<Rightarrow> 'i multiset" and ident :: "'p \<Rightarrow> 'i"
  assumes proc_ok: "okw w \<Longrightarrow> n < length (gr_nodes g) \<Longrightarrow> length x \<le> kBurstSize \<Longrightarrow> (n = root \<Longrightarrow> x = [])
      \<Longrightarrow> \<exists>w' x' outs. proc n w x (replicate (Fanout g n) []) = Inr (w', x', outs) \<and> length x' \<le> kBurstSize
        \<and> length outs = Fanout g n \<and> okw w'
        \<and> came w + gone w' + image_mset ident (sum_list (map mset outs)) = came w' + gone w + image_mset ident (mset x)"
    and wired: "n < length (gr_nodes g) \<Longrightarrow> out < Fanout g n \<Longrightarrow> Target g n out \<noteq> kInvalid
      \<and> unat (Target g n out) < length (gr_nodes g) \<and> unat (Target g n out) \<noteq> root \<and> rank n < rank (unat (Target g n out))"
    and root_node: "root < length (gr_nodes g)" and few_nodes: "length (gr_nodes g) < 65536"
begin

definition targets :: "nat \<Rightarrow> nat set" where
  "targets n = (\<lambda>out. unat (Target g n out)) ` {..<Fanout g n}"

lemma RunNode_ok:
  assumes w: "okw w" and n: "n < length (gr_nodes g)" and ok: "disp_ok (length (gr_nodes g)) (f # fs) st"
    and q: "all_queued st" and r: "n = root \<Longrightarrow> frame_at st f = []"
  shows "\<exists>w' st'. RunNode proc g n f w st = Inr (w', st') \<and> okw w' \<and> disp_ok (length (gr_nodes g)) (f # fs) st' \<and> all_queued st'
    \<and> came w + gone w' + image_mset ident (waiting st') = came w' + gone w + image_mset ident (waiting st + mset (frame_at st f))
    \<and> (\<forall>h \<in> set fs. frame_at st' h = frame_at st h) \<and> set (dp_queue st') \<subseteq> set (dp_queue st) \<union> targets n
    \<and> dp_pending st' ! root = dp_pending st ! root"
proof -
  let ?N = "length (gr_nodes g)"
  have "f < length (fp_storage (dp_pool st))"
    using ok fp_part_once(2) [of "used_of (f # fs) st" "dp_pool st" f] by (simp add: disp_ok_def used_of_def)
  then have "length (frame_at st f) \<le> kBurstSize" using ok by (simp add: disp_ok_def fp_part_def)
  from proc_ok [OF w n this r] obtain w' x' outs where p: "proc n w (frame_at st f) (replicate (Fanout g n) []) = Inr (w', x', outs)"
    "length x' \<le> kBurstSize" "length outs = Fanout g n" "okw w'"
    "came w + gone w' + image_mset ident (sum_list (map mset outs)) = came w' + gone w + image_mset ident (mset (frame_at st f))"
    by blast
  note sf = set_frame_drained [OF ok p(2)]
  let ?outs = "map (\<lambda>out. (out, Target g n out, outs ! out)) [0..<Fanout g n]"
  have t: "\<forall>e \<in> set ?outs. fst (snd e) \<noteq> kInvalid \<and> unat (fst (snd e)) < ?N" using wired [OF n] by auto
  have im: "(\<lambda>e. unat (fst (snd e))) ` set ?outs = targets n" by (force simp: targets_def)
  have q': "all_queued (set_frame f x' st)" using q sf(4,5) by (simp add: all_queued_def)
  from route_outs_ok [OF sf(1) t q'] obtain st' where st': "route_outs ?outs (set_frame f x' st) = Inr st'"
    "disp_ok ?N (f # fs) st'" "waiting st' = waiting (set_frame f x' st) + sum_list (map (\<lambda>e. mset (snd (snd e))) ?outs)"
    "all_queued st'" "\<forall>h \<in> set (f # fs). frame_at st' h = frame_at (set_frame f x' st) h"
    "set (dp_queue st') \<subseteq> set (dp_queue (set_frame f x' st)) \<union> targets n"
    "\<forall>k. k \<notin> targets n \<longrightarrow> dp_pending st' ! k = dp_pending (set_frame f x' st) ! k"
    unfolding im by blast
  have "map (\<lambda>e. mset (snd (snd e))) ?outs = map mset outs"
    using p(3) by (intro nth_equalityI) simp_all
  then have wt: "waiting st' = waiting st + sum_list (map mset outs)" using st'(3) sf(2) by simp
  have "root \<notin> targets n" using wired [OF n] by (auto simp: targets_def)
  moreover have "RunNode proc g n f w st = Inr (w', st')" using p(1) st'(1) by (simp add: RunNode_def Let_def)
  moreover have "came w + gone w' + image_mset ident (waiting st') =
      came w' + gone w + image_mset ident (waiting st + mset (frame_at st f))"
    using p(5) by (simp add: wt ac_simps)
  ultimately show ?thesis using p(4) st'(2,4-7) sf(3-5) by auto
qed

lemma drain_loop_ok:
  assumes "okw w" and "n < length (gr_nodes g)" and "disp_ok (length (gr_nodes g)) fs st" and "all_queued st"
    and "n = root \<Longrightarrow> (\<forall>f \<in> set fs. frame_at st f = [])"
  shows "\<exists>w' st'. drain_loop proc g n fs w st = Inr (w', st') \<and> okw w' \<and> disp_ok (length (gr_nodes g)) [] st' \<and> all_queued st'
    \<and> came w + gone w' + image_mset ident (waiting st') =
        came w' + gone w + image_mset ident (waiting st + load (fp_storage (dp_pool st)) (mset fs))
    \<and> set (dp_queue st') \<subseteq> set (dp_queue st) \<union> targets n \<and> dp_pending st' ! root = dp_pending st ! root"
  using assms
proof (induction fs arbitrary: w st)
  case Nil
  then show ?case by simp
next
  case (Cons f fs)
  have r: "n = root \<Longrightarrow> frame_at st f = []" using Cons.prems(5) by simp
  from RunNode_ok [OF Cons.prems(1-4) r] obtain w1 st1 where h: "RunNode proc g n f w st = Inr (w1, st1)" "okw w1"
    "disp_ok (length (gr_nodes g)) (f # fs) st1" "all_queued st1"
    "came w + gone w1 + image_mset ident (waiting st1) = came w1 + gone w + image_mset ident (waiting st + mset (frame_at st f))"
    "\<forall>h \<in> set fs. frame_at st1 h = frame_at st h" "set (dp_queue st1) \<subseteq> set (dp_queue st) \<union> targets n"
    "dp_pending st1 ! root = dp_pending st ! root" by blast
  let ?st2 = "st1\<lparr>dp_pool := FP_Release f (dp_pool st1)\<rparr>"
  note rd = release_drained [OF h(3)]
  have q2: "all_queued ?st2" using h(4) by (simp add: all_queued_def)
  have r2: "n = root \<Longrightarrow> (\<forall>h \<in> set fs. frame_at ?st2 h = [])" using Cons.prems(5) rd(3) h(6) by simp
  from Cons.IH [OF h(2) Cons.prems(2) rd(1) q2 r2] obtain w' st' where
    st': "drain_loop proc g n fs w1 ?st2 = Inr (w', st')" "okw w'" "disp_ok (length (gr_nodes g)) [] st'" "all_queued st'"
    "came w1 + gone w' + image_mset ident (waiting st') =
        came w' + gone w1 + image_mset ident (waiting ?st2 + load (fp_storage (dp_pool ?st2)) (mset fs))"
    "set (dp_queue st') \<subseteq> set (dp_queue ?st2) \<union> targets n" "dp_pending st' ! root = dp_pending ?st2 ! root" by blast
  have ld: "load (fp_storage (dp_pool ?st2)) (mset fs) = load (fp_storage (dp_pool st)) (mset fs)"
    using rd(3) h(6) by (intro load_cong) simp
  have "came w + gone w' + image_mset ident (waiting st') =
      came w' + gone w + (image_mset ident (waiting st) + image_mset ident (mset (frame_at st f))
        + image_mset ident (load (fp_storage (dp_pool st)) (mset fs)))"
    using h(5) st'(5) unfolding rd(2) ld image_mset_union by (rule balance_trans)
  then have "came w + gone w' + image_mset ident (waiting st') =
        came w' + gone w + image_mset ident (waiting st + load (fp_storage (dp_pool st)) (mset (f # fs)))"
    by (simp add: ac_simps)
  with h(1,7,8) st' show ?case by auto
qed

lemma DrainNode_ok:
  assumes w: "okw w" and ok: "disp_ok (length (gr_nodes g)) [] st" and q: "all_queued st" and ne: "dp_queue st \<noteq> []"
  defines "n \<equiv> last (dp_queue st)"
  assumes r: "n = root \<Longrightarrow> (\<forall>f \<in> set (dp_pending st ! root). frame_at st f = [])"
  shows "\<exists>w' st'. DrainNode proc g n w (popped st) = Inr (w', st') \<and> okw w' \<and> disp_ok (length (gr_nodes g)) [] st' \<and> all_queued st'
    \<and> came w + gone w' + image_mset ident (waiting st') = came w' + gone w + image_mset ident (waiting st)
    \<and> set (dp_queue st') \<subseteq> (set (dp_queue st) - {n}) \<union> targets n"
proof -
  let ?fs = "dp_pending st ! n"
  note cl = claimed_ok [OF ok q ne, folded n_def]
  have sel: "dp_pool (claimed st) = dp_pool st" "dp_pending (claimed st) = (dp_pending st)[n := []]"
    by (simp_all add: claimed_def popped_def n_def)
  have wt: "waiting (claimed st) + load (fp_storage (dp_pool (claimed st))) (mset ?fs) = waiting st"
    unfolding waiting_def sel cl(5) [symmetric] by simp
  have "n = root \<Longrightarrow> (\<forall>f \<in> set ?fs. frame_at (claimed st) f = [])" using r by (simp add: sel)
  from drain_loop_ok [OF w cl(1-3) this] show ?thesis
    unfolding DrainNode_popped [of _ _ st, folded n_def] wt cl(4) by blast
qed

text \<open>The measure: a queued node counts more than all nodes above it in rank together.\<close>

definition top_rank :: nat where
  "top_rank = (\<Sum>n < length (gr_nodes g). rank n)"

definition weight :: "nat set \<Rightarrow> nat" where
  "weight Q = (\<Sum>n \<in> Q. (length (gr_nodes g) + 1) ^ (top_rank - rank n))"

lemma rank_le_top: "n < length (gr_nodes g) \<Longrightarrow> rank n \<le> top_rank"
  unfolding top_rank_def by (rule member_le_sum) simp_all

lemma weight_decreases:
  assumes Q: "Q \<subseteq> {..<length (gr_nodes g)}" "n \<in> Q" and Q': "Q' \<subseteq> (Q - {n}) \<union> targets n"
  shows "weight Q' < weight Q"
proof -
  let ?B = "length (gr_nodes g) + 1"
  have nN: "n < length (gr_nodes g)" using Q by auto
  have fin: "finite Q" using Q(1) finite_subset by blast
  have tg: "t < length (gr_nodes g) \<and> rank n < rank t" if "t \<in> targets n" for t
    using that wired [OF nN] by (auto simp: targets_def)
  have tfin: "finite (targets n)" "card (targets n) \<le> length (gr_nodes g)"
    using tg card_mono [of "{..<length (gr_nodes g)}" "targets n"] by (auto simp: targets_def)
  have small: "weight (targets n) < ?B ^ (top_rank - rank n)"
  proof (cases "targets n = {}")
    case True
    then show ?thesis by (simp add: weight_def)
  next
    case False
    then obtain t where "t \<in> targets n" by blast
    then have pos: "rank n < top_rank" using tg [of t] rank_le_top [of t] by linarith
    have "weight (targets n) \<le> (\<Sum>t \<in> targets n. ?B ^ (top_rank - rank n - 1))"
    proof -
      have "top_rank - rank t \<le> top_rank - rank n - 1" if "t \<in> targets n" for t using tg [OF that] by linarith
      then show ?thesis unfolding weight_def by (intro sum_mono power_increasing) auto
    qed
    also have "\<dots> \<le> length (gr_nodes g) * ?B ^ (top_rank - rank n - 1)" using tfin(2) by simp
    also have "\<dots> < ?B * ?B ^ (top_rank - rank n - 1)" by simp
    also have "\<dots> = ?B ^ Suc (top_rank - rank n - 1)" by (rule power_Suc [symmetric])
    also have "Suc (top_rank - rank n - 1) = top_rank - rank n" using pos by linarith
    finally show ?thesis .
  qed
  have "weight Q' \<le> weight ((Q - {n}) \<union> targets n)"
    unfolding weight_def using Q' fin tfin(1) by (intro sum_mono2) auto
  also have "\<dots> \<le> weight (Q - {n}) + weight (targets n)"
    unfolding weight_def using fin tfin(1) by (subst sum_Un_nat) auto
  also have "\<dots> < weight (Q - {n}) + ?B ^ (top_rank - rank n)" using small by simp
  also have "\<dots> = weight Q" using fin Q(2) by (simp add: weight_def sum.remove)
  finally show ?thesis .
qed

text \<open>The dispatcher between two steps of its loop: the root is only there at the start, with empty frames.\<close>

definition ready :: "'w \<Rightarrow> 'p Dispatcher \<Rightarrow> bool" where
  "ready w st \<longleftrightarrow> okw w \<and> disp_ok (length (gr_nodes g)) [] st \<and> all_queued st
     \<and> (root \<in> set (dp_queue st) \<longrightarrow> dp_queue st = [root] \<and> (\<forall>f \<in> set (dp_pending st ! root). frame_at st f = []))"

lemma dispatch_loop_unfold:
  "dispatch_loop proc g w st = (if dp_queue st = [] then Some (Inr (w, st))
     else case DrainNode proc g (last (dp_queue st)) w (popped st) of
       Inl e \<Rightarrow> Some (Inl e) | Inr (w', st') \<Rightarrow> dispatch_loop proc g w' st')"
  by (subst dispatch_loop.simps) (simp add: popped_def Let_def)

lemma drain_step:
  assumes r: "ready w st" and ne: "dp_queue st \<noteq> []"
  obtains w1 st1 where "DrainNode proc g (last (dp_queue st)) w (popped st) = Inr (w1, st1)" "ready w1 st1"
    "weight (set (dp_queue st1)) < weight (set (dp_queue st))"
    "came w + gone w1 + image_mset ident (waiting st1) = came w1 + gone w + image_mset ident (waiting st)"
proof -
  let ?n = "last (dp_queue st)"
  have rd: "okw w" "disp_ok (length (gr_nodes g)) [] st" "all_queued st" using r by (simp_all add: ready_def)
  have nq: "?n \<in> set (dp_queue st)" using ne by simp
  have r0: "?n = root \<Longrightarrow> (\<forall>f \<in> set (dp_pending st ! root). frame_at st f = [])" using r nq unfolding ready_def by metis
  from DrainNode_ok [OF rd ne r0] obtain w1 st1 where
    h: "DrainNode proc g ?n w (popped st) = Inr (w1, st1)" "okw w1" "disp_ok (length (gr_nodes g)) [] st1" "all_queued st1"
      "came w + gone w1 + image_mset ident (waiting st1) = came w1 + gone w + image_mset ident (waiting st)"
      "set (dp_queue st1) \<subseteq> (set (dp_queue st) - {?n}) \<union> targets ?n" by blast
  have sub: "set (dp_queue st) \<subseteq> {..<length (gr_nodes g)}" using rd(2) by (simp add: disp_ok_def)
  have "root \<notin> targets ?n" using wired [of ?n] nq sub by (auto simp: targets_def)
  then have "root \<notin> set (dp_queue st1)" using h(6) r unfolding ready_def by (auto split: if_splits)
  then have "ready w1 st1" using h(2-4) by (simp add: ready_def)
  with that h(1,5) weight_decreases [OF sub nq h(6)] show ?thesis by blast
qed

lemma dispatch_loop_ok:
  assumes "ready w st"
  shows "\<exists>w' st'. dispatch_loop proc g w st = Some (Inr (w', st')) \<and> okw w' \<and> disp_ok (length (gr_nodes g)) [] st'
    \<and> (\<forall>n < length (gr_nodes g). dp_pending st' ! n = []) \<and> dp_queue st' = []
    \<and> came w + gone w' = came w' + gone w + image_mset ident (waiting st)"
  using assms
proof (induction "weight (set (dp_queue st))" arbitrary: w st rule: less_induct)
  case less
  show ?case
  proof (cases "dp_queue st = []")
    case True
    then have e: "\<forall>n < length (gr_nodes g). dp_pending st ! n = []"
      using less.prems by (auto simp: ready_def disp_ok_def all_queued_def)
    then have "concat (dp_pending st) = []" using less.prems by (auto simp: ready_def disp_ok_def in_set_conv_nth)
    then have "waiting st = {#}" by (simp only: waiting_def mset.simps load_add)
    with True e less.prems show ?thesis by (subst dispatch_loop_unfold) (simp add: ready_def add.commute)
  next
    case False
    obtain w1 st1 where h: "DrainNode proc g (last (dp_queue st)) w (popped st) = Inr (w1, st1)" "ready w1 st1"
      "weight (set (dp_queue st1)) < weight (set (dp_queue st))"
      "came w + gone w1 + image_mset ident (waiting st1) = came w1 + gone w + image_mset ident (waiting st)"
      by (rule drain_step [OF less.prems False])
    obtain w' st' where st': "dispatch_loop proc g w1 st1 = Some (Inr (w', st'))" "okw w'"
      "disp_ok (length (gr_nodes g)) [] st'" "\<forall>n < length (gr_nodes g). dp_pending st' ! n = []" "dp_queue st' = []"
      "came w1 + gone w' = came w' + gone w1 + image_mset ident (waiting st1)"
      using less.hyps [OF h(3,2)] by blast
    have "dispatch_loop proc g w st = Some (Inr (w', st'))"
      using False h(1) st'(1) by (subst dispatch_loop_unfold) simp
    moreover have "came w + gone w' = came w' + gone w + image_mset ident (waiting st)"
      using balance_trans [of "came w" "gone w1" "image_mset ident (waiting st1)" "came w1" "gone w" "image_mset ident (waiting st)" "{#}"
          "gone w'" "{#}" "came w'" "{#}"] h(4) st'(6) by simp
    ultimately show ?thesis using st'(2-5) by blast
  qed
qed

text \<open>What every drained node keeps, the whole pass keeps.\<close>

lemma dispatch_loop_keeps:
  assumes step: "\<And>w st w1 st1. ready w st \<Longrightarrow> J w st \<Longrightarrow> dp_queue st \<noteq> []
      \<Longrightarrow> DrainNode proc g (last (dp_queue st)) w (popped st) = Inr (w1, st1) \<Longrightarrow> J w1 st1"
    and "ready w st" and "J w st" and "dispatch_loop proc g w st = Some (Inr (w', st'))"
  shows "J w' st'"
  using assms(2-)
proof (induction "weight (set (dp_queue st))" arbitrary: w st rule: less_induct)
  case less
  show ?case
  proof (cases "dp_queue st = []")
    case True
    with less.prems(2,3) show ?thesis by (simp add: dispatch_loop_unfold [of w st])
  next
    case False
    obtain w1 st1 where h: "DrainNode proc g (last (dp_queue st)) w (popped st) = Inr (w1, st1)" "ready w1 st1"
      "weight (set (dp_queue st1)) < weight (set (dp_queue st))" by (rule drain_step [OF less.prems(1) False])
    have "dispatch_loop proc g w1 st1 = Some (Inr (w', st'))"
      using less.prems(3) False h(1) by (simp add: dispatch_loop_unfold [of w st])
    then show ?thesis using less.hyps [OF h(3,2)] step [OF less.prems(1,2) False h(1)] by blast
  qed
qed

end

section \<open>Starting over\<close>

text \<open>\<open>Reset\<close> gives every pending frame back: whatever an earlier pass left, the pool is whole.\<close>

lemma release_all:
  assumes "fp_part (mset fs + used) p"
  shows "fp_part used (fold FP_Release fs p)"
  using assms
proof (induction fs arbitrary: p)
  case Nil
  then show ?case by simp
next
  case (Cons f fs)
  then have "fp_part (add_mset f (mset fs + used)) p" by simp
  from FP_Release_part(1) [OF this] show ?case using Cons.IH by simp
qed

lemma Reset_ok:
  assumes "length (dp_pending st) = N" and "length (dp_scheduled st) = N" and "fp_part (used_of [] st) (dp_pool st)"
  shows "disp_ok N [] (Reset st)" and "dp_queue (Reset st) = []" and "dp_pending (Reset st) = replicate N []"
proof -
  have "fp_part {#} (fold FP_Release (concat (dp_pending st)) (dp_pool st))"
    using release_all [of "concat (dp_pending st)" "{#}" "dp_pool st"] assms(3) by (simp add: used_of_def del: mset_concat)
  then show "disp_ok N [] (Reset st)"
    using assms by (simp add: disp_ok_def Reset_def used_of_def map_replicate_const)
  show "dp_queue (Reset st) = []" "dp_pending (Reset st) = replicate N []"
    using assms by (simp_all add: Reset_def map_replicate_const)
qed

lemma Dispatcher_new_ok:
  assumes "length (gr_nodes g) < 65536"
  shows "disp_ok (length (gr_nodes g)) [] (Dispatcher_new g)"
proof -
  have "unat (NodeCount g) = length (gr_nodes g)"
    using assms by (simp add: NodeCount_def unat_of_nat take_bit_nat_eq_self)
  then show ?thesis
    by (simp add: disp_ok_def Dispatcher_new_def used_of_def fp_part_def FramePool_new_def del: mset_upt)
qed

text \<open>What \<open>RunOnce\<close> does before its loop, for an empty root frame.\<close>

definition seeded :: "nat \<Rightarrow> 'p Dispatcher \<Rightarrow> 'p Dispatcher" where
  "seeded root st =
     (let st0 = Reset st; (seed, pool) = FP_Acquire (dp_pool st0);
          st1 = set_frame seed (fp_storage pool ! seed) (st0\<lparr>dp_pool := pool\<rparr>);
          st2 = st1\<lparr>dp_pending := (dp_pending st1)[root := dp_pending st1 ! root @ [seed]]\<rparr>
      in Schedule root st2)"

lemma RunOnce_seeded: "RunOnce proc g root [] w st = dispatch_loop proc g w (seeded root st)"
  by (simp add: RunOnce_def seeded_def Let_def split: prod.splits)

context node_net
begin

text \<open>
  One \<open>RunOnce\<close> with an empty root frame, from whatever the previous pass left: it returns, does
  not fail, leaves no frame behind, and accounts for every packet.
\<close>

lemma seeded_ready:
  assumes w: "okw w" and ok: "disp_ok (length (gr_nodes g)) [] st"
  shows "ready w (seeded root st)" and "waiting (seeded root st) = {#}" and "dp_queue (seeded root st) = [root]"
    and "\<And>n f. n < length (gr_nodes g) \<Longrightarrow> f \<in> set (dp_pending (seeded root st) ! n) \<Longrightarrow> frame_at (seeded root st) f = []"
proof -
  let ?N = "length (gr_nodes g)"
  let ?st0 = "Reset st"
  have parts: "length (dp_pending st) = ?N" "length (dp_scheduled st) = ?N" "fp_part (used_of [] st) (dp_pool st)"
    using ok by (simp_all add: disp_ok_def)
  note rs = Reset_ok [OF parts]
  obtain seed pool where acq: "FP_Acquire (dp_pool ?st0) = (seed, pool)" by fastforce
  have p0: "fp_part {#} (dp_pool ?st0)" using rs(1,3) by (simp add: disp_ok_def used_of_def)
  note fp = FP_Acquire_part [OF p0 acq]
  let ?st1 = "set_frame seed [] (?st0\<lparr>dp_pool := pool\<rparr>)"
  let ?st2 = "?st1\<lparr>dp_pending := (dp_pending ?st1)[root := dp_pending ?st1 ! root @ [seed]]\<rparr>"
  let ?st3 = "Schedule root ?st2"
  have pend: "dp_pending ?st2 = (replicate ?N [])[root := [seed]]"
    using rs(3) root_node by (simp add: set_frame_def)
  have conc: "mset (concat ((replicate ?N [])[root := [seed]])) = {#seed#}"
    using mset_concat_update [of root "replicate ?N []" "[seed]"] root_node by simp
  have same: "(fp_storage pool)[seed := []] = fp_storage pool" using fp(2) by (metis list_update_id)
  have pool2: "dp_pool ?st2 = pool" by (simp add: set_frame_def same)
  have q2: "dp_queue ?st2 = []" "dp_scheduled ?st2 = replicate ?N 0"
    using rs(2) parts(2) by (simp_all add: set_frame_def Reset_def map_replicate_const)
  have ok2: "disp_ok ?N [] ?st2"
    unfolding disp_ok_def used_of_def pend q2 pool2 conc using fp(1) by simp
  note sc = Schedule_ok [OF ok2 root_node]
  have pend3: "dp_pending ?st3 = (replicate ?N [])[root := [seed]]" using sc(4) pend by simp
  have pool3: "dp_pool ?st3 = pool" using sc(5) pool2 by simp
  have q3: "dp_queue ?st3 = [root]" using q2 root_node by (simp add: Schedule_def)
  have aq: "all_queued ?st3" unfolding all_queued_def pend3 q3
    by (simp, metis nth_list_update_neq nth_replicate)
  have empty: "frame_at ?st3 f = []" if "n < ?N" "f \<in> set (dp_pending ?st3 ! n)" for n f
    using that fp(2) unfolding pend3 pool3 by (cases "n = root") auto
  have wt: "waiting ?st3 = {#}" unfolding waiting_def pend3 pool3 conc by (simp add: fp(2))
  have "ready w ?st3" using w sc(1) aq q3 empty [OF root_node] by (simp add: ready_def)
  moreover have "seeded root st = ?st3" unfolding seeded_def Let_def acq by (simp add: fp(2))
  ultimately show "ready w (seeded root st)" "waiting (seeded root st) = {#}" "dp_queue (seeded root st) = [root]"
    "\<And>n f. n < length (gr_nodes g) \<Longrightarrow> f \<in> set (dp_pending (seeded root st) ! n) \<Longrightarrow> frame_at (seeded root st) f = []"
    using wt empty q3 by simp_all
qed

lemma RunOnce_ok:
  assumes w: "okw w" and ok: "disp_ok (length (gr_nodes g)) [] st"
  shows "\<exists>w' st'. RunOnce proc g root [] w st = Some (Inr (w', st')) \<and> okw w' \<and> disp_ok (length (gr_nodes g)) [] st'
    \<and> dp_queue st' = [] \<and> (\<forall>n < length (gr_nodes g). dp_pending st' ! n = []) \<and> came w + gone w' = came w' + gone w"
  using dispatch_loop_ok [OF seeded_ready(1) [OF assms]] seeded_ready(2) [OF assms] by (auto simp: RunOnce_seeded)

end

end
