(* ===== verification/Lb_Invariant.thy ===== *)
theory Lb_Invariant
  imports Lb_Node
begin

text \<open>
  The invariant of the load-balancing node and its preservation by every packet. The ledger of
  a backend slot is the bag of its free ports together with the ports its flows hold; it never
  changes. From it follow that a port is never lost and never given to two flows.
\<close>

section \<open>The port ledger\<close>

definition holds :: "nat \<Rightarrow> NatFlow \<Rightarrow> bool" where
  "holds b f \<longleftrightarrow> occupied f \<and> unat (backend_idx f) = b \<and> snat_port f \<noteq> 0"

definition held_ports :: "nat \<Rightarrow> NatFlow list \<Rightarrow> u16 multiset" where
  "held_ports b fs = mset (map snat_port (filter (holds b) fs))"

definition hold1 :: "nat \<Rightarrow> NatFlow \<Rightarrow> u16 multiset" where
  "hold1 b f = (if holds b f then {#snat_port f#} else {#})"

lemma held_ports_Cons [simp]: "held_ports b (g # gs) = hold1 b g + held_ports b gs"
  by (simp add: held_ports_def hold1_def)

lemma held_ports_update:
  assumes "i < length fs"
  shows "held_ports b (fs[i := f]) + hold1 b (fs ! i) = held_ports b fs + hold1 b f"
  using assms
proof (induction fs arbitrary: i)
  case Nil
  then show ?case by simp
next
  case (Cons g gs)
  then show ?case
    by (cases i) (auto simp: ac_simps)
qed

lemma held_ports_core:
  assumes "map core fs = map core gs"
  shows "held_ports b fs = held_ports b gs"
  using assms
proof (induction fs arbitrary: gs)
  case Nil
  then show ?case by simp
next
  case (Cons f fs)
  then obtain g gs' where gs: "gs = g # gs'" "core f = core g" "map core fs = map core gs'" by auto
  then have "holds b f = holds b g" "snat_port f = snat_port g" by (auto simp: holds_def core_def)
  with gs Cons.IH [of gs'] show ?case by (simp add: held_ports_def)
qed

definition ledger :: "LbNode \<Rightarrow> nat \<Rightarrow> u16 multiset" where
  "ledger st b = mset (free_ports (lb_pools st ! b)) + held_ports b (nt_slots (lb_nat st))"

text \<open>
  The invariant, for the bag \<open>P\<close> of ports each backend slot started with: the table's
  invariant, one pool per backend slot, flows that name a backend slot and, while live, hold a
  port, and balanced ledgers.
\<close>

definition flow_ok :: "NatFlow \<Rightarrow> bool" where
  "flow_ok f \<longleftrightarrow> (occupied f \<longrightarrow> unat (backend_idx f) < kMaxBackends \<and> (\<not> reaped f \<longrightarrow> snat_port f \<noteq> 0))"

definition lb_inv :: "isa \<Rightarrow> u16 multiset \<Rightarrow> LbNode \<Rightarrow> bool" where
  "lb_inv I P st \<longleftrightarrow> nat_inv I (lb_nat st) \<and> length (lb_pools st) = kMaxBackends
     \<and> (\<forall>f \<in> set (nt_slots (lb_nat st)). flow_ok f)
     \<and> (\<forall>b < kMaxBackends. ledger st b = P) \<and> 0 \<notin># P"

lemma lb_invD:
  assumes "lb_inv I P st"
  shows "nat_inv I (lb_nat st)" and "nat_wf (lb_nat st)" and "length (lb_pools st) = kMaxBackends"
    and "\<And>i. i < length (nt_slots (lb_nat st)) \<Longrightarrow> flow_ok (slot (lb_nat st) i)"
    and "\<And>b. b < kMaxBackends \<Longrightarrow> ledger st b = P" and "0 \<notin># P"
  using assms by (auto simp: lb_inv_def)

text \<open>A change of the table that keeps every flow's identity.\<close>

lemma lb_inv_quiet:
  assumes inv: "lb_inv I P st" and q: "quiet (lb_nat st) t'" and ni: "nat_inv I t'"
  shows "lb_inv I P (st\<lparr>lb_nat := t'\<rparr>)"
proof -
  have "map core (nt_slots t') = map core (nt_slots (lb_nat st))"
    using q by (auto simp: quiet_def intro: nth_equalityI)
  then have held: "held_ports b (nt_slots t') = held_ports b (nt_slots (lb_nat st))" for b
    by (rule held_ports_core)
  have "flow_ok f" if fin: "f \<in> set (nt_slots t')" for f
  proof -
    obtain i where i: "i < length (nt_slots (lb_nat st))" "f = slot t' i"
      using fin q unfolding in_set_conv_nth quiet_def by metis
    with lb_invD(4) [OF inv i(1)] quiet_fields [OF q i(1)] q show ?thesis
      by (auto simp: flow_ok_def quiet_def)
  qed
  with inv ni held show ?thesis by (simp add: lb_inv_def ledger_def)
qed

lemma flow_okD_live: "flow_ok f \<Longrightarrow> live f \<Longrightarrow> snat_port f \<noteq> 0 \<and> unat (backend_idx f) < kMaxBackends"
  by (simp add: flow_ok_def live_def)

section \<open>Teardown\<close>

definition fin_bits :: "NatFlow \<Rightarrow> Direction \<Rightarrow> u8 \<Rightarrow> NatFlow" where
  "fin_bits flow dir flags = (if flags AND kTcpFin \<noteq> 0
     then flow\<lparr>fin_seen := fin_seen flow OR (if dir = kForward then kFinForward else kFinReverse)\<rparr>
     else flow)"

definition closes :: "NatFlow \<Rightarrow> Direction \<Rightarrow> u8 \<Rightarrow> bool" where
  "closes flow dir flags \<longleftrightarrow> flags AND kTcpRst \<noteq> 0
     \<or> (flags AND kTcpFin \<noteq> 0 \<and> fin_seen (fin_bits flow dir flags) = kFinForward OR kFinReverse)"

lemma fin_bits_sel [simp]:
  "core (fin_bits f d fl) = core f" "live (fin_bits f d fl) = live f"
  "reaped (fin_bits f d fl) = reaped f" "snat_port (fin_bits f d fl) = snat_port f"
  "backend_idx (fin_bits f d fl) = backend_idx f" "occupied (fin_bits f d fl) = occupied f"
  "fwd_key (fin_bits f d fl) = fwd_key f" "last_seen_ms (fin_bits f d fl) = last_seen_ms f"
  by (simp_all add: fin_bits_def)

text \<open>
  On a live flow, \<open>MaybeTeardown\<close> either records the FIN bit, or closes the flow: the slot
  is reaped, loses its port, and the port goes back to the flow's backend.
\<close>

lemma MaybeTeardown_eq:
  fixes dir flags
  assumes i: "i < length (nt_slots (lb_nat st))" and lv: "live (slot (lb_nat st) i)"
    and port: "snat_port (slot (lb_nat st) i) \<noteq> 0"
  defines "f \<equiv> fin_bits (slot (lb_nat st) i) dir flags"
  shows "\<not> closes (slot (lb_nat st) i) dir flags \<Longrightarrow>
      MaybeTeardown st i dir flags = st\<lparr>lb_nat := set_slot (lb_nat st) i f\<rparr>"
    and "closes (slot (lb_nat st) i) dir flags \<Longrightarrow>
      \<exists>t'. Close (set_slot (lb_nat st) i f) i = (t', snat_port f, backend_idx f)
        \<and> nt_slots t' = (nt_slots (lb_nat st))[i := f\<lparr>reaped := True, snat_port := 0\<rparr>]
        \<and> MaybeTeardown st i dir flags = pool_release (backend_idx f) (snat_port f) (st\<lparr>lb_nat := t'\<rparr>)"
proof -
  show "\<not> closes (slot (lb_nat st) i) dir flags \<Longrightarrow>
      MaybeTeardown st i dir flags = st\<lparr>lb_nat := set_slot (lb_nat st) i f\<rparr>"
    by (auto simp: MaybeTeardown_def closes_def fin_bits_def f_def Let_def)
  assume c: "closes (slot (lb_nat st) i) dir flags"
  let ?u = "set_slot (lb_nat st) i f"
  obtain t' port' idx where cl: "Close ?u i = (t', port', idx)" by (metis prod_cases3)
  have li: "i < length (nt_slots ?u)" "live (slot ?u i)" using i lv by (auto simp: f_def)
  note cs = Close_slots [OF li cl]
  have "port' = snat_port f" "idx = backend_idx f" using cs(1,2) i by auto
  moreover have "nt_slots t' = (nt_slots (lb_nat st))[i := f\<lparr>reaped := True, snat_port := 0\<rparr>]"
    using cs(3) i by (simp add: set_slot_def)
  moreover have "MaybeTeardown st i dir flags =
      (if port' \<noteq> 0 then pool_release idx port' (st\<lparr>lb_nat := t'\<rparr>) else st\<lparr>lb_nat := t'\<rparr>)"
    using c cl unfolding MaybeTeardown_def closes_def
    by (auto simp: fin_bits_def f_def Let_def)
  ultimately show "\<exists>t'. Close ?u i = (t', snat_port f, backend_idx f)
        \<and> nt_slots t' = (nt_slots (lb_nat st))[i := f\<lparr>reaped := True, snat_port := 0\<rparr>]
        \<and> MaybeTeardown st i dir flags = pool_release (backend_idx f) (snat_port f) (st\<lparr>lb_nat := t'\<rparr>)"
    using cl port by (auto simp: f_def)
qed

lemma pool_release_sel [simp]:
  "lb_nat (pool_release idx p st) = lb_nat st" "length (lb_pools (pool_release idx p st)) = length (lb_pools st)"
  "lb_stats (pool_release idx p st) = lb_stats st"
  by (simp_all add: pool_release_def)

lemma pool_release_free:
  assumes "unat idx < length (lb_pools st)"
  shows "mset (free_ports (lb_pools (pool_release idx p st) ! b)) =
    mset (free_ports (lb_pools st ! b)) + (if b = unat idx then {#p#} else {#})"
  using assms pp.release_gives [of p "lb_pools st ! unat idx"]
  by (auto simp: pool_release_def nth_list_update)

lemma MaybeTeardown_inv [inv_intros]:
  assumes inv: "lb_inv I P st" and i: "i < length (nt_slots (lb_nat st))"
    and lv: "live (slot (lb_nat st) i)"
  shows "lb_inv I P (MaybeTeardown st i dir flags)"
proof -
  let ?t = "lb_nat st"
  let ?f = "fin_bits (slot ?t i) dir flags"
  let ?u = "set_slot ?t i ?f"
  have ok: "flow_ok (slot ?t i)" using inv i by (rule lb_invD(4))
  have port: "snat_port (slot ?t i) \<noteq> 0" and idx: "unat (backend_idx (slot ?t i)) < kMaxBackends"
    using flow_okD_live [OF ok lv] by auto
  have wfu: "nat_wf ?u" using lb_invD(2) [OF inv] i by (rule nat_wf_set_slot) simp
  have qu: "quiet ?t ?u" using i by (auto simp: quiet_def)
  have invu: "nat_inv I ?u" using lb_invD(1) [OF inv] wfu qu by (rule nat_inv_quiet)
  note eq = MaybeTeardown_eq [OF i lv port, of dir flags]
  show ?thesis
  proof (cases "closes (slot ?t i) dir flags")
    case False
    with eq(1) lb_inv_quiet [OF inv qu invu] show ?thesis by simp
  next
    case True
    then obtain t' where cl: "Close ?u i = (t', snat_port ?f, backend_idx ?f)"
      and sl: "nt_slots t' = (nt_slots ?t)[i := ?f\<lparr>reaped := True, snat_port := 0\<rparr>]"
      and td: "MaybeTeardown st i dir flags = pool_release (backend_idx ?f) (snat_port ?f) (st\<lparr>lb_nat := t'\<rparr>)"
      using eq(2) by blast
    let ?st = "pool_release (backend_idx ?f) (snat_port ?f) (st\<lparr>lb_nat := t'\<rparr>)"
    have "nat_inv I t'" using Close_inv [OF invu _ cl] i by simp
    moreover have "\<forall>f \<in> set (nt_slots t'). flow_ok f"
    proof
      fix f
      assume "f \<in> set (nt_slots t')"
      then have "f \<in> set (nt_slots ?t) \<or> f = ?f\<lparr>reaped := True, snat_port := 0\<rparr>"
        using set_update_subset_insert [of "nt_slots ?t" i] unfolding sl by blast
      with inv ok show "flow_ok f" by (auto simp: lb_inv_def flow_ok_def)
    qed
    moreover have "ledger ?st b = P" if b: "b < kMaxBackends" for b
    proof -
      have held: "held_ports b (nt_slots t') + hold1 b (slot ?t i) = held_ports b (nt_slots ?t)"
        using held_ports_update [OF i, of b "?f\<lparr>reaped := True, snat_port := 0\<rparr>"]
        by (simp add: sl hold1_def holds_def)
      have "hold1 b (slot ?t i) = (if b = unat (backend_idx ?f) then {#snat_port ?f#} else {#})"
        using lv port by (auto simp: hold1_def holds_def live_def)
      then have "mset (free_ports (lb_pools ?st ! b)) = mset (free_ports (lb_pools st ! b)) + hold1 b (slot ?t i)"
        using pool_release_free [of "backend_idx ?f" "st\<lparr>lb_nat := t'\<rparr>" "snat_port ?f" b] idx lb_invD(3) [OF inv]
        by simp
      then have "ledger ?st b = mset (free_ports (lb_pools st ! b)) + (held_ports b (nt_slots t') + hold1 b (slot ?t i))"
        by (simp add: ledger_def ac_simps)
      then show ?thesis using lb_invD(5) [OF inv b] by (simp add: held ledger_def)
    qed
    ultimately show ?thesis
      using inv unfolding td by (simp add: lb_inv_def)
  qed
qed

section \<open>Creating a flow\<close>

text \<open>What the node needs of the pool it loaded: a constructed pool of at most
  \<open>kMaxBackends\<close> slots, with an enabled one.\<close>

definition usable_pool :: "BackendPool \<Rightarrow> bool" where
  "usable_pool pool \<longleftrightarrow> pool_ok pool \<and> bp_active pool \<noteq> [] \<and> length (bp_slots pool) \<le> kMaxBackends"

definition taken :: "LbNode \<Rightarrow> u8 \<Rightarrow> PortPool \<Rightarrow> NatTable \<Rightarrow> LbNode" where
  "taken st idx q t' = st\<lparr>lb_pools := (lb_pools st)[unat idx := q], lb_nat := t'\<rparr>"

lemma new_flow_sel [simp]:
  "fwd_key (new_flow m k b p i) = k" "snat_port (new_flow m k b p i) = p"
  "backend_idx (new_flow m k b p i) = i" "\<not> reaped (new_flow m k b p i)"
  "backend_ip (new_flow m k b p i) = ip_value (bi_ip b)" "backend_port (new_flow m k b p i) = bi_port b"
  "backend_mac (new_flow m k b p i) = bi_mac b" "client_mac (new_flow m k b p i) = meta_client_mac m"
  "fin_seen (new_flow m k b p i) = 0"
  by (simp_all add: new_flow_def NatFlow_default_def)

lemma Release_Acquire:
  assumes "Acquire p = (x, q)" and "x \<noteq> 0"
  shows "Release x q = p"
  using assms by (auto simp: Acquire_def Release_def split: if_splits)

lemma CreateFlow_cases:
  assumes inv: "lb_inv I P st" and pool: "usable_pool pool"
  obtains (exhausted) idx where "Select I pool key = Inr idx"
      "free_ports (lb_pools st ! unat idx) = []" "CreateFlow I st meta key pool now = Inr (st, None)"
  | (full) idx where "Select I pool key = Inr idx"
      "\<And>i. i < length (nt_slots (lb_nat st)) \<Longrightarrow> \<not> usable (lb_nat st) now i"
      "CreateFlow I st meta key pool now = Inr (st, None)"
  | (ok) idx sport q t' ep ei i where "Select I pool key = Inr idx" "idx \<in> set (bp_active pool)"
      "unat idx < length (bp_slots pool)" "unat idx < kMaxBackends"
      "Acquire (lb_pools st ! unat idx) = (sport, q)" "sport \<noteq> 0"
      "Insert I (lb_nat st) (new_flow meta key (bp_slots pool ! unat idx) sport idx) now = (t', ep, ei, Some i)"
      "CreateFlow I st meta key pool now =
         Inr ((if ep \<noteq> 0 then pool_release ei ep (taken st idx q t') else taken st idx q t')
              \<lparr>lb_stats := count_flow idx (lb_stats st)\<rparr>, Some i)"
proof -
  obtain idx info where idx: "Select I pool key = Inr idx" "idx \<in> set (bp_active pool)"
    "At pool idx = Inr info" "info = bp_slots pool ! unat idx" "unat idx < length (bp_slots pool)"
    using pool Select_At [of pool I key] unfolding usable_pool_def by blast
  have lt: "unat idx < kMaxBackends" using idx(5) pool by (simp add: usable_pool_def)
  then have lp: "unat idx < length (lb_pools st)" using lb_invD(3) [OF inv] by simp
  obtain sport q where acq: "Acquire (lb_pools st ! unat idx) = (sport, q)" by fastforce
  have z: "0 \<notin># mset (free_ports (lb_pools st ! unat idx))"
    using lb_invD(5) [OF inv lt] lb_invD(6) [OF inv] by (metis UnCI ledger_def set_mset_union)
  show thesis
  proof (cases "sport = 0")
    case True
    then have e: "free_ports (lb_pools st ! unat idx) = []" "q = lb_pools st ! unat idx"
      using pp.acquire_fail [OF z] acq by auto
    have "CreateFlow I st meta key pool now = Inr (st, None)"
      using idx acq True e(2) by (simp add: CreateFlow_def)
    with idx(1) e(1) exhausted show thesis by blast
  next
    case False
    let ?flow = "new_flow meta key (bp_slots pool ! unat idx) sport idx"
    have wf: "nat_wf (lb_nat st)" using inv by (rule lb_invD)
    from wf show thesis
    proof (cases rule: Insert_cases [where now = now and I = I and flow = ?flow])
      case full
      have "pool_release idx sport (st\<lparr>lb_pools := (lb_pools st)[unat idx := q]\<rparr>) = st"
        using Release_Acquire [OF acq False] lp by (simp add: pool_release_def)
      then have "CreateFlow I st meta key pool now = Inr (st, None)"
        using idx acq False full(2) by (simp add: CreateFlow_def Let_def)
      with idx(1) full(3) that(2) show thesis by blast
    next
      case (ok i)
      obtain t' ep ei where ins: "Insert I (lb_nat st) ?flow now = (t', ep, ei, Some i)" using ok(4) by blast
      have "CreateFlow I st meta key pool now =
         Inr ((if ep \<noteq> 0 then pool_release ei ep (taken st idx q t') else taken st idx q t')
              \<lparr>lb_stats := count_flow idx (lb_stats st)\<rparr>, Some i)"
        using idx acq False ins by (auto simp: CreateFlow_def Let_def taken_def pool_release_def)
      with idx lt acq False ins that(3) show thesis by blast
    qed
  qed
qed

lemma taken_free:
  assumes "Acquire (lb_pools st ! unat idx) = (sport, q)" and "sport \<noteq> 0"
    and "unat idx < length (lb_pools st)"
  shows "mset (free_ports (lb_pools st ! b)) =
    mset (free_ports (lb_pools (taken st idx q t') ! b)) + (if b = unat idx then {#sport#} else {#})"
proof (cases "b = unat idx")
  case True
  have "lb_pools (taken st idx q t') ! unat idx = q" using assms(3) by (simp add: taken_def)
  moreover have "mset (free_ports (lb_pools st ! unat idx)) = add_mset sport (mset (free_ports q))"
    using assms(1,2) by (auto simp: Acquire_def mset_last_butlast split: if_splits)
  ultimately show ?thesis unfolding True by (simp only: simp_thms if_True add_mset_add_single [symmetric])
next
  case False
  then show ?thesis by (simp add: taken_def)
qed

lemma CreateFlow_returns:
  assumes "lb_inv I P st" and "usable_pool pool"
  shows "\<exists>st' r. CreateFlow I st meta key pool now = Inr (st', r)"
  using assms
proof (cases rule: CreateFlow_cases [where key = key and meta = meta and now = now])
qed auto

lemma CreateFlow_inv [inv_intros]:
  assumes inv: "lb_inv I P st" and pool: "usable_pool pool"
    and fresh: "\<And>j. j < length (nt_slots (lb_nat st)) \<Longrightarrow> live (slot (lb_nat st) j) \<Longrightarrow> fwd_key (slot (lb_nat st) j) \<noteq> key"
    and run: "CreateFlow I st meta key pool now = Inr (st', r)"
  shows "lb_inv I P st'"
  using inv pool
proof (cases rule: CreateFlow_cases [where key = key and meta = meta and now = now])
  case (ok idx sport q t' ep ei i)
  let ?t = "lb_nat st"
  let ?f = "new_flow meta key (bp_slots pool ! unat idx) sport idx"
  let ?s = "if ep \<noteq> 0 then pool_release ei ep (taken st idx q t') else taken st idx q t'"
  have st': "st' = ?s\<lparr>lb_stats := count_flow idx (lb_stats st)\<rparr>" using ok(8) run by simp
  have wf: "nat_wf ?t" using inv by (rule lb_invD)
  note pl = Insert_Some [OF wf ok(7)]
  have sl: "nt_slots t' = (nt_slots ?t)[i := placed ?f now]" by (simp add: pl(3))
  have oldok: "flow_ok (slot ?t i)" using inv pl(1) by (rule lb_invD)
  have nat: "nat_inv I t'"
    using fresh by (intro Insert_inv [OF lb_invD(1) [OF inv] ok(7)]) auto
  have lp: "length (lb_pools st) = kMaxBackends" using inv by (rule lb_invD)
  have ei: "unat ei < kMaxBackends" if "ep \<noteq> 0"
    using that pl(4,5) oldok by (auto simp: flow_ok_def split: if_splits)
  have flows: "flow_ok f" if "f \<in> set (nt_slots t')" for f
  proof -
    have "f \<in> set (nt_slots ?t) \<or> f = placed ?f now"
      using that set_update_subset_insert [of "nt_slots ?t" i] unfolding sl by blast
    with inv ok(4,6) show ?thesis by (auto simp: lb_inv_def flow_ok_def placed_def)
  qed
  have led: "ledger ?s b = P" if b: "b < kMaxBackends" for b
  proof -
    define A where "A = hold1 b (slot ?t i)"
    define B where "B = hold1 b (placed ?f now)"
    have B: "B = (if b = unat idx then {#sport#} else {#})"
      using ok(6) by (auto simp: B_def hold1_def holds_def placed_def)
    have A: "A = (if ep \<noteq> 0 \<and> b = unat ei then {#ep#} else {#})"
      unfolding A_def pl(4,5) hold1_def holds_def by (cases "occupied (slot ?t i)") auto
    have held: "held_ports b (nt_slots t') + A = held_ports b (nt_slots ?t) + B"
      unfolding sl A_def B_def by (rule held_ports_update [OF pl(1)])
    have f1: "mset (free_ports (lb_pools st ! b)) = mset (free_ports (lb_pools (taken st idx q t') ! b)) + B"
      using taken_free [OF ok(5,6), of b t'] ok(4) lp B by simp
    have f2: "mset (free_ports (lb_pools ?s ! b)) = mset (free_ports (lb_pools (taken st idx q t') ! b)) + A"
      using pool_release_free [of ei "taken st idx q t'" ep b] ei lp A by (auto simp: taken_def)
    have "lb_nat ?s = t'" by (simp add: taken_def)
    then have "ledger ?s b = mset (free_ports (lb_pools (taken st idx q t') ! b)) + (held_ports b (nt_slots t') + A)"
      using f2 by (simp add: ledger_def ac_simps)
    also have "\<dots> = ledger st b" using f1 unfolding held by (simp add: ledger_def ac_simps)
    finally show ?thesis using lb_invD(5) [OF inv b] by simp
  qed
  have "lb_nat st' = t'" "length (lb_pools st') = kMaxBackends" "\<And>b. ledger st' b = ledger ?s b"
    using lp by (auto simp: st' taken_def ledger_def)
  with nat flows led lb_invD(6) [OF inv] show ?thesis by (simp add: lb_inv_def)
qed (use inv run in auto)

section \<open>Handling a packet\<close>

text \<open>
  The ways a packet goes through \<open>HandlePacket\<close>, with the slot that serves it: it misses and
  is refused, no flow can be made, or it is served by a live flow of a table whose invariant
  holds.
\<close>

lemma lb_stats_inv: "lb_inv I P (st\<lparr>lb_stats := s\<rparr>) = lb_inv I P st"
  by (simp add: lb_inv_def ledger_def)

lemma CreateFlow_slot:
  assumes inv: "lb_inv I P st" and pool: "usable_pool pool"
    and run: "CreateFlow I st meta key pool now = Inr (st', Some i)"
  shows "i < length (nt_slots (lb_nat st')) \<and> live (slot (lb_nat st') i)
    \<and> fwd_key (slot (lb_nat st') i) = key \<and> last_seen_ms (slot (lb_nat st') i) = now"
  using inv pool
proof (cases rule: CreateFlow_cases [where key = key and meta = meta and now = now])
  case (ok idx sport q t' ep ei j)
  note pl = Insert_Some [OF lb_invD(2) [OF inv] ok(7)]
  have "lb_nat st' = t'" "j = i" using ok(8) run by (auto simp: taken_def)
  with pl(1) show ?thesis
    by (auto simp: pl(3) placed_def live_def)
qed (use run in auto)

lemma CreateFlow_slots:
  assumes inv: "lb_inv I P st" and pool: "usable_pool pool"
    and run: "CreateFlow I st meta key pool now = Inr (st', r)"
  shows "nt_timeout (lb_nat st') = nt_timeout (lb_nat st)
    \<and> (r = None \<longrightarrow> st' = st)
    \<and> (\<forall>i. r = Some i \<longrightarrow> i < length (nt_slots (lb_nat st)) \<and> usable (lb_nat st) now i
        \<and> (\<exists>f. nt_slots (lb_nat st') = (nt_slots (lb_nat st))[i := f] \<and> fwd_key f = key))"
  using inv pool
proof (cases rule: CreateFlow_cases [where key = key and meta = meta and now = now])
  case (ok idx sport q t' ep ei j)
  note pl = Insert_Some [OF lb_invD(2) [OF inv] ok(7)]
  have st: "lb_nat st' = t'" "r = Some j" using ok(8) run by (auto simp: taken_def)
  then have "nt_slots (lb_nat st') = (nt_slots (lb_nat st))[j := placed (new_flow meta key (bp_slots pool ! unat idx) sport idx) now]"
    "nt_timeout (lb_nat st') = nt_timeout (lb_nat st)"
    by (simp_all add: pl(3))
  with pl(1,2) st show ?thesis by (auto simp: placed_def)
qed (use run in auto)

lemma not_Expired_live: "occupied f \<Longrightarrow> \<not> Expired t f now \<Longrightarrow> live f"
  by (auto simp: Expired_def live_def)

lemma LookupForward_served:
  assumes inv: "lb_inv I P st" and run: "LookupForward I (lb_nat st) key now = (t1, r)"
  shows "lb_inv I P (st\<lparr>lb_nat := t1\<rparr>)"
    and "\<And>i. r = Some i \<Longrightarrow> i < length (nt_slots t1) \<and> live (slot t1 i) \<and> fwd_key (slot t1 i) = key
    \<and> last_seen_ms (slot t1 i) = now"
proof -
  have ni: "nat_inv I (lb_nat st)" using inv by (rule lb_invD)
  note sp = LookupForward_spec [OF nat_inv_wf [OF ni] run]
  show "lb_inv I P (st\<lparr>lb_nat := t1\<rparr>)"
    using inv sp(3) LookupForward_inv [OF ni run] by (rule lb_inv_quiet)
  fix i
  assume "r = Some i"
  with LookupForward_Some_iff [OF ni run, of i] sp(3) sp(4) [of i]
  show "i < length (nt_slots t1) \<and> live (slot t1 i) \<and> fwd_key (slot t1 i) = key \<and> last_seen_ms (slot t1 i) = now"
    by (auto simp: quiet_def live_def Expired_def)
qed

lemma LookupReverse_served:
  assumes inv: "lb_inv I P st" and run: "LookupReverse I (lb_nat st) bip bp sp pr now = (t1, r)"
  shows "lb_inv I P (st\<lparr>lb_nat := t1\<rparr>)"
    and "\<And>i. r = Some i \<Longrightarrow> i < length (nt_slots t1) \<and> live (slot t1 i) \<and> rev_match bip bp sp pr (slot t1 i)"
proof -
  have ni: "nat_inv I (lb_nat st)" using inv by (rule lb_invD)
  note spec = LookupReverse_spec [OF nat_inv_wf [OF ni] run]
  show "lb_inv I P (st\<lparr>lb_nat := t1\<rparr>)"
    using inv spec(3) LookupReverse_inv [OF ni run] by (rule lb_inv_quiet)
  fix i
  assume r: "r = Some i"
  from LookupReverse_hit [OF nat_inv_wf [OF ni], of I bip bp sp pr now t1 i] run r spec(3) spec(4) [of i]
  show "i < length (nt_slots t1) \<and> live (slot t1 i) \<and> rev_match bip bp sp pr (slot t1 i)"
    by (auto simp: quiet_def live_def Expired_def rev_hit_def rev_match_def)
qed

lemma HandlePacket_cases:
  assumes inv: "lb_inv I P st" and pool: "usable_pool pool"
  obtains (refused) st1 where "HandlePacket I st meta pool now = Inr (st1, meta, False)" "lb_inv I P st1"
  | (fwd) st1 i where "meta_dir meta = kForward" "lb_inv I P st1" "i < length (nt_slots (lb_nat st1))"
      "live (slot (lb_nat st1) i)" "fwd_key (slot (lb_nat st1) i) = meta_key meta"
      "last_seen_ms (slot (lb_nat st1) i) = now" "nt_timeout (lb_nat st1) = nt_timeout (lb_nat st)"
      "HandlePacket I st meta pool now = Inr (finish_fwd st1 meta i)"
  | (rev) t1 i where "meta_dir meta = kReverse" "lb_inv I P (st\<lparr>lb_nat := t1\<rparr>)" "i < length (nt_slots t1)"
      "live (slot t1 i)"
      "rev_match (meta_src_ip meta) (meta_src_port meta) (meta_dst_port meta) (meta_proto meta) (slot t1 i)"
      "HandlePacket I st meta pool now = Inr (MaybeTeardown (st\<lparr>lb_nat := t1\<rparr>) i (meta_dir meta)
         (meta_tcp_flags meta), rev_meta meta (slot t1 i), True)"
proof (cases "meta_dir meta")
  case kForward
  obtain t1 r where look: "LookupForward I (lb_nat st) (meta_key meta) now = (t1, r)" by fastforce
  note served = LookupForward_served [OF inv look]
  have to: "nt_timeout t1 = nt_timeout (lb_nat st)"
    using LookupForward_spec(3) [OF lb_invD(2) [OF inv] look] by (simp add: quiet_def)
  show thesis
  proof (cases r)
    case (Some i)
    with served look kForward to fwd [of "st\<lparr>lb_nat := t1\<rparr>" i] show thesis
      by (simp add: HandlePacket_def)
  next
    case None
    show thesis
    proof (cases "meta_proto meta = kProtoTcp \<and> meta_tcp_flags meta AND kTcpSyn = 0")
      case True
      with None served(1) look kForward refused [of "st\<lparr>lb_nat := t1\<rparr>"] show thesis
        by (simp add: HandlePacket_def)
    next
      case False
      let ?cf = "CreateFlow I (st\<lparr>lb_nat := t1\<rparr>) meta (meta_key meta) pool now"
      have hp: "HandlePacket I st meta pool now = bind_r ?cf (\<lambda>(st2, created).
          case created of None \<Rightarrow> Inr (st2, meta, False) | Some i \<Rightarrow> Inr (finish_fwd st2 meta i))"
        using kForward look None False by (auto simp: HandlePacket_def)
      obtain st2 c where cf: "?cf = Inr (st2, c)"
        using CreateFlow_returns [OF served(1) pool] by blast
      have inv2: "lb_inv I P st2"
        using LookupForward_miss [OF lb_invD(1) [OF inv]] look None
        by (intro CreateFlow_inv [OF served(1) pool _ cf]) auto
      show thesis
      proof (cases c)
        case None
        with cf hp inv2 refused show thesis by simp
      next
        case (Some i)
        with cf hp inv2 kForward fwd [of st2 i] CreateFlow_slot [OF served(1) pool, of meta "meta_key meta" now st2 i]
          CreateFlow_slots [OF served(1) pool cf] to
        show thesis by simp
      qed
    qed
  qed
next
  case kReverse
  obtain t1 r where look: "LookupReverse I (lb_nat st) (meta_src_ip meta) (meta_src_port meta)
      (meta_dst_port meta) (meta_proto meta) now = (t1, r)" by fastforce
  note served = LookupReverse_served [OF inv look]
  show thesis
  proof (cases r)
    case None
    with served(1) look kReverse refused [of "st\<lparr>lb_nat := t1\<rparr>"] show thesis
      by (simp add: HandlePacket_def)
  next
    case (Some i)
    with served look kReverse rev [of t1 i] show thesis by (simp add: HandlePacket_def)
  qed
qed

lemma HandlePacket_step:
  assumes inv: "lb_inv I P st" and pool: "usable_pool pool"
  shows "\<exists>st' m' ok. HandlePacket I st meta pool now = Inr (st', m', ok) \<and> lb_inv I P st'"
  using inv pool
proof (cases rule: HandlePacket_cases [where meta = meta and now = now])
  case (fwd st1 i)
  then show ?thesis using MaybeTeardown_inv [OF fwd(2-4)] unfolding finish_fwd_def by blast
next
  case (rev t1 i)
  then show ?thesis using MaybeTeardown_inv [OF rev(2), of i] by auto
qed auto

end
