(* ===== verification/Lb_Props.thy ===== *)
theory Lb_Props
  imports Lb_Invariant
begin

text \<open>
  What the load-balancing node promises, from its invariant: over every history of batches,
  with the pool of backends replaced at will, it never aborts, loses or shares a port; packets
  of one connection stay together; a closed connection is gone.
\<close>

section \<open>Histories\<close>

text \<open>The pools the control loop builds: by the constructor with the enabled flags, from at
  most \<open>kMaxBackends\<close> slots.\<close>

definition built_pool :: "BackendPool \<Rightarrow> bool" where
  "built_pool pool \<longleftrightarrow> (\<exists>slots enabled. length slots \<le> kMaxBackends
     \<and> BackendPool_enabled slots enabled = Some (Inr pool))"

definition built_rcu :: "BackendPool AtomicRcu \<Rightarrow> bool" where
  "built_rcu r \<longleftrightarrow> (\<forall>pool. Rcu_Load r = Some pool \<longrightarrow> built_pool pool)"

inductive lb_reach :: "isa \<Rightarrow> u32 \<Rightarrow> Config \<Rightarrow> u16 \<Rightarrow> u16 \<Rightarrow> LbNode \<Rightarrow> bool"
  for I cap cfg w n where
  start: "LbNode_new cap cfg stats w n = Some (Inr st) \<Longrightarrow> lb_reach I cap cfg w n st"
| batch: "lb_reach I cap cfg w n st \<Longrightarrow> built_rcu rcu \<Longrightarrow> Lb_Process I st rcu now ms = Inr (st', outs)
    \<Longrightarrow> lb_reach I cap cfg w n st'"

lemma built_pool_enabled:
  assumes "built_pool pool"
  shows "pool_ok pool" and "distinct (bp_active pool)" and "length (bp_slots pool) \<le> kMaxBackends"
proof -
  obtain slots enabled where b: "length slots \<le> kMaxBackends"
    "BackendPool_enabled slots enabled = Some (Inr pool)" using assms by (auto simp: built_pool_def)
  then have len: "length enabled = length slots" "length slots < 256"
    by (auto simp: BackendPool_enabled_def kMaxBackends_def split: if_splits)
  then have p: "pool = \<lparr>bp_slots = slots, bp_active = map of_nat (enabled_idx enabled)\<rparr>"
    using b(2) by (simp add: BackendPool_enabled_eq)
  show "pool_ok pool" using b(2) by (rule BackendPool_enabled_ok)
  show "length (bp_slots pool) \<le> kMaxBackends" using b(1) p by simp
  have "inj_on (of_nat :: nat \<Rightarrow> u8) {..<256}"
    by (rule inj_onI) (simp add: word_unat_eq_iff unsigned_of_nat take_bit_nat_eq_self)
  then show "distinct (bp_active pool)"
    using len unfolding p by (auto simp: distinct_map enabled_idx_def elim: inj_on_subset)
qed

lemma built_pool_usable:
  assumes "built_pool pool" and "ActiveCount pool \<noteq> 0"
  shows "usable_pool pool"
  using built_pool_enabled [OF assms(1)] assms(2) by (auto simp: usable_pool_def ActiveCount_zero)

lemma Lb_loop_inv:
  assumes "lb_inv I P st" and "usable_pool pool"
  shows "\<exists>st' outs. Lb_loop I st pool now ms = Inr (st', outs) \<and> lb_inv I P st' \<and> length outs = length ms"
  using assms
proof (induction ms arbitrary: st)
  case Nil
  then show ?case by simp
next
  case (Cons m ms)
  obtain st1 m' b where h: "HandlePacket I st m pool now = Inr (st1, m', b)" "lb_inv I P st1"
    using HandlePacket_step [OF Cons.prems] by blast
  with Cons.IH [OF h(2) Cons.prems(2)] show ?case by auto
qed

lemma Lb_Process_inv:
  assumes "lb_inv I P st" and "built_rcu rcu"
  shows "\<exists>st' outs. Lb_Process I st rcu now ms = Inr (st', outs) \<and> lb_inv I P st' \<and> length outs = length ms"
proof (cases "Rcu_Load rcu")
  case None
  with assms show ?thesis by (simp add: Lb_Process_def)
next
  case (Some pool)
  show ?thesis
  proof (cases "ActiveCount pool = 0")
    case True
    with Some assms show ?thesis by (simp add: Lb_Process_def)
  next
    case False
    with Some assms(2) have "usable_pool pool" by (auto simp: built_rcu_def intro: built_pool_usable)
    from Lb_loop_inv [OF assms(1) this, of now ms] False Some show ?thesis
      by (auto simp: Lb_Process_def lb_stats_inv)
  qed
qed

definition all_ports :: "u16 \<Rightarrow> u16 \<Rightarrow> u16 multiset" where
  "all_ports w n = mset (worker_ports (unat w) (unat n) 1024 65535)"

lemma held_ports_default: "held_ports b (replicate k NatFlow_default) = {#}"
  by (simp add: held_ports_def holds_def NatFlow_default_def)

lemma LbNode_new_inv:
  assumes cap: "cap AND (cap - 1) = 0" "cap \<noteq> 0" and new: "LbNode_new cap cfg stats w n = Some (Inr st)"
  shows "lb_inv I (all_ports w n) st"
proof -
  have fw: "ForWorker w n kEphemeralLow kEphemeralHigh =
      Some (Inr \<lparr>free_ports = worker_ports (unat w) (unat n) 1024 65535\<rparr>)"
    by (simp add: ForWorker_free kEphemeralLow_def kEphemeralHigh_def)
  have st: "st = \<lparr>lb_nat = NatTable_new cap (conntrack_timeout_ms cfg), lb_pools = replicate kMaxBackends
      \<lparr>free_ports = worker_ports (unat w) (unat n) 1024 65535\<rparr>, lb_stats = stats\<rparr>"
    using new by (simp add: LbNode_new_def fw)
  have slots: "nt_slots (lb_nat st) = replicate (unat cap) NatFlow_default" by (simp add: st NatTable_new_def)
  have "ledger st b = all_ports w n" if "b < kMaxBackends" for b
    using that by (simp add: ledger_def slots held_ports_default all_ports_def) (simp add: st)
  moreover have "0 \<notin># all_ports w n" by (simp add: all_ports_def set_worker_ports)
  moreover have "nat_inv I (lb_nat st)" using NatTable_new_inv [OF cap] by (simp add: st)
  moreover have "\<forall>f \<in> set (nt_slots (lb_nat st)). flow_ok f"
    by (simp add: slots flow_ok_def NatFlow_default_def)
  moreover have "length (lb_pools st) = kMaxBackends" by (simp add: st)
  ultimately show ?thesis by (simp add: lb_inv_def)
qed

lemma lb_reach_inv:
  assumes "lb_reach I cap cfg w n st" and "cap AND (cap - 1) = 0" "cap \<noteq> 0"
  shows "lb_inv I (all_ports w n) st"
  using assms
proof (induction rule: lb_reach.induct)
  case (start stats st)
  then show ?case by (intro LbNode_new_inv)
next
  case (batch st rcu now ms st' outs)
  then show ?case using Lb_Process_inv [of I "all_ports w n" st rcu now ms] by auto
qed

section \<open>What a packet does to one flow\<close>

text \<open>A packet is addressed to a flow by its forward key, or, from the backend, by its
  reverse key.\<close>

definition addressed :: "PacketMeta \<Rightarrow> NatFlow \<Rightarrow> bool" where
  "addressed m f \<longleftrightarrow> (if meta_dir m = kForward then fwd_key f = meta_key m
     else rev_match (meta_src_ip m) (meta_src_port m) (meta_dst_port m) (meta_proto m) f)"

text \<open>The flow after a packet it serves: stamped, with the FIN bit, and closed or not.\<close>

definition served :: "PacketMeta \<Rightarrow> u32 \<Rightarrow> NatFlow \<Rightarrow> NatFlow" where
  "served m now f =
     (let f1 = fin_bits (f\<lparr>last_seen_ms := now\<rparr>) (meta_dir m) (meta_tcp_flags m)
      in if closes f (meta_dir m) (meta_tcp_flags m) then f1\<lparr>reaped := True, snat_port := 0\<rparr> else f1)"

lemma closes_stamp [simp]: "closes (f\<lparr>last_seen_ms := n\<rparr>) d fl = closes f d fl"
  by (simp add: closes_def fin_bits_def)

lemma MaybeTeardown_slots:
  assumes inv: "lb_inv I P st" and i: "i < length (nt_slots (lb_nat st))" and lv: "live (slot (lb_nat st) i)"
  shows "nt_slots (lb_nat (MaybeTeardown st i dir fl)) = (nt_slots (lb_nat st))[i :=
      (if closes (slot (lb_nat st) i) dir fl
       then (fin_bits (slot (lb_nat st) i) dir fl)\<lparr>reaped := True, snat_port := 0\<rparr>
       else fin_bits (slot (lb_nat st) i) dir fl)]"
    and "nt_timeout (lb_nat (MaybeTeardown st i dir fl)) = nt_timeout (lb_nat st)"
proof -
  have "snat_port (slot (lb_nat st) i) \<noteq> 0" using flow_okD_live [OF lb_invD(4) [OF inv i] lv] by simp
  note eq = MaybeTeardown_eq [OF i lv this, of dir fl]
  show "nt_slots (lb_nat (MaybeTeardown st i dir fl)) = (nt_slots (lb_nat st))[i :=
      (if closes (slot (lb_nat st) i) dir fl
       then (fin_bits (slot (lb_nat st) i) dir fl)\<lparr>reaped := True, snat_port := 0\<rparr>
       else fin_bits (slot (lb_nat st) i) dir fl)]"
    using eq by (cases "closes (slot (lb_nat st) i) dir fl") (auto simp: set_slot_def)
  show "nt_timeout (lb_nat (MaybeTeardown st i dir fl)) = nt_timeout (lb_nat st)"
    by (simp add: MaybeTeardown_def Close_def Reap_def set_slot_def pool_release_def Let_def)
qed

text \<open>\<open>keeps\<close>: what happens to a valid flow in slot \<open>i\<close> when a packet is handled.\<close>

definition keeps :: "PacketMeta \<Rightarrow> u32 \<Rightarrow> nat \<Rightarrow> LbNode \<Rightarrow> LbNode \<Rightarrow> bool" where
  "keeps m now i st st' \<longleftrightarrow> length (nt_slots (lb_nat st')) = length (nt_slots (lb_nat st))
    \<and> nt_timeout (lb_nat st') = nt_timeout (lb_nat st)
    \<and> (slot (lb_nat st') i = slot (lb_nat st) i
       \<or> addressed m (slot (lb_nat st) i) \<and> slot (lb_nat st') i = served m now (slot (lb_nat st) i))"

text \<open>A lookup, that answered slot \<open>j\<close>, followed by the teardown of that slot.\<close>

lemma teardown_keeps:
  assumes inv: "lb_inv I P (st\<lparr>lb_nat := t1\<rparr>)" and q: "quiet (lb_nat st) t1"
    and j: "j < length (nt_slots t1)" "live (slot t1 j)"
    and hit: "j = i \<Longrightarrow> addressed m (slot (lb_nat st) i) \<and> slot t1 i = (slot (lb_nat st) i)\<lparr>last_seen_ms := now\<rparr>"
    and miss: "j \<noteq> i \<Longrightarrow> slot t1 i = slot (lb_nat st) i"
  shows "keeps m now i st (MaybeTeardown (st\<lparr>lb_nat := t1\<rparr>) j (meta_dir m) (meta_tcp_flags m))"
proof -
  have len: "length (nt_slots t1) = length (nt_slots (lb_nat st))" and to: "nt_timeout t1 = nt_timeout (lb_nat st)"
    using q by (auto simp: quiet_def)
  note td = MaybeTeardown_slots [OF inv, of j "meta_dir m" "meta_tcp_flags m"]
  show ?thesis
    using td j len to hit miss by (cases "j = i") (auto simp: keeps_def served_def Let_def)
qed

lemma create_keeps:
  assumes inv: "lb_inv I P st" and pool: "usable_pool pool"
    and miss: "LookupForward I (lb_nat st) (meta_key m) now = (t1, None)"
    and cf: "CreateFlow I (st\<lparr>lb_nat := t1\<rparr>) m (meta_key m) pool now = Inr (st2, c)"
    and i: "i < length (nt_slots (lb_nat st))" "occupied (slot (lb_nat st) i)"
      "\<not> Expired (lb_nat st) (slot (lb_nat st) i) now"
  shows "lb_inv I P st2" and "c = None \<Longrightarrow> keeps m now i st st2"
    and "c = Some j \<Longrightarrow> keeps m now i st (MaybeTeardown st2 j (meta_dir m) (meta_tcp_flags m))"
proof -
  note sp = LookupForward_spec [OF lb_invD(2) [OF inv] miss]
  note inv1 = LookupForward_served(1) [OF inv miss]
  have same: "slot t1 i = slot (lb_nat st) i" using sp(5) [OF i(1)] i(3) by (auto simp: spared_def)
  have len: "length (nt_slots t1) = length (nt_slots (lb_nat st))" and to: "nt_timeout t1 = nt_timeout (lb_nat st)"
    using sp(3) by (auto simp: quiet_def)
  note cs = CreateFlow_slots [OF inv1 pool cf]
  show inv2: "lb_inv I P st2"
    using LookupForward_miss [OF lb_invD(1) [OF inv] miss] by (intro CreateFlow_inv [OF inv1 pool _ cf]) auto
  show "keeps m now i st st2" if "c = None" using that cs same len to by (auto simp: keeps_def)
  assume c: "c = Some j"
  have "\<not> usable t1 now i" using i same by (simp add: usable_def Expired_cong [OF to])
  with cs c have ji: "j \<noteq> i" by auto
  from cs c obtain f where f: "nt_slots (lb_nat st2) = (nt_slots t1)[j := f]" by auto
  note cl = CreateFlow_slot [OF inv1 pool cf [unfolded c]]
  have "j < length (nt_slots (lb_nat st2))" "live (slot (lb_nat st2) j)" using cl by auto
  from MaybeTeardown_slots [OF inv2 this, of "meta_dir m" "meta_tcp_flags m"]
  show "keeps m now i st (MaybeTeardown st2 j (meta_dir m) (meta_tcp_flags m))"
    using ji same len to cs by (simp add: keeps_def f)
qed

text \<open>
  A packet changes a valid flow only when it is addressed to it, and then it stamps it,
  records its FIN and closes it when the flags say so.
\<close>

lemma HandlePacket_keeps:
  assumes inv: "lb_inv I P st" and pool: "usable_pool pool"
    and run: "HandlePacket I st m pool now = Inr (st', m', b)"
    and i: "i < length (nt_slots (lb_nat st))" "occupied (slot (lb_nat st) i)"
      "\<not> Expired (lb_nat st) (slot (lb_nat st) i) now"
  shows "keeps m now i st st'"
proof (cases "meta_dir m")
  case kForward
  obtain t1 r where look: "LookupForward I (lb_nat st) (meta_key m) now = (t1, r)" by fastforce
  note sp = LookupForward_spec [OF lb_invD(2) [OF inv] look]
  note sv = LookupForward_served [OF inv look]
  show ?thesis
  proof (cases r)
    case (Some j)
    have "st' = MaybeTeardown (st\<lparr>lb_nat := t1\<rparr>) j (meta_dir m) (meta_tcp_flags m)"
      using run kForward look Some by (simp add: HandlePacket_def finish_fwd_def)
    moreover have "keeps m now i st \<dots>"
      using sv(2) [OF Some] sp(4) [OF Some] sp(5) [OF i(1)] i(3) Some kForward
        LookupForward_Some_iff [OF lb_invD(1) [OF inv] look, of j]
      by (intro teardown_keeps [OF sv(1) sp(3)]) (auto simp: spared_def addressed_def)
    ultimately show ?thesis by simp
  next
    case None
    obtain st2 c where cf: "CreateFlow I (st\<lparr>lb_nat := t1\<rparr>) m (meta_key m) pool now = Inr (st2, c)"
      using CreateFlow_returns [OF sv(1) pool] by blast
    note ck = create_keeps [OF inv pool look [unfolded None] cf i]
    have "keeps m now i st (st\<lparr>lb_nat := t1\<rparr>)"
      using sp(3) sp(5) [OF i(1)] None i(3) by (auto simp: keeps_def spared_def quiet_def)
    with run kForward look None cf ck show ?thesis
      by (auto simp: HandlePacket_def finish_fwd_def Let_def split: if_splits option.splits)
  qed
next
  case kReverse
  obtain t1 r where look: "LookupReverse I (lb_nat st) (meta_src_ip m) (meta_src_port m)
      (meta_dst_port m) (meta_proto m) now = (t1, r)" by fastforce
  note sp = LookupReverse_spec [OF lb_invD(2) [OF inv] look]
  note sv = LookupReverse_served [OF inv look]
  show ?thesis
  proof (cases r)
    case None
    then have "st' = st\<lparr>lb_nat := t1\<rparr>" using run kReverse look by (simp add: HandlePacket_def)
    with sp(3) sp(5) [OF i(1)] None i(3) show ?thesis by (auto simp: keeps_def spared_def quiet_def)
  next
    case (Some j)
    have "st' = MaybeTeardown (st\<lparr>lb_nat := t1\<rparr>) j (meta_dir m) (meta_tcp_flags m)"
      using run kReverse look Some by (simp add: HandlePacket_def)
    moreover have "keeps m now i st \<dots>"
      using sv(2) [OF Some] sp(4) [OF Some] sp(5) [OF i(1)] i(3) Some kReverse
        LookupReverse_hit(2) [OF lb_invD(2) [OF inv] look [unfolded Some]]
      by (intro teardown_keeps [OF sv(1) sp(3)]) (auto simp: spared_def addressed_def rev_hit_def)
    ultimately show ?thesis by simp
  qed
qed

section \<open>Runs of packets\<close>

text \<open>Each event of a run is a packet, the pool in place when it is handled, and the time.\<close>

primrec lb_run :: "isa \<Rightarrow> LbNode \<Rightarrow> (PacketMeta \<times> BackendPool \<times> u32) list \<Rightarrow> LbNode result" where
  "lb_run I st [] = Inr st"
| "lb_run I st (e # es) =
     bind_r (HandlePacket I st (fst e) (fst (snd e)) (snd (snd e))) (\<lambda>(st1, _, _). lb_run I st1 es)"

definition harmless :: "u8 \<Rightarrow> bool" where
  "harmless flags \<longleftrightarrow> flags AND kTcpFin = 0 \<and> flags AND kTcpRst = 0"

lemma served_harmless:
  "harmless (meta_tcp_flags m) \<Longrightarrow> served m now f = f\<lparr>last_seen_ms := now\<rparr>"
  by (simp add: served_def harmless_def closes_def fin_bits_def)

lemma addressed_core: "core f = core g \<Longrightarrow> addressed m f = addressed m g"
  by (auto simp: addressed_def rev_match_def core_def)

lemma window_not_Expired:
  assumes "live f" and "last_seen_ms f - t0 \<le> now - t0" and "now - t0 \<le> nt_timeout t"
  shows "\<not> Expired t f now"
proof -
  have "now - last_seen_ms f = (now - t0) - (last_seen_ms f - t0)" by simp
  also have "\<dots> \<le> now - t0" using assms(2) by (rule word_sub_le)
  finally show ?thesis using assms(1,3) by (auto simp: Expired_def live_def not_less)
qed

lemma step_bound:
  assumes inv: "lb_inv I P st" and i: "i < length (nt_slots (lb_nat st))" "live (slot (lb_nat st) i)"
      "core (slot (lb_nat st) i) = core f"
    and time: "last_seen_ms (slot (lb_nat st) i) - t0 \<le> now - t0" "now - t0 \<le> nt_timeout (lb_nat st)"
    and pool: "usable_pool pool" and calm: "addressed m f \<Longrightarrow> harmless (meta_tcp_flags m)"
  obtains st1 m' b where "HandlePacket I st m pool now = Inr (st1, m', b)" "lb_inv I P st1"
    "i < length (nt_slots (lb_nat st1))" "nt_timeout (lb_nat st1) = nt_timeout (lb_nat st)"
    "slot (lb_nat st1) i = slot (lb_nat st) i \<or> slot (lb_nat st1) i = (slot (lb_nat st) i)\<lparr>last_seen_ms := now\<rparr>"
    "\<not> Expired (lb_nat st) (slot (lb_nat st) i) now"
proof -
  obtain st1 m' b where h: "HandlePacket I st m pool now = Inr (st1, m', b)" "lb_inv I P st1"
    using HandlePacket_step [OF inv pool] by blast
  have ne: "\<not> Expired (lb_nat st) (slot (lb_nat st) i) now" by (rule window_not_Expired [OF i(2) time])
  have k: "keeps m now i st st1"
    using i ne by (intro HandlePacket_keeps [OF inv pool h(1)]) (auto simp: live_def)
  have "slot (lb_nat st1) i = slot (lb_nat st) i \<or> slot (lb_nat st1) i = (slot (lb_nat st) i)\<lparr>last_seen_ms := now\<rparr>"
    using k calm i(3) addressed_core [of "slot (lb_nat st) i" f m] by (auto simp: keeps_def served_harmless)
  with that h ne k i(1) show thesis by (auto simp: keeps_def)
qed

text \<open>The events of a run that a connection with flow \<open>f\<close> survives: built pools, and no
  FIN or RST addressed to it.\<close>

definition calm :: "NatFlow \<Rightarrow> PacketMeta \<times> BackendPool \<times> u32 \<Rightarrow> bool" where
  "calm f e \<longleftrightarrow> usable_pool (fst (snd e)) \<and> (addressed (fst e) f \<longrightarrow> harmless (meta_tcp_flags (fst e)))"

lemma run_bound:
  assumes "lb_inv I P st" and "i < length (nt_slots (lb_nat st))" and "live (slot (lb_nat st) i)"
    and "core (slot (lb_nat st) i) = core f"
    and "sorted ((last_seen_ms (slot (lb_nat st) i) - t0) # map (\<lambda>e. snd (snd e) - t0) es @ [u])"
    and "u \<le> nt_timeout (lb_nat st)" and "\<forall>e \<in> set es. calm f e"
  shows "\<exists>st'. lb_run I st es = Inr st' \<and> lb_inv I P st' \<and> nt_timeout (lb_nat st') = nt_timeout (lb_nat st)
    \<and> i < length (nt_slots (lb_nat st')) \<and> live (slot (lb_nat st') i) \<and> core (slot (lb_nat st') i) = core f
    \<and> last_seen_ms (slot (lb_nat st') i) - t0 \<le> u"
  using assms
proof (induction es arbitrary: st)
  case Nil
  then show ?case by auto
next
  case (Cons e es)
  obtain m pool now where e: "e = (m, pool, now)" by (metis prod_cases3)
  have "last_seen_ms (slot (lb_nat st) i) - t0 \<le> now - t0" "now - t0 \<le> nt_timeout (lb_nat st)"
    "usable_pool pool" "addressed m f \<Longrightarrow> harmless (meta_tcp_flags m)"
    using Cons.prems(5-7) e by (auto simp: calm_def intro: order_trans)
  from step_bound [OF Cons.prems(1-4) this]
  obtain st1 m' b where h: "HandlePacket I st m pool now = Inr (st1, m', b)" "lb_inv I P st1"
    "i < length (nt_slots (lb_nat st1))" "nt_timeout (lb_nat st1) = nt_timeout (lb_nat st)"
    "slot (lb_nat st1) i = slot (lb_nat st) i \<or> slot (lb_nat st1) i = (slot (lb_nat st) i)\<lparr>last_seen_ms := now\<rparr>"
    by metis
  then have s1: "live (slot (lb_nat st1) i)" "core (slot (lb_nat st1) i) = core f"
    "sorted ((last_seen_ms (slot (lb_nat st1) i) - t0) # map (\<lambda>e. snd (snd e) - t0) es @ [u])"
    using Cons.prems(3-5) e by (auto simp: live_def)
  from Cons.IH [OF h(2,3) s1] Cons.prems(6,7) h(1,4) e show ?case by simp
qed

text \<open>A forward packet that is let through, in terms of the slot that served it.\<close>

lemma forward_accepted:
  assumes inv: "lb_inv I P st" and pool: "usable_pool pool" and dir: "meta_dir m = kForward"
    and run: "HandlePacket I st m pool now = Inr (st', m', True)" and fl: "harmless (meta_tcp_flags m)"
  obtains i where "i < length (nt_slots (lb_nat st'))" "live (slot (lb_nat st') i)"
    "fwd_key (slot (lb_nat st') i) = meta_key m" "last_seen_ms (slot (lb_nat st') i) = now"
    "m' = fwd_meta m (slot (lb_nat st') i)" "nt_timeout (lb_nat st') = nt_timeout (lb_nat st)" "lb_inv I P st'"
  using inv pool
proof (cases rule: HandlePacket_cases [where meta = m and now = now])
  case (fwd st1 i)
  have eq: "st' = MaybeTeardown st1 i (meta_dir m) (meta_tcp_flags m)" "m' = fwd_meta m (slot (lb_nat st1) i)"
    using run fwd(8) by (auto simp: finish_fwd_def)
  note td = MaybeTeardown_slots [OF fwd(2-4), of "meta_dir m" "meta_tcp_flags m"]
  have "slot (lb_nat st') i = slot (lb_nat st1) i" "length (nt_slots (lb_nat st')) = length (nt_slots (lb_nat st1))"
    using td(1) fwd(3) fl by (auto simp: eq harmless_def closes_def fin_bits_def)
  then show ?thesis
    using that [of i] fwd(2-7) td(2) MaybeTeardown_inv [OF fwd(2-4)] by (simp add: eq)
qed (use run dir in auto)

lemma forward_hit:
  assumes inv: "lb_inv I P st" and dir: "meta_dir m = kForward"
    and i: "i < length (nt_slots (lb_nat st))" "live (slot (lb_nat st) i)" "fwd_key (slot (lb_nat st) i) = meta_key m"
    and ne: "\<not> Expired (lb_nat st) (slot (lb_nat st) i) now"
  shows "\<exists>st'. HandlePacket I st m pool now = Inr (st', fwd_meta m (slot (lb_nat st) i), True)"
proof -
  obtain t1 r where look: "LookupForward I (lb_nat st) (meta_key m) now = (t1, r)" by fastforce
  have r: "r = Some i"
    using LookupForward_Some_iff [OF lb_invD(1) [OF inv] look, of i] i ne by (auto simp: live_def)
  have "slot t1 i = (slot (lb_nat st) i)\<lparr>last_seen_ms := now\<rparr>"
    using LookupForward_spec(4) [OF lb_invD(2) [OF inv] look r] .
  with look r dir show ?thesis by (simp add: HandlePacket_def finish_fwd_def fwd_meta_def)
qed

text \<open>
  C13. Session affinity. A forward packet without FIN and RST is let through at \<open>t0\<close>. Then
  any packets follow, in time order and within the timeout of \<open>t0\<close>, with any pools in
  place, where those addressed to this connection (by its forward key, or from its backend to
  its port) carry neither FIN nor RST. Then a forward packet of the same connection is let
  through and gets the same backend address, MAC, port and the same source port, even when the
  backend is no longer in the pool.
\<close>

theorem session_affinity:
  assumes inv: "lb_inv I P st" and pool: "usable_pool pool"
    and m1: "meta_dir m1 = kForward" "harmless (meta_tcp_flags m1)"
    and run1: "HandlePacket I st m1 pool t0 = Inr (st1, m1', True)"
    and times: "sorted (map (\<lambda>e. snd (snd e) - t0) es @ [now2 - t0])" "now2 - t0 \<le> nt_timeout (lb_nat st)"
    and others: "\<forall>e \<in> set es. usable_pool (fst (snd e))
      \<and> ((if meta_dir (fst e) = kForward then meta_key (fst e) = meta_key m1
          else meta_src_ip (fst e) = ip_value (meta_backend_ip m1') \<and> meta_src_port (fst e) = meta_backend_port m1'
            \<and> meta_dst_port (fst e) = meta_snat_port m1' \<and> meta_proto (fst e) = meta_proto m1)
         \<longrightarrow> harmless (meta_tcp_flags (fst e)))"
    and m2: "meta_dir m2 = kForward" "meta_key m2 = meta_key m1"
  shows "\<exists>st2 st3 m2'. lb_run I st1 es = Inr st2 \<and> HandlePacket I st2 m2 pool2 now2 = Inr (st3, m2', True)
    \<and> meta_backend_ip m2' = meta_backend_ip m1' \<and> meta_backend_mac m2' = meta_backend_mac m1'
    \<and> meta_backend_port m2' = meta_backend_port m1' \<and> meta_snat_port m2' = meta_snat_port m1'"
proof -
  obtain i where i: "i < length (nt_slots (lb_nat st1))" "live (slot (lb_nat st1) i)"
    "fwd_key (slot (lb_nat st1) i) = meta_key m1" "last_seen_ms (slot (lb_nat st1) i) = t0"
    "m1' = fwd_meta m1 (slot (lb_nat st1) i)" "nt_timeout (lb_nat st1) = nt_timeout (lb_nat st)" "lb_inv I P st1"
    using forward_accepted [OF inv pool m1(1) run1 m1(2)] by metis
  let ?f = "slot (lb_nat st1) i"
  have adr: "addressed m ?f = (if meta_dir m = kForward then meta_key m = meta_key m1
      else meta_src_ip m = ip_value (meta_backend_ip m1') \<and> meta_src_port m = meta_backend_port m1'
        \<and> meta_dst_port m = meta_snat_port m1' \<and> meta_proto m = meta_proto m1)" for m
    using i(3,5) by (auto simp: addressed_def rev_match_def fwd_meta_def meta_key_def)
  obtain st2 where st2: "lb_run I st1 es = Inr st2" "lb_inv I P st2"
      "nt_timeout (lb_nat st2) = nt_timeout (lb_nat st1)" "i < length (nt_slots (lb_nat st2))"
      "live (slot (lb_nat st2) i)" "core (slot (lb_nat st2) i) = core ?f"
      "last_seen_ms (slot (lb_nat st2) i) - t0 \<le> now2 - t0"
    using run_bound [OF i(7,1,2) refl, of t0 es "now2 - t0"] times others i(4,6) by (auto simp: adr calm_def)
  have "\<not> Expired (lb_nat st2) (slot (lb_nat st2) i) now2"
    using window_not_Expired [OF st2(5,7)] times(2) st2(3) i(6) by simp
  then obtain st3 where "HandlePacket I st2 m2 pool2 now2 = Inr (st3, fwd_meta m2 (slot (lb_nat st2) i), True)"
    using forward_hit [OF st2(2) m2(1) st2(4,5)] st2(6) i(3) m2(2) by (auto simp: core_def)
  with st2(1,6) i(5) show ?thesis by (auto simp: fwd_meta_def core_def)
qed

section \<open>New connections\<close>

lemma usable_spared:
  assumes wf: "nat_wf t" and miss: "LookupForward I t key now = (t1, None)" and i: "i < length (nt_slots t)"
  shows "usable t1 now i = usable t now i"
proof -
  note sp = LookupForward_spec [OF wf miss]
  have "nt_timeout t1 = nt_timeout t" using sp(3) by (simp add: quiet_def)
  then show ?thesis using sp(5) [OF i] by (auto simp: usable_def spared_def Expired_def)
qed

text \<open>What a new connection gets: the backend the hash picks among the active ones, and the
  port on top of that backend's pool.\<close>

definition picked :: "isa \<Rightarrow> BackendPool \<Rightarrow> FlowKey \<Rightarrow> nat" where
  "picked I pool key = unat (bp_active pool ! (unat (Hash I key) mod length (bp_active pool)))"

definition new_meta :: "isa \<Rightarrow> LbNode \<Rightarrow> PacketMeta \<Rightarrow> BackendPool \<Rightarrow> PacketMeta" where
  "new_meta I st m pool = (let b = picked I pool (meta_key m) in
     m\<lparr>meta_backend_ip := bi_ip (bp_slots pool ! b), meta_backend_mac := bi_mac (bp_slots pool ! b),
       meta_backend_port := bi_port (bp_slots pool ! b), meta_snat_port := last (free_ports (lb_pools st ! b))\<rparr>)"

definition may_open :: "PacketMeta \<Rightarrow> bool" where
  "may_open m \<longleftrightarrow> meta_proto m \<noteq> kProtoTcp \<or> meta_tcp_flags m AND kTcpSyn \<noteq> 0"

lemma CreateFlow_outcome:
  assumes inv: "lb_inv I P st" and pool: "usable_pool pool"
    and run: "CreateFlow I st m key pool now = Inr (st', r)"
  shows "(r \<noteq> None) = (free_ports (lb_pools st ! picked I pool key) \<noteq> []
      \<and> (\<exists>i < length (nt_slots (lb_nat st)). usable (lb_nat st) now i))"
    and "r = Some i \<Longrightarrow> slot (lb_nat st') i = placed (new_flow m key (bp_slots pool ! picked I pool key)
        (last (free_ports (lb_pools st ! picked I pool key))) (of_nat (picked I pool key))) now"
proof -
  have sel: "unat idx = picked I pool key" if "Select I pool key = Inr idx" for idx
    using that by (auto simp: Select_def picked_def split: if_splits)
  have "(r \<noteq> None) = (free_ports (lb_pools st ! picked I pool key) \<noteq> []
      \<and> (\<exists>i < length (nt_slots (lb_nat st)). usable (lb_nat st) now i))
    \<and> (r = Some i \<longrightarrow> slot (lb_nat st') i = placed (new_flow m key (bp_slots pool ! picked I pool key)
        (last (free_ports (lb_pools st ! picked I pool key))) (of_nat (picked I pool key))) now)"
    using inv pool
  proof (cases rule: CreateFlow_cases [where key = key and meta = m and now = now])
    case (exhausted idx)
    with run sel show ?thesis by auto
  next
    case (full idx)
    with run show ?thesis by auto
  next
    case (ok idx sport q t' ep ei j)
    note pl = Insert_Some [OF lb_invD(2) [OF inv] ok(7)]
    have st: "lb_nat st' = t'" "r = Some j" using ok(8) run by (auto simp: taken_def)
    have "sport = last (free_ports (lb_pools st ! picked I pool key))" "free_ports (lb_pools st ! picked I pool key) \<noteq> []"
      using ok(5,6) sel [OF ok(1)] by (auto simp: Acquire_def split: if_splits)
    moreover have "idx = of_nat (picked I pool key)" using sel [OF ok(1), symmetric] by simp
    ultimately show ?thesis using pl(1-3) st sel [OF ok(1)] by auto
  qed
  then show "(r \<noteq> None) = (free_ports (lb_pools st ! picked I pool key) \<noteq> []
      \<and> (\<exists>i < length (nt_slots (lb_nat st)). usable (lb_nat st) now i))"
    and "r = Some i \<Longrightarrow> slot (lb_nat st') i = placed (new_flow m key (bp_slots pool ! picked I pool key)
        (last (free_ports (lb_pools st ! picked I pool key))) (of_nat (picked I pool key))) now" by auto
qed

lemma forward_miss:
  assumes inv: "lb_inv I P st" and pool: "usable_pool pool" and dir: "meta_dir m = kForward"
    and miss: "conn (lb_nat st) now (meta_key m) = None"
  shows "\<exists>st' m' b. HandlePacket I st m pool now = Inr (st', m', b)
    \<and> (b \<longleftrightarrow> may_open m \<and> free_ports (lb_pools st ! picked I pool (meta_key m)) \<noteq> []
        \<and> (\<exists>i < length (nt_slots (lb_nat st)). usable (lb_nat st) now i))
    \<and> (b \<longrightarrow> m' = new_meta I st m pool)
    \<and> (\<not> b \<longrightarrow> m' = m \<and> lb_pools st' = lb_pools st \<and> lb_stats st' = lb_stats st
        \<and> st' = st\<lparr>lb_nat := fst (LookupForward I (lb_nat st) (meta_key m) now)\<rparr>)"
proof -
  obtain t1 r where look: "LookupForward I (lb_nat st) (meta_key m) now = (t1, r)" by fastforce
  with LookupForward_conn [OF lb_invD(1) [OF inv] look] miss have r: "r = None" by auto
  note sv = LookupForward_served [OF inv look]
  note us = usable_spared [OF lb_invD(2) [OF inv] look [unfolded r]]
  have len: "length (nt_slots t1) = length (nt_slots (lb_nat st))"
    using LookupForward_spec(3) [OF lb_invD(2) [OF inv] look] by (simp add: quiet_def)
  obtain st2 c where cf: "CreateFlow I (st\<lparr>lb_nat := t1\<rparr>) m (meta_key m) pool now = Inr (st2, c)"
    using CreateFlow_returns [OF sv(1) pool] by blast
  note out = CreateFlow_outcome [OF sv(1) pool cf]
  have none: "c = None \<Longrightarrow> st2 = st\<lparr>lb_nat := t1\<rparr>" using CreateFlow_slots [OF sv(1) pool cf] by simp
  have hp: "HandlePacket I st m pool now = (if \<not> may_open m then Inr (st\<lparr>lb_nat := t1\<rparr>, m, False)
      else case c of None \<Rightarrow> Inr (st2, m, False) | Some i \<Rightarrow> Inr (finish_fwd st2 m i))"
    using dir look r cf by (auto simp: HandlePacket_def may_open_def)
  show ?thesis
    using out none us len
    by (cases c) (auto simp: hp look finish_fwd_def fwd_meta_def new_meta_def placed_def Let_def)
qed

lemma accepted_conn:
  assumes "lb_inv I P st" and "usable_pool pool" and "meta_dir m = kForward"
    and "HandlePacket I st m pool now = Inr (st', m', True)" and "harmless (meta_tcp_flags m)"
  obtains f where "conn (lb_nat st') now (meta_key m) = Some f" "m' = fwd_meta m f" "lb_inv I P st'" "live f"
proof -
  obtain i where i: "i < length (nt_slots (lb_nat st'))" "live (slot (lb_nat st') i)"
    "fwd_key (slot (lb_nat st') i) = meta_key m" "last_seen_ms (slot (lb_nat st') i) = now"
    "m' = fwd_meta m (slot (lb_nat st') i)" "lb_inv I P st'"
    using forward_accepted [OF assms] by metis
  have "conn (lb_nat st') now (meta_key m) = Some (slot (lb_nat st') i)"
    unfolding conn_Some_iff [OF lb_invD(1) [OF i(6)]] using i(1-4) by (auto simp: live_def Expired_def)
  with i that show thesis by blast
qed

lemma refused_conn:
  assumes inv: "lb_inv I P st" and miss: "conn (lb_nat st) now key = None" and run: "LookupForward I (lb_nat st) key now = (t1, r)"
  shows "conn t1 now = conn (lb_nat st) now"
    and "length (nt_slots t1) = length (nt_slots (lb_nat st))" and "i < length (nt_slots (lb_nat st)) \<Longrightarrow> slot t1 i = slot (lb_nat st) i
      \<or> Expired (lb_nat st) (slot (lb_nat st) i) now \<and> slot t1 i = (slot (lb_nat st) i)\<lparr>reaped := True\<rparr>"
proof -
  note c = LookupForward_conn [OF lb_invD(1) [OF inv] run] and sp = LookupForward_spec [OF lb_invD(2) [OF inv] run]
  have r: "r = None" using c miss by auto
  show "conn t1 now = conn (lb_nat st) now"
  proof
    fix k
    show "conn t1 now k = conn (lb_nat st) now k" using c miss by (cases "k = key") auto
  qed
  show "length (nt_slots t1) = length (nt_slots (lb_nat st))" using sp(3) by (simp add: quiet_def)
  show "slot t1 i = slot (lb_nat st) i \<or> Expired (lb_nat st) (slot (lb_nat st) i) now \<and> slot t1 i = (slot (lb_nat st) i)\<lparr>reaped := True\<rparr>"
    if "i < length (nt_slots (lb_nat st))" using sp(5) [OF that] r by (simp add: spared_def)
qed

text \<open>
  C22. A forward packet of an unknown connection, with a pool in place that has an enabled backend: the node never aborts;
  it lets the packet through exactly when it may open a connection (not TCP, or SYN set), the backend the hash
  picks among the enabled ones still has a port, and a slot of the table is free or expired.
  Then the packet gets that backend's address and the port, and the table holds a flow with these for the connection, unless the packet
  closes it at once. Otherwise packet, pools and counters are left as they were, the table holds the same connections as before, and
  no slot of it has changed but that expired flows may be marked.
\<close>

theorem new_connection:
  assumes inv: "lb_inv I P st" and pool: "usable_pool pool" and dir: "meta_dir m = kForward"
    and miss: "conn (lb_nat st) now (meta_key m) = None"
  shows "\<exists>st' m' b. HandlePacket I st m pool now = Inr (st', m', b)
    \<and> (b \<longleftrightarrow> (meta_proto m \<noteq> kProtoTcp \<or> meta_tcp_flags m AND kTcpSyn \<noteq> 0)
        \<and> free_ports (lb_pools st ! picked I pool (meta_key m)) \<noteq> []
        \<and> (\<exists>i < length (nt_slots (lb_nat st)). \<not> occupied (slot (lb_nat st) i)
            \<or> Expired (lb_nat st) (slot (lb_nat st) i) now))
    \<and> (b \<longrightarrow> m' = new_meta I st m pool
        \<and> (harmless (meta_tcp_flags m) \<longrightarrow> (\<exists>f. conn (lb_nat st') now (meta_key m) = Some f \<and> m' = fwd_meta m f)))
    \<and> (\<not> b \<longrightarrow> m' = m \<and> lb_pools st' = lb_pools st \<and> lb_stats st' = lb_stats st
        \<and> conn (lb_nat st') now = conn (lb_nat st) now \<and> length (nt_slots (lb_nat st')) = length (nt_slots (lb_nat st))
        \<and> (\<forall>i < length (nt_slots (lb_nat st)). slot (lb_nat st') i = slot (lb_nat st) i
            \<or> Expired (lb_nat st) (slot (lb_nat st) i) now \<and> slot (lb_nat st') i = (slot (lb_nat st) i)\<lparr>reaped := True\<rparr>))"
proof -
  obtain st' m' b where h: "HandlePacket I st m pool now = Inr (st', m', b)"
    "b \<longleftrightarrow> may_open m \<and> free_ports (lb_pools st ! picked I pool (meta_key m)) \<noteq> []
        \<and> (\<exists>i < length (nt_slots (lb_nat st)). usable (lb_nat st) now i)" "b \<longrightarrow> m' = new_meta I st m pool"
    "\<not> b \<longrightarrow> m' = m \<and> lb_pools st' = lb_pools st \<and> lb_stats st' = lb_stats st
        \<and> st' = st\<lparr>lb_nat := fst (LookupForward I (lb_nat st) (meta_key m) now)\<rparr>"
    using forward_miss [OF assms] by blast
  obtain t1 r where look: "LookupForward I (lb_nat st) (meta_key m) now = (t1, r)" by fastforce
  note rf = refused_conn [OF inv miss look]
  have "\<exists>f. conn (lb_nat st') now (meta_key m) = Some f \<and> m' = fwd_meta m f" if "b" "harmless (meta_tcp_flags m)"
    by (rule accepted_conn [OF inv pool dir _ that(2)]) (use h(1) that(1) in auto)
  moreover have "conn (lb_nat st') now = conn (lb_nat st) now \<and> length (nt_slots (lb_nat st')) = length (nt_slots (lb_nat st))
      \<and> (\<forall>i < length (nt_slots (lb_nat st)). slot (lb_nat st') i = slot (lb_nat st) i
        \<or> Expired (lb_nat st) (slot (lb_nat st) i) now \<and> slot (lb_nat st') i = (slot (lb_nat st) i)\<lparr>reaped := True\<rparr>)" if "\<not> b"
  proof -
    have "lb_nat st' = t1" using h(4) that look by simp
    with rf show ?thesis by blast
  qed
  ultimately show ?thesis
    using h(1,3,4) h(2) [unfolded may_open_def usable_def] by (intro exI [of _ st'] exI [of _ m'] exI [of _ b] conjI impI; blast)
qed

section \<open>A small node for the witnesses\<close>

definition ex_pool :: "u8 list \<Rightarrow> BackendPool" where
  "ex_pool act = \<lparr>bp_slots = [\<lparr>bi_ip = \<lparr>ip_value = 0x0A000101\<rparr>, bi_mac = \<lparr>mac_bytes = [2,0,0,0,1,1]\<rparr>,
     bi_port = 8080, bi_probe_port = 8080\<rparr>,
     \<lparr>bi_ip = \<lparr>ip_value = 0x0A000102\<rparr>, bi_mac = \<lparr>mac_bytes = [2,0,0,0,1,2]\<rparr>,
     bi_port = 8080, bi_probe_port = 8080\<rparr>], bp_active = act\<rparr>"

definition ex_node :: LbNode where
  "ex_node = \<lparr>lb_nat = ex_table, lb_pools = replicate kMaxBackends \<lparr>free_ports = [50001, 50000]\<rparr>,
     lb_stats = LcoreStats_zero\<rparr>"

definition ex_meta :: "u16 \<Rightarrow> u8 \<Rightarrow> PacketMeta" where
  "ex_meta cport flags = \<lparr>meta_src_ip = 0xC0A80005, meta_dst_ip = 0x0A000001, meta_src_port = cport,
     meta_dst_port = 80, meta_proto = 6, meta_dir = kForward, meta_backend_ip = \<lparr>ip_value = 0\<rparr>,
     meta_backend_mac = \<lparr>mac_bytes = [0,0,0,0,0,0]\<rparr>, meta_backend_port = 0, meta_snat_port = 0,
     meta_client_ip = \<lparr>ip_value = 0\<rparr>, meta_client_mac = \<lparr>mac_bytes = [2,0,0,0,0,9]\<rparr>, meta_client_port = 0,
     meta_tcp_flags = flags\<rparr>"

lemma ex_node_inv: "lb_inv I {#50000, 50001#} ex_node"
proof -
  have "nt_slots ex_table = replicate 4 NatFlow_default" by (simp add: ex_table_def NatTable_new_def)
  moreover have "ledger ex_node b = {#50000, 50001#}" if "b < kMaxBackends" for b
    using that calculation by (simp add: ledger_def ex_node_def held_ports_default)
  ultimately show ?thesis
    using ex_table_inv by (simp add: lb_inv_def ex_node_def flow_ok_def NatFlow_default_def)
qed

lemma ex_pool_usable: "set act \<subseteq> {0, 1} \<Longrightarrow> act \<noteq> [] \<Longrightarrow> usable_pool (ex_pool act)"
  by (auto simp: usable_pool_def pool_ok_def ex_pool_def kMaxBackends_def)

lemma ex_node_conn: "conn (lb_nat ex_node) now key = None"
  by (auto simp: conn_def find_None_iff ex_node_def ex_table_def NatTable_new_def NatFlow_default_def)

lemma picked_one: "picked I (ex_pool [b]) key = unat b"
  by (simp add: picked_def ex_pool_def)

lemma ex_slot: "0 < length (nt_slots (lb_nat ex_node))" "\<not> occupied (slot (lb_nat ex_node) 0)"
  by (simp_all add: ex_node_def ex_table_def NatTable_new_def NatFlow_default_def)

lemma ex_node_ports: "b < 64 \<Longrightarrow> free_ports (lb_pools ex_node ! b) = [50001, 50000]"
  by (simp add: ex_node_def kMaxBackends_def)

lemma ex_open:
  "meta_dir (ex_meta c f) = kForward" "meta_tcp_flags (ex_meta c 2) AND kTcpSyn \<noteq> 0"
  "free_ports (lb_pools ex_node ! picked I (ex_pool [1]) key) \<noteq> []"
  "\<exists>i < length (nt_slots (lb_nat ex_node)). \<not> occupied (slot (lb_nat ex_node) i)
     \<or> Expired (lb_nat ex_node) (slot (lb_nat ex_node) i) now"
  using ex_slot ex_node_ports [of 1] by (auto simp: picked_one ex_meta_def kTcpSyn_def)

lemma ex_new_meta:
  "meta_snat_port (new_meta I ex_node m (ex_pool [1])) = 50000"
  "meta_backend_ip (new_meta I ex_node m (ex_pool [1])) = \<lparr>ip_value = 0x0A000102\<rparr>"
  by (simp_all add: new_meta_def Let_def picked_one ex_node_ports) (simp add: ex_pool_def)

theorem new_connection_witness:
  "\<exists>st' m'. HandlePacket Generic ex_node (ex_meta 40000 2) (ex_pool [1]) 5 = Inr (st', m', True)
     \<and> meta_snat_port m' = 50000 \<and> meta_backend_ip m' = \<lparr>ip_value = 0x0A000102\<rparr>"
proof -
  have "usable_pool (ex_pool [1])" by (rule ex_pool_usable) simp_all
  from new_connection [OF ex_node_inv this ex_open(1) ex_node_conn, of Generic 40000 2 5]
  obtain st' where "HandlePacket Generic ex_node (ex_meta 40000 2) (ex_pool [1]) 5 =
      Inr (st', new_meta Generic ex_node (ex_meta 40000 2) (ex_pool [1]), True)"
    by (auto simp: ex_open(2,3) ex_open(4) [of 5, simplified])
  then show ?thesis by (simp add: ex_new_meta)
qed

lemma ex_opened:
  obtains st1 where "HandlePacket Generic ex_node (ex_meta 40000 2) (ex_pool [1]) 5 =
    Inr (st1, new_meta Generic ex_node (ex_meta 40000 2) (ex_pool [1]), True)"
proof -
  have "usable_pool (ex_pool [1])" by (rule ex_pool_usable) simp_all
  from forward_miss [OF ex_node_inv this ex_open(1) ex_node_conn, of Generic 40000 2 5] that
  show ?thesis by (auto simp: may_open_def usable_def ex_open(2,3) ex_open(4) [of 5, simplified])
qed

theorem session_affinity_witness:
  "\<exists>st1 m1' st2 st3 m2'. HandlePacket Generic ex_node (ex_meta 40000 2) (ex_pool [1]) 5 = Inr (st1, m1', True)
    \<and> lb_run Generic st1 [(ex_meta 40001 2, ex_pool [0], 7)] = Inr st2
    \<and> HandlePacket Generic st2 (ex_meta 40000 16) (ex_pool [0]) 905 = Inr (st3, m2', True)
    \<and> meta_snat_port m2' = meta_snat_port m1' \<and> meta_backend_ip m2' = \<lparr>ip_value = 0x0A000102\<rparr>"
proof -
  let ?m1' = "new_meta Generic ex_node (ex_meta 40000 2) (ex_pool [1])"
  obtain st1 where run: "HandlePacket Generic ex_node (ex_meta 40000 2) (ex_pool [1]) 5 = Inr (st1, ?m1', True)"
    by (rule ex_opened)
  have "\<exists>st2 st3 m2'. lb_run Generic st1 [(ex_meta 40001 2, ex_pool [0], 7)] = Inr st2
    \<and> HandlePacket Generic st2 (ex_meta 40000 16) (ex_pool [0]) 905 = Inr (st3, m2', True)
    \<and> meta_backend_ip m2' = meta_backend_ip ?m1' \<and> meta_backend_mac m2' = meta_backend_mac ?m1'
    \<and> meta_backend_port m2' = meta_backend_port ?m1' \<and> meta_snat_port m2' = meta_snat_port ?m1'"
    by (rule session_affinity [OF ex_node_inv ex_pool_usable _ _ run])
      (simp_all add: ex_meta_def harmless_def kTcpFin_def kTcpRst_def ex_pool_usable ex_node_def
        ex_table_def NatTable_new_def meta_key_def)
  with run show ?thesis by (auto simp: ex_new_meta)
qed

section \<open>Closing\<close>

lemma conn_Some_slot:
  assumes "lb_inv I P st" and "conn (lb_nat st) now key = Some f"
  obtains i where "i < length (nt_slots (lb_nat st))" "slot (lb_nat st) i = f" "live f"
    "\<not> Expired (lb_nat st) f now" "fwd_key f = key"
proof -
  obtain i where i: "i < length (nt_slots (lb_nat st))" "slot (lb_nat st) i = f" "occupied f"
    "\<not> Expired (lb_nat st) f now" "fwd_key f = key"
    using assms(2) conn_Some_iff [OF lb_invD(1) [OF assms(1)], of now key f] by blast
  have "live f" using i(3,4) by (auto simp: live_def Expired_def)
  with i that show thesis by blast
qed

lemma closed_conn:
  assumes inv: "lb_inv I P st" and i: "i < length (nt_slots (lb_nat st))" "live (slot (lb_nat st) i)"
    and sl: "nt_slots t' = (nt_slots (lb_nat st))[i := g]" and g: "\<not> live g" and ni: "nat_inv I t'"
  shows "conn t' n (fwd_key (slot (lb_nat st) i)) = None"
proof (rule ccontr)
  assume "conn t' n (fwd_key (slot (lb_nat st) i)) \<noteq> None"
  then obtain f where "conn t' n (fwd_key (slot (lb_nat st) i)) = Some f" by blast
  then obtain j where j: "j < length (nt_slots t')" "occupied (slot t' j)" "\<not> Expired t' (slot t' j) n"
    "fwd_key (slot t' j) = fwd_key (slot (lb_nat st) i)"
    unfolding conn_Some_iff [OF ni] by blast
  then have lj: "live (slot t' j)" by (auto simp: live_def Expired_def)
  with g sl i(1) have "j \<noteq> i" by auto
  with sl j lj have "j < length (nt_slots (lb_nat st))" "live (slot (lb_nat st) j)"
    "fwd_key (slot (lb_nat st) j) = fwd_key (slot (lb_nat st) i)" by auto
  with lb_invD(1) [OF inv] i \<open>j \<noteq> i\<close> show False unfolding nat_inv_def uniq_ok_def by blast
qed

lemma closed_reverse:
  assumes inv: "lb_inv I P st" and gone: "\<And>n. conn (lb_nat st) n key = None"
    and look: "snd (LookupReverse I (lb_nat st) bip bp sp pr now) = Some j"
  shows "fwd_key (slot (lb_nat st) j) \<noteq> key"
proof
  assume k: "fwd_key (slot (lb_nat st) j) = key"
  obtain t1 where run: "LookupReverse I (lb_nat st) bip bp sp pr now = (t1, Some j)" using look by (metis prod.collapse)
  from LookupReverse_hit [OF lb_invD(2) [OF inv] run]
  have "j < length (nt_slots (lb_nat st))" "occupied (slot (lb_nat st) j)" "\<not> Expired (lb_nat st) (slot (lb_nat st) j) now"
    by (auto simp: rev_hit_def)
  with k have "conn (lb_nat st) now key = Some (slot (lb_nat st) j)" unfolding conn_Some_iff [OF lb_invD(1) [OF inv]] by blast
  with gone show False by simp
qed

text \<open>The teardown of the slot a lookup answered.\<close>

lemma teardown_found:
  assumes inv: "lb_inv I P (st\<lparr>lb_nat := t1\<rparr>)" and i: "i < length (nt_slots t1)" "live (slot t1 i)"
    and c: "closes (slot t1 i) dir fl"
  defines "st' \<equiv> MaybeTeardown (st\<lparr>lb_nat := t1\<rparr>) i dir fl"
  shows "lb_inv I P st'" and "conn (lb_nat st') n (fwd_key (slot t1 i)) = None"
    and "free_ports (lb_pools st' ! unat (backend_idx (slot t1 i))) =
      free_ports (lb_pools st ! unat (backend_idx (slot t1 i))) @ [snat_port (slot t1 i)]"
proof -
  let ?st1 = "st\<lparr>lb_nat := t1\<rparr>" and ?f = "slot t1 i"
  have i1: "i < length (nt_slots (lb_nat ?st1))" "live (slot (lb_nat ?st1) i)" using i by simp_all
  have fo: "snat_port ?f \<noteq> 0" "unat (backend_idx ?f) < kMaxBackends" using flow_okD_live [OF lb_invD(4) [OF inv i1(1)] i1(2)] by auto
  show inv': "lb_inv I P st'" unfolding st'_def by (rule MaybeTeardown_inv [OF inv i1])
  obtain t' where t': "nt_slots t' = (nt_slots t1)[i := (fin_bits ?f dir fl)\<lparr>reaped := True, snat_port := 0\<rparr>]"
    and td: "st' = pool_release (backend_idx ?f) (snat_port ?f) (?st1\<lparr>lb_nat := t'\<rparr>)"
    using MaybeTeardown_eq(2) [OF i1, of dir fl] c fo(1) by (auto simp: st'_def)
  have "nat_inv I t'" using lb_invD(1) [OF inv'] td by simp
  then show "conn (lb_nat st') n (fwd_key ?f) = None"
    using closed_conn [OF inv i1, of t' "(fin_bits ?f dir fl)\<lparr>reaped := True, snat_port := 0\<rparr>" n] t' td by (simp add: live_def)
  show "free_ports (lb_pools st' ! unat (backend_idx ?f)) = free_ports (lb_pools st ! unat (backend_idx ?f)) @ [snat_port ?f]"
    using fo(2) lb_invD(3) [OF inv] by (simp add: td pool_release_def Release_def)
qed

lemma teardown_step:
  assumes inv: "lb_inv I P st" and i: "i < length (nt_slots (lb_nat st))" "occupied (slot (lb_nat st) i)" "\<not> Expired (lb_nat st) (slot (lb_nat st) i) now"
    and hit: "if meta_dir m = kForward then fwd_key (slot (lb_nat st) i) = meta_key m
      else snd (LookupReverse I (lb_nat st) (meta_src_ip m) (meta_src_port m) (meta_dst_port m) (meta_proto m) now) = Some i"
    and c: "closes (slot (lb_nat st) i) (meta_dir m) (meta_tcp_flags m)"
  obtains t1 where "quiet (lb_nat st) t1" "lb_inv I P (st\<lparr>lb_nat := t1\<rparr>)" "slot t1 i = (slot (lb_nat st) i)\<lparr>last_seen_ms := now\<rparr>"
    "i < length (nt_slots t1)" "live (slot t1 i)"
    "HandlePacket I st m pool now = Inr (MaybeTeardown (st\<lparr>lb_nat := t1\<rparr>) i (meta_dir m) (meta_tcp_flags m),
       (if meta_dir m = kForward then fwd_meta m (slot (lb_nat st) i) else rev_meta m (slot (lb_nat st) i)), True)"
proof (cases "meta_dir m")
  case kForward
  obtain t1 r where look: "LookupForward I (lb_nat st) (meta_key m) now = (t1, r)" by fastforce
  have r: "r = Some i" using LookupForward_Some_iff [OF lb_invD(1) [OF inv] look, of i] i hit kForward by auto
  note sv = LookupForward_served [OF inv look] and sp = LookupForward_spec [OF lb_invD(2) [OF inv] look]
  show thesis
    by (rule that [OF sp(3) sv(1) sp(4) [OF r]])
      (use sv(2) [OF r] look r kForward sp(4) [OF r] in \<open>auto simp: HandlePacket_def finish_fwd_def fwd_meta_def\<close>)
next
  case kReverse
  then obtain t1 where look: "LookupReverse I (lb_nat st) (meta_src_ip m) (meta_src_port m) (meta_dst_port m) (meta_proto m) now = (t1, Some i)"
    using hit by (metis Direction.distinct(1) prod.collapse)
  note sv = LookupReverse_served [OF inv look] and sp = LookupReverse_spec [OF lb_invD(2) [OF inv] look]
  show thesis
    by (rule that [OF sp(3) sv(1) sp(4) [OF refl]])
      (use sv(2) [OF refl] look kReverse sp(4) [OF refl] in \<open>auto simp: HandlePacket_def rev_meta_def\<close>)
qed

text \<open>
  C23. Teardown, from either side. A packet of the client whose connection has flow \<open>f\<close>, or a packet of the backend for which the reverse lookup
  answers \<open>f\<close>, that carries RST, or FIN when the other side's FIN was seen, is still let through with the addresses of the flow; then the connection
  is gone for every later lookup, forward or reverse, and its port is back in the pool of its backend.
\<close>

theorem teardown_releases:
  assumes inv: "lb_inv I P st"
    and f: "(if meta_dir m = kForward then conn (lb_nat st) now (meta_key m)
      else map_option (slot (lb_nat st)) (snd (LookupReverse I (lb_nat st) (meta_src_ip m) (meta_src_port m) (meta_dst_port m) (meta_proto m) now))) = Some f"
    and fl: "meta_tcp_flags m AND kTcpRst \<noteq> 0 \<or> meta_tcp_flags m AND kTcpFin \<noteq> 0
      \<and> fin_seen f OR (if meta_dir m = kForward then kFinForward else kFinReverse) = kFinForward OR kFinReverse"
  shows "\<exists>st'. HandlePacket I st m pool now = Inr (st', (if meta_dir m = kForward then fwd_meta m f else rev_meta m f), True)
    \<and> (\<forall>n. conn (lb_nat st') n (fwd_key f) = None)
    \<and> (\<forall>n bip bp sp pr j. snd (LookupReverse I (lb_nat st') bip bp sp pr n) = Some j \<longrightarrow> fwd_key (slot (lb_nat st') j) \<noteq> fwd_key f)
    \<and> free_ports (lb_pools st' ! unat (backend_idx f)) = free_ports (lb_pools st ! unat (backend_idx f)) @ [snat_port f]"
proof -
  let ?look = "LookupReverse I (lb_nat st) (meta_src_ip m) (meta_src_port m) (meta_dst_port m) (meta_proto m) now"
  obtain i where i: "i < length (nt_slots (lb_nat st))" "slot (lb_nat st) i = f" "occupied f" "\<not> Expired (lb_nat st) f now"
    "if meta_dir m = kForward then fwd_key f = meta_key m else snd ?look = Some i"
  proof (cases "meta_dir m")
    case kForward
    with f conn_Some_iff [OF lb_invD(1) [OF inv], of now "meta_key m" f] that show thesis by auto
  next
    case kReverse
    then obtain i where "snd ?look = Some i" "slot (lb_nat st) i = f" using f by auto
    moreover from this obtain t1 where "?look = (t1, Some i)" by (metis prod.collapse)
    note LookupReverse_hit [OF lb_invD(2) [OF inv] this]
    ultimately show thesis using kReverse that [of i] by (auto simp: rev_hit_def)
  qed
  have c: "closes f (meta_dir m) (meta_tcp_flags m)" using fl by (auto simp: closes_def fin_bits_def)
  obtain t1 where t1: "lb_inv I P (st\<lparr>lb_nat := t1\<rparr>)" "slot t1 i = f\<lparr>last_seen_ms := now\<rparr>" "i < length (nt_slots t1)" "live (slot t1 i)"
    "HandlePacket I st m pool now = Inr (MaybeTeardown (st\<lparr>lb_nat := t1\<rparr>) i (meta_dir m) (meta_tcp_flags m),
       (if meta_dir m = kForward then fwd_meta m f else rev_meta m f), True)"
    by (rule teardown_step [OF inv, of i now m pool]) (use i c in simp_all)
  have c1: "closes (slot t1 i) (meta_dir m) (meta_tcp_flags m)" using c t1(2) by simp
  note td = teardown_found [OF t1(1,3,4) c1]
  have "fwd_key (slot t1 i) = fwd_key f" "backend_idx (slot t1 i) = backend_idx f" "snat_port (slot t1 i) = snat_port f" by (simp_all add: t1(2))
  note td' = td(2,3) [unfolded this] and gone = closed_reverse [OF td(1,2), unfolded this]
  from t1(5) td' gone show ?thesis by (intro exI conjI allI impI)
qed


section \<open>Ports\<close>

lemma mset_eq_set:
  assumes "distinct xs" shows "mset xs = mset_set (set xs)"
  using assms by (simp add: mset_set_set)

text \<open>
  C14. Over every history of a node of worker \<open>w\<close> of \<open>n\<close>, for every backend slot, the
  free ports and the ports its flows hold are together exactly the worker's share of the
  ephemeral range, each once: no port is ever lost, and none is in two places.
\<close>

theorem ports_conserved:
  assumes reach: "lb_reach I cap cfg w n st" and cap: "cap AND (cap - 1) = 0" "cap \<noteq> 0"
    and b: "b < kMaxBackends"
  shows "mset (free_ports (lb_pools st ! b))
      + mset (map snat_port (filter (\<lambda>f. occupied f \<and> unat (backend_idx f) = b \<and> snat_port f \<noteq> 0)
          (nt_slots (lb_nat st))))
    = mset_set {p. 1024 \<le> unat p \<and> unat p mod unat n = unat w}"
proof -
  have set_eq: "set (worker_ports (unat w) (unat n) 1024 65535) = {p. 1024 \<le> unat p \<and> unat p mod unat n = unat w}"
    using unat16_less by (auto simp: set_worker_ports less_Suc_eq_le [symmetric])
  have "all_ports w n = mset_set {p. 1024 \<le> unat p \<and> unat p mod unat n = unat w}"
    unfolding all_ports_def set_eq [symmetric] by (rule mset_eq_set) (simp add: distinct_worker_ports)
  with lb_invD(5) [OF lb_reach_inv [OF reach cap] b] show ?thesis
    by (simp add: ledger_def held_ports_def holds_def [abs_def])
qed

lemma all_ports_once: "count (all_ports w n) p \<le> 1"
  using distinct_worker_ports [of 65535 "unat w" "unat n" 1024]
  by (simp add: all_ports_def distinct_count_atmost_1)

lemma held_twice:
  assumes "i < length fs" "j < length fs" "i \<noteq> j" "holds b (fs ! i)" "holds b (fs ! j)"
    and "snat_port (fs ! i) = snat_port (fs ! j)"
  shows "2 \<le> count (held_ports b fs) (snat_port (fs ! i))"
proof -
  let ?fs = "fs[i := NatFlow_default]"
  have "hold1 b NatFlow_default = {#}" by (simp add: hold1_def holds_def NatFlow_default_def)
  then have eq1: "held_ports b ?fs + {#snat_port (fs ! i)#} = held_ports b fs"
    using held_ports_update [OF assms(1), of b NatFlow_default] assms(4) by (simp add: hold1_def)
  have eq2: "held_ports b (?fs[j := NatFlow_default]) + {#snat_port (fs ! j)#} = held_ports b ?fs"
    using held_ports_update [of j ?fs b NatFlow_default] assms(2,3,5) \<open>hold1 b NatFlow_default = {#}\<close>
    by (simp add: hold1_def)
  from eq1 eq2 assms(6) have "held_ports b fs = held_ports b (?fs[j := NatFlow_default])
      + {#snat_port (fs ! i)#} + {#snat_port (fs ! i)#}" by simp
  then show ?thesis by simp
qed

lemma live_ports_differ:
  assumes inv: "lb_inv I P st" and P: "\<And>p. count P p \<le> 1"
    and i: "i < length (nt_slots (lb_nat st))" "live (slot (lb_nat st) i)"
    and j: "j < length (nt_slots (lb_nat st))" "live (slot (lb_nat st) j)"
    and ij: "i \<noteq> j" and b: "backend_idx (slot (lb_nat st) i) = backend_idx (slot (lb_nat st) j)"
  shows "snat_port (slot (lb_nat st) i) \<noteq> snat_port (slot (lb_nat st) j)"
proof
  assume eq: "snat_port (slot (lb_nat st) i) = snat_port (slot (lb_nat st) j)"
  let ?b = "unat (backend_idx (slot (lb_nat st) i))"
  have fo: "snat_port (slot (lb_nat st) i) \<noteq> 0" "?b < kMaxBackends"
    using flow_okD_live [OF lb_invD(4) [OF inv i(1)] i(2)] by auto
  have "2 \<le> count (held_ports ?b (nt_slots (lb_nat st))) (snat_port (slot (lb_nat st) i))"
    using i j b eq fo by (intro held_twice [OF i(1) j(1) ij]) (auto simp: holds_def live_def)
  also have "\<dots> \<le> count P (snat_port (slot (lb_nat st) i))"
    unfolding lb_invD(5) [OF inv fo(2), symmetric] ledger_def by simp
  finally show False using P [of "snat_port (slot (lb_nat st) i)"] by simp
qed

lemma inv_port_facts:
  assumes inv: "lb_inv I (all_ports w n) st"
    and i: "i < length (nt_slots (lb_nat st))" "occupied (slot (lb_nat st) i)" "\<not> reaped (slot (lb_nat st) i)"
  shows "unat (snat_port (slot (lb_nat st) i)) mod unat n = unat w
    \<and> 1024 \<le> unat (snat_port (slot (lb_nat st) i))
    \<and> snat_port (slot (lb_nat st) i) \<notin> set (free_ports (lb_pools st ! unat (backend_idx (slot (lb_nat st) i))))
    \<and> (\<forall>j < length (nt_slots (lb_nat st)). j \<noteq> i \<and> occupied (slot (lb_nat st) j) \<and> \<not> reaped (slot (lb_nat st) j)
        \<and> backend_idx (slot (lb_nat st) j) = backend_idx (slot (lb_nat st) i)
        \<longrightarrow> snat_port (slot (lb_nat st) j) \<noteq> snat_port (slot (lb_nat st) i))"
proof -
  let ?f = "slot (lb_nat st) i"
  have fo: "snat_port ?f \<noteq> 0" "unat (backend_idx ?f) < kMaxBackends"
    using flow_okD_live [OF lb_invD(4) [OF inv i(1)]] i by (auto simp: live_def)
  have "?f \<in> set (filter (holds (unat (backend_idx ?f))) (nt_slots (lb_nat st)))"
    using i fo by (simp add: holds_def)
  then have held: "snat_port ?f \<in># held_ports (unat (backend_idx ?f)) (nt_slots (lb_nat st))"
    by (simp add: held_ports_def)
  note led = lb_invD(5) [OF inv fo(2), symmetric, unfolded ledger_def]
  have "0 < count (held_ports (unat (backend_idx ?f)) (nt_slots (lb_nat st))) (snat_port ?f)"
    using held by (simp only: count_greater_zero_iff)
  moreover have "count (mset (free_ports (lb_pools st ! unat (backend_idx ?f)))) (snat_port ?f)
      + count (held_ports (unat (backend_idx ?f)) (nt_slots (lb_nat st))) (snat_port ?f) \<le> 1"
    using all_ports_once [of w n "snat_port ?f"] by (simp only: led count_union)
  ultimately have "count (mset (free_ports (lb_pools st ! unat (backend_idx ?f)))) (snat_port ?f) = 0"
    by linarith
  then have "snat_port ?f \<notin> set (free_ports (lb_pools st ! unat (backend_idx ?f)))"
    by (simp only: count_eq_zero_iff set_mset_mset not_False_eq_True)
  moreover have "snat_port ?f \<in># all_ports w n" using held led by simp
  moreover have "snat_port (slot (lb_nat st) j) \<noteq> snat_port ?f"
    if "j < length (nt_slots (lb_nat st))" "j \<noteq> i" "live (slot (lb_nat st) j)"
      "backend_idx (slot (lb_nat st) j) = backend_idx ?f" for j
    using that i live_ports_differ [OF inv all_ports_once] by (metis live_def)
  moreover have "snat_port ?f \<in># all_ports w n \<longleftrightarrow>
      1024 \<le> unat (snat_port ?f) \<and> unat (snat_port ?f) mod unat n = unat w"
    using unat16_less [of "snat_port ?f"] by (auto simp: all_ports_def set_worker_ports)
  ultimately show ?thesis unfolding live_def by blast
qed

lemma live_port_facts:
  assumes reach: "lb_reach I cap cfg w n st" and cap: "cap AND (cap - 1) = 0" "cap \<noteq> 0"
    and i: "i < length (nt_slots (lb_nat st))" "occupied (slot (lb_nat st) i)" "\<not> reaped (slot (lb_nat st) i)"
  shows "unat (snat_port (slot (lb_nat st) i)) mod unat n = unat w
    \<and> 1024 \<le> unat (snat_port (slot (lb_nat st) i))
    \<and> snat_port (slot (lb_nat st) i) \<notin> set (free_ports (lb_pools st ! unat (backend_idx (slot (lb_nat st) i))))
    \<and> (\<forall>j < length (nt_slots (lb_nat st)). j \<noteq> i \<and> occupied (slot (lb_nat st) j) \<and> \<not> reaped (slot (lb_nat st) j)
        \<and> backend_idx (slot (lb_nat st) j) = backend_idx (slot (lb_nat st) i)
        \<longrightarrow> snat_port (slot (lb_nat st) j) \<noteq> snat_port (slot (lb_nat st) i))"
  by (rule inv_port_facts [OF lb_reach_inv [OF reach cap] i])

text \<open>
  C15. Over every history, two valid flows of one backend never have the same source port, a
  valid flow's port is not free, and it belongs to the worker: its remainder modulo the number
  of workers is the worker's id.
\<close>

theorem no_shared_port:
  assumes reach: "lb_reach I cap cfg w n st" and cap: "cap AND (cap - 1) = 0" "cap \<noteq> 0"
    and i: "i < length (nt_slots (lb_nat st))" "occupied (slot (lb_nat st) i)" "\<not> reaped (slot (lb_nat st) i)"
  shows "unat (snat_port (slot (lb_nat st) i)) mod unat n = unat w
    \<and> 1024 \<le> unat (snat_port (slot (lb_nat st) i))
    \<and> snat_port (slot (lb_nat st) i) \<notin> set (free_ports (lb_pools st ! unat (backend_idx (slot (lb_nat st) i))))
    \<and> (\<forall>j < length (nt_slots (lb_nat st)). j \<noteq> i \<and> occupied (slot (lb_nat st) j) \<and> \<not> reaped (slot (lb_nat st) j)
        \<and> backend_idx (slot (lb_nat st) j) = backend_idx (slot (lb_nat st) i)
        \<longrightarrow> snat_port (slot (lb_nat st) j) \<noteq> snat_port (slot (lb_nat st) i))"
  by (rule live_port_facts [OF assms])

section \<open>Witnesses for closing and ports\<close>

lemma ex_harmless: "harmless (meta_tcp_flags (ex_meta c 2))"
  by (simp add: harmless_def ex_meta_def kTcpFin_def kTcpRst_def)

lemma ex_meta_key: "meta_key (ex_meta c f) = meta_key (ex_meta c 2)"
  by (simp add: ex_meta_def meta_key_def)

theorem teardown_releases_witness:
  "\<exists>st1 st2 m2. HandlePacket Generic ex_node (ex_meta 40000 2) (ex_pool [1]) 5 =
       Inr (st1, new_meta Generic ex_node (ex_meta 40000 2) (ex_pool [1]), True)
     \<and> HandlePacket Generic st1 (ex_meta 40000 4) (ex_pool [1]) 5 = Inr (st2, m2, True)
     \<and> (\<forall>n. conn (lb_nat st2) n (meta_key (ex_meta 40000 2)) = None)"
proof -
  obtain st1 where o: "HandlePacket Generic ex_node (ex_meta 40000 2) (ex_pool [1]) 5 =
       Inr (st1, new_meta Generic ex_node (ex_meta 40000 2) (ex_pool [1]), True)" by (rule ex_opened)
  have "usable_pool (ex_pool [1])" by (rule ex_pool_usable) simp_all
  from accepted_conn [OF ex_node_inv this ex_open(1) o ex_harmless]
  obtain f where f: "conn (lb_nat st1) 5 (meta_key (ex_meta 40000 2)) = Some f"
    "lb_inv Generic {#50000, 50001#} st1" by metis
  then have f4: "conn (lb_nat st1) 5 (meta_key (ex_meta 40000 4)) = Some f"
    by (simp add: ex_meta_key [of _ 4])
  have "fwd_key f = meta_key (ex_meta 40000 2)" using f(1) conn_Some_iff [OF lb_invD(1) [OF f(2)]] by blast
  moreover have "(if meta_dir (ex_meta 40000 4) = kForward then conn (lb_nat st1) 5 (meta_key (ex_meta 40000 4))
      else map_option (slot (lb_nat st1)) (snd (LookupReverse Generic (lb_nat st1) (meta_src_ip (ex_meta 40000 4)) (meta_src_port (ex_meta 40000 4))
        (meta_dst_port (ex_meta 40000 4)) (meta_proto (ex_meta 40000 4)) 5))) = Some f" using f4 by (simp add: ex_open(1))
  note teardown_releases [OF f(2) this, of "ex_pool [1]"]
  ultimately have "\<exists>st'. HandlePacket Generic st1 (ex_meta 40000 4) (ex_pool [1]) 5 = Inr (st', fwd_meta (ex_meta 40000 4) f, True)
    \<and> (\<forall>n. conn (lb_nat st') n (meta_key (ex_meta 40000 2)) = None)" by (simp add: ex_open(1)) (auto simp: ex_meta_def kTcpRst_def)
  with o show ?thesis by auto
qed

lemma LbNode_new_eq:
  "LbNode_new cap cfg stats w n = Some (Inr \<lparr>lb_nat = NatTable_new cap (conntrack_timeout_ms cfg),
     lb_pools = replicate kMaxBackends \<lparr>free_ports = worker_ports (unat w) (unat n) 1024 65535\<rparr>, lb_stats = stats\<rparr>)"
  by (simp add: LbNode_new_def ForWorker_free kEphemeralLow_def kEphemeralHigh_def)

definition ex_boot :: LbNode where
  "ex_boot = \<lparr>lb_nat = NatTable_new 4 1000, lb_pools = replicate kMaxBackends \<lparr>free_ports = worker_ports 0 1 1024 65535\<rparr>,
     lb_stats = LcoreStats_zero\<rparr>"

lemma ex_boot_reach: "lb_reach I 4 ex_cfg 0 1 ex_boot"
  by (rule lb_reach.start [of _ _ LcoreStats_zero]) (simp add: LbNode_new_eq ex_boot_def ex_cfg_def)

theorem ports_conserved_witness:
  "mset (free_ports (lb_pools ex_boot ! 3))
      + mset (map snat_port (filter (\<lambda>f. occupied f \<and> unat (backend_idx f) = 3 \<and> snat_port f \<noteq> 0)
          (nt_slots (lb_nat ex_boot))))
    = mset_set {p. 1024 \<le> unat p \<and> unat p mod unat (1 :: u16) = unat (0 :: u16)}"
  by (rule ports_conserved [OF ex_boot_reach]) (simp_all add: kMaxBackends_def)

lemma ex_boot_inv: "lb_inv I (all_ports 0 1) ex_boot"
  by (rule lb_reach_inv [OF ex_boot_reach]) simp_all

lemma ex_pool_built: "built_pool (ex_pool [1])"
  unfolding built_pool_def
  by (rule exI [of _ "bp_slots (ex_pool [1])"], rule exI [of _ "[0, 1]"])
    (simp add: BackendPool_enabled_eq enabled_idx_def kMaxBackends_def upt_rec, simp add: ex_pool_def
      BackendPool_enabled_eq enabled_idx_def kMaxBackends_def upt_rec)

lemma worker_ports_nonempty: "worker_ports 0 1 1024 65535 \<noteq> []"
proof
  assume "worker_ports 0 1 1024 65535 = []"
  then have "set (worker_ports 0 1 1024 65535) = {}" by simp
  moreover have "(2000 :: u16) \<in> set (worker_ports 0 1 1024 65535)" by (subst set_worker_ports) simp_all
  ultimately show False by simp
qed

lemma ex_boot_opened:
  obtains st1 m1 where "HandlePacket Generic ex_boot (ex_meta 40000 2) (ex_pool [1]) 5 = Inr (st1, m1, True)"
proof -
  have slots: "nt_slots (lb_nat ex_boot) = replicate 4 NatFlow_default" by (simp add: ex_boot_def NatTable_new_def)
  then have miss: "conn (lb_nat ex_boot) 5 (meta_key (ex_meta 40000 2)) = None"
    by (auto simp: conn_def find_None_iff NatFlow_default_def)
  have "\<exists>i < length (nt_slots (lb_nat ex_boot)). usable (lb_nat ex_boot) 5 i"
    by (rule exI [of _ 0]) (simp add: slots usable_def NatFlow_default_def)
  moreover have "free_ports (lb_pools ex_boot ! 1) \<noteq> []"
    by (simp add: ex_boot_def kMaxBackends_def worker_ports_nonempty [unfolded One_nat_def])
  moreover have "may_open (ex_meta 40000 2)" by (simp add: may_open_def ex_open)
  moreover have "usable_pool (ex_pool [1])" by (rule ex_pool_usable) simp_all
  note forward_miss [OF ex_boot_inv [of Generic] this ex_open(1) miss]
  ultimately have "\<exists>st' m'. HandlePacket Generic ex_boot (ex_meta 40000 2) (ex_pool [1]) 5 = Inr (st', m', True)"
    by (auto simp: picked_one)
  with that show ?thesis by blast
qed

lemma ex_reach_live:
  obtains st i where "lb_reach Generic 4 ex_cfg 0 1 st" "i < length (nt_slots (lb_nat st))" "live (slot (lb_nat st) i)"
proof -
  obtain st1 m1 where o: "HandlePacket Generic ex_boot (ex_meta 40000 2) (ex_pool [1]) 5 = Inr (st1, m1, True)"
    by (rule ex_boot_opened)
  have up: "usable_pool (ex_pool [1])" by (rule ex_pool_usable) simp_all
  obtain i where i: "i < length (nt_slots (lb_nat st1))" "live (slot (lb_nat st1) i)"
    using forward_accepted [OF ex_boot_inv up ex_open(1) o ex_harmless] by metis
  let ?rcu = "\<lparr>rcu_ptr = Some (ex_pool [1])\<rparr>"
  let ?st = "st1\<lparr>lb_stats := (lb_stats st1)\<lparr>active_flows := ucast (nt_size (lb_nat st1))\<rparr>\<rparr>"
  have "ActiveCount (ex_pool [1]) \<noteq> 0" by (simp add: ActiveCount_def ex_pool_def)
  then have "Lb_Process Generic ex_boot ?rcu 5 [ex_meta 40000 2] = Inr (?st, [(m1, kNextDnat)])"
    using o by (simp add: Lb_Process_def Rcu_Load_def)
  moreover have "built_rcu ?rcu" by (simp add: built_rcu_def Rcu_Load_def ex_pool_built)
  ultimately have "lb_reach Generic 4 ex_cfg 0 1 ?st" by (intro lb_reach.batch [OF ex_boot_reach])
  with that [of ?st i] i show thesis by simp
qed

theorem no_shared_port_witness:
  "\<exists>st i. lb_reach Generic 4 ex_cfg 0 1 st \<and> i < length (nt_slots (lb_nat st)) \<and> occupied (slot (lb_nat st) i)
     \<and> \<not> reaped (slot (lb_nat st) i) \<and> 1024 \<le> unat (snat_port (slot (lb_nat st) i))"
proof -
  obtain st i where r: "lb_reach Generic 4 ex_cfg 0 1 st" "i < length (nt_slots (lb_nat st))" "live (slot (lb_nat st) i)"
    by (rule ex_reach_live)
  have "1024 \<le> unat (snat_port (slot (lb_nat st) i))"
    using no_shared_port [OF r(1), of i] r(2,3) by (simp add: live_def)
  with r show ?thesis unfolding live_def by blast
qed

lemma Lb_outputs:
  assumes "Lb_Process I st rcu now ms = Inr (st', outs)"
  shows "snd ` set outs \<subseteq> {kNextDnat, kNextDrop_lb}"
proof -
  have loop: "snd ` set os \<subseteq> {kNextDnat, kNextDrop_lb}" if "Lb_loop I s pool now ms = Inr (s', os)" for s s' os pool
    using that
  proof (induction ms arbitrary: s os)
    case (Cons m ms)
    then show ?case by (fastforce simp: bind_r_def split: sum.splits prod.splits if_splits)
  qed simp
  show ?thesis
    using assms loop by (auto simp: Lb_Process_def bind_r_def split: option.splits if_splits sum.splits prod.splits)
qed

end
