(* ===== verification/Io_Nodes.thy ===== *)
theory Io_Nodes
  imports Dispatch_Inv Lb_Props
begin

text \<open>
  The nodes at the edges of the graph (\<open>nodes/rx_node.cpp\<close>, \<open>tx_node.cpp\<close>, \<open>drop_node.hpp\<close>,
  \<open>ring_rx_node.hpp\<close>, \<open>ring_tx_node.hpp\<close>, \<open>steer_node.cpp\<close>) and the virtual \<open>Process\<close> of all
  nodes. What DPDK does is a parameter: \<open>dev\<close> holds its functions, on a device state of an
  arbitrary type. The backend pool is read through \<open>AtomicRcu\<close>, which the control thread
  writes at any moment, so a load of it is a function of the device state as well.
  The world of a core records the buffers it took from a device or a ring and those it
  transmitted, put on a ring, or freed.
\<close>

section \<open>Devices\<close>

record 'd dev =
  eth_rx_burst :: "u16 \<Rightarrow> u16 \<Rightarrow> nat \<Rightarrow> 'd \<Rightarrow> mbuf list \<times> 'd"
  eth_tx_burst :: "u16 \<Rightarrow> u16 \<Rightarrow> mbuf list \<Rightarrow> 'd \<Rightarrow> nat \<times> 'd"
  ring_dequeue_burst :: "nat \<Rightarrow> nat \<Rightarrow> 'd \<Rightarrow> mbuf list \<times> 'd"
  ring_enqueue_burst :: "nat \<Rightarrow> mbuf list \<Rightarrow> 'd \<Rightarrow> nat \<times> 'd"
  ring_enqueue :: "nat \<Rightarrow> mbuf \<Rightarrow> 'd \<Rightarrow> int \<times> 'd"
  timer_cycles :: "'d \<Rightarrow> u64"
  timer_hz :: u64
  rcu_load :: "'d \<Rightarrow> BackendPool AtomicRcu \<times> 'd"

text \<open>What the documentation of DPDK promises: a burst call handles at most as many as asked for.
  And what the control thread promises: the pools it stores are built ones.\<close>

definition dev_ok :: "'d dev \<Rightarrow> bool" where
  "dev_ok V \<longleftrightarrow> (\<forall>p q n d. length (fst (eth_rx_burst V p q n d)) \<le> n)
     \<and> (\<forall>p q ms d. fst (eth_tx_burst V p q ms d) \<le> length ms)
     \<and> (\<forall>r n d. length (fst (ring_dequeue_burst V r n d)) \<le> n)
     \<and> (\<forall>r ms d. fst (ring_enqueue_burst V r ms d) \<le> length ms)
     \<and> (\<forall>d. built_rcu (fst (rcu_load V d)))"

record 'd world =
  w_dev :: 'd
  w_stats :: LcoreStats
  w_lb :: "LbNode option"
  w_received :: "mbuf list"
  w_dequeued :: "mbuf list"
  w_sent :: "mbuf list"
  w_ringed :: "(nat \<times> mbuf) list"
  w_freed :: "mbuf list"

definition mbuf_free :: "mbuf list \<Rightarrow> 'd world \<Rightarrow> 'd world" where
  "mbuf_free ms w = w\<lparr>w_freed := w_freed w @ ms\<rparr>"

definition add_rx :: "nat \<Rightarrow> 'd world \<Rightarrow> 'd world" where
  "add_rx k w = w\<lparr>w_stats := (w_stats w)\<lparr>rx_packets := rx_packets (w_stats w) + of_nat k\<rparr>\<rparr>"

definition add_tx :: "nat \<Rightarrow> 'd world \<Rightarrow> 'd world" where
  "add_tx k w = w\<lparr>w_stats := (w_stats w)\<lparr>tx_packets := tx_packets (w_stats w) + of_nat k\<rparr>\<rparr>"

definition add_dropped :: "nat \<Rightarrow> 'd world \<Rightarrow> 'd world" where
  "add_dropped k w = w\<lparr>w_stats := (w_stats w)\<lparr>dropped := dropped (w_stats w) + of_nat k\<rparr>\<rparr>"

section \<open>The nodes at the edges\<close>

type_synonym 'd step_result = "('d world \<times> mbuf frame \<times> mbuf frame list) result"

text \<open>The parameter \<open>nexts\<close> are the output frames, and the result the world, the input frame
  and the output frames after the call.\<close>

definition Rx_Process :: "'d dev \<Rightarrow> u16 \<Rightarrow> u16 \<Rightarrow> 'd world \<Rightarrow> mbuf frame list \<Rightarrow> 'd step_result" where
  "Rx_Process V port_id queue_id w nexts =
     (let (ms, d) = eth_rx_burst V port_id queue_id kBurstSize (w_dev w);
          w1 = add_rx (length ms) (w\<lparr>w_dev := d, w_received := w_received w @ ms\<rparr>)
      in bind_r (emit (map (\<lambda>m. (m, 0)) ms) nexts) (\<lambda>nexts'. Inr (w1, ms, nexts')))"

definition Tx_Process :: "'d dev \<Rightarrow> u16 \<Rightarrow> u16 \<Rightarrow> 'd world \<Rightarrow> mbuf frame \<Rightarrow> mbuf frame list \<Rightarrow> 'd step_result" where
  "Tx_Process V port_id queue_id w ms nexts =
     (let (sent, d) = eth_tx_burst V port_id queue_id ms (w_dev w);
          w1 = w\<lparr>w_dev := d, w_sent := w_sent w @ take sent ms\<rparr>;
          unsent = of_nat (length ms) - of_nat sent :: u16;
          w2 = (if unsent > 0 then mbuf_free (take (unat unsent) (drop sent ms)) w1 else w1)
      in Inr (add_dropped (unat unsent) (add_tx sent w2), [], nexts))"

definition Drop_Process :: "'d world \<Rightarrow> mbuf frame \<Rightarrow> mbuf frame list \<Rightarrow> 'd step_result" where
  "Drop_Process w ms nexts = Inr (mbuf_free ms w, [], nexts)"

definition RingRx_Process :: "'d dev \<Rightarrow> nat \<Rightarrow> 'd world \<Rightarrow> mbuf frame list \<Rightarrow> 'd step_result" where
  "RingRx_Process V rg w nexts =
     (let (ms, d) = ring_dequeue_burst V rg kBurstSize (w_dev w);
          w1 = w\<lparr>w_dev := d, w_dequeued := w_dequeued w @ ms\<rparr>
      in bind_r (emit (map (\<lambda>m. (m, 0)) ms) nexts) (\<lambda>nexts'. Inr (w1, ms, nexts')))"

definition RingTx_Process :: "'d dev \<Rightarrow> nat \<Rightarrow> 'd world \<Rightarrow> mbuf frame \<Rightarrow> mbuf frame list \<Rightarrow> 'd step_result" where
  "RingTx_Process V rg w ms nexts =
     (let (sent, d) = ring_enqueue_burst V rg ms (w_dev w);
          w1 = w\<lparr>w_dev := d, w_ringed := w_ringed w @ map (\<lambda>m. (rg, m)) (take sent ms)\<rparr>;
          w2 = (if sent < length ms
                then add_dropped (length ms - sent) (mbuf_free (drop sent ms) w1) else w1)
      in Inr (w2, [], nexts))"

definition kNextArp_steer :: nat where "kNextArp_steer = 0"

fun Steer_loop :: "isa \<Rightarrow> dpdk \<Rightarrow> Config \<Rightarrow> 'd dev \<Rightarrow> nat list \<Rightarrow> u32 \<Rightarrow> mbuf list \<Rightarrow> 'd world \<Rightarrow> mbuf frame list
    \<Rightarrow> ('d world \<times> mbuf frame list) result" where
  "Steer_loop I D cfg V rings n_workers [] w nexts = Inr (w, nexts)"
| "Steer_loop I D cfg V rings n_workers (m # ms) w nexts =
     (let res = ClassifyForSteer I D cfg n_workers m in
      case steer_cls res of
        kArp \<Rightarrow> bind_r (emit [(m, kNextArp_steer)] nexts) (\<lambda>nexts'. Steer_loop I D cfg V rings n_workers ms w nexts')
      | kSteer \<Rightarrow>
          if unat (steer_worker res) \<ge> length rings then Inl (OutOfRange ''worker_rings_'')
          else let rg = rings ! unat (steer_worker res);
                   (rc, d) = ring_enqueue V rg m (w_dev w);
                   w1 = w\<lparr>w_dev := d\<rparr>;
                   w2 = (if rc \<noteq> 0 then add_dropped 1 (mbuf_free [m] w1)
                         else w1\<lparr>w_ringed := w_ringed w1 @ [(rg, m)]\<rparr>)
               in Steer_loop I D cfg V rings n_workers ms w2 nexts
      | kDrop \<Rightarrow> Steer_loop I D cfg V rings n_workers ms (mbuf_free [m] w) nexts)"

definition Steer_Process :: "isa \<Rightarrow> dpdk \<Rightarrow> Config \<Rightarrow> 'd dev \<Rightarrow> nat list \<Rightarrow> u32 \<Rightarrow> 'd world \<Rightarrow> mbuf frame \<Rightarrow> mbuf frame list
    \<Rightarrow> 'd step_result" where
  "Steer_Process I D cfg V rings n_workers w ms nexts =
     bind_r (Steer_loop I D cfg V rings n_workers ms w nexts) (\<lambda>(w', nexts'). Inr (w', [], nexts'))"

section \<open>All nodes\<close>

text \<open>The node classes with the arguments of their constructors that \<open>Process\<close> uses. The
  configuration, the RCU cell and the counters are shared, and arguments of \<open>Process\<close>.\<close>

datatype node =
    RxNode u16 u16
  | Ip4ParseNode
  | LbNode u16 u16
  | DnatNode
  | EtherRewriteNode
  | TxNode u16 u16
  | DropNode
  | ArpNode
  | SteerNode "nat list" u32
  | RingTxNode nat
  | RingRxNode nat

fun NextCount :: "node \<Rightarrow> nat" where
  "NextCount (RxNode _ _) = 1"
| "NextCount Ip4ParseNode = 4"
| "NextCount (LbNode _ _) = 2"
| "NextCount DnatNode = 1"
| "NextCount EtherRewriteNode = 1"
| "NextCount (TxNode _ _) = 0"
| "NextCount DropNode = 0"
| "NextCount ArpNode = 2"
| "NextCount (SteerNode _ _) = 1"
| "NextCount (RingTxNode _) = 0"
| "NextCount (RingRxNode _) = 1"

definition route :: "'d world \<Rightarrow> (mbuf \<times> nat) list \<Rightarrow> mbuf frame list \<Rightarrow> 'd step_result" where
  "route w outs nexts = bind_r (emit outs nexts) (\<lambda>nexts'. Inr (w, map fst outs, nexts'))"

text \<open>\<open>LbNode::Process\<close> on buffers: the metadata of each goes through the load balancer. The node
  counts in the counters of its core.\<close>

definition LbN_Process :: "isa \<Rightarrow> 'd dev \<Rightarrow> 'd world \<Rightarrow> mbuf frame \<Rightarrow> mbuf frame list \<Rightarrow> 'd step_result" where
  "LbN_Process I V w ms nexts =
     (case w_lb w of
        None \<Rightarrow> Inl AssertFail
      | Some lb \<Rightarrow>
          let (rcu, d) = rcu_load V (w_dev w)
          in bind_r (Lb_Process I (lb\<lparr>lb_stats := w_stats w\<rparr>) rcu (NowMs (timer_cycles V d) (timer_hz V)) (map mb_meta ms)) (\<lambda>(lb', outs).
               route (w\<lparr>w_dev := d, w_lb := Some lb', w_stats := lb_stats lb'\<rparr>)
                 (map2 (\<lambda>m (meta, out). (m\<lparr>mb_meta := meta\<rparr>, out)) ms outs) nexts))"

fun Process :: "isa \<Rightarrow> dpdk \<Rightarrow> Config \<Rightarrow> 'd dev \<Rightarrow> node \<Rightarrow> 'd world \<Rightarrow> mbuf frame \<Rightarrow> mbuf frame list \<Rightarrow> 'd step_result" where
  "Process I D cfg V (RxNode p q) w ms nexts = Rx_Process V p q w nexts"
| "Process I D cfg V Ip4ParseNode w ms nexts = route w (Ip4Parse_Process D cfg ms) nexts"
| "Process I D cfg V (LbNode _ _) w ms nexts = LbN_Process I V w ms nexts"
| "Process I D cfg V DnatNode w ms nexts = route w (Dnat_Process D cfg ms) nexts"
| "Process I D cfg V EtherRewriteNode w ms nexts = route w (EtherRewrite_Process cfg ms) nexts"
| "Process I D cfg V (TxNode p q) w ms nexts = Tx_Process V p q w ms nexts"
| "Process I D cfg V DropNode w ms nexts = Drop_Process w ms nexts"
| "Process I D cfg V ArpNode w ms nexts = route w (Arp_Process cfg ms) nexts"
| "Process I D cfg V (SteerNode rings n) w ms nexts = Steer_Process I D cfg V rings n w ms nexts"
| "Process I D cfg V (RingTxNode r) w ms nexts = RingTx_Process V r w ms nexts"
| "Process I D cfg V (RingRxNode r) w ms nexts = RingRx_Process V r w nexts"

section \<open>The contract of the nodes\<close>

lemma mset_sum_update:
  assumes "i < length xss"
  shows "sum_list (map mset (xss[i := xss ! i @ [x]])) = add_mset x (sum_list (map mset xss))"
  using assms
proof (induction xss arbitrary: i)
  case (Cons ys yss)
  then show ?case by (cases i) auto
qed simp

lemma emit_ok:
  assumes "snd ` set ms \<subseteq> {..<length nexts}" and "\<forall>f \<in> set nexts. length f + length ms \<le> kBurstSize"
  shows "\<exists>nexts'. emit ms nexts = Inr nexts' \<and> length nexts' = length nexts
    \<and> sum_list (map mset nexts') = sum_list (map mset nexts) + mset (map fst ms)
    \<and> (\<forall>f \<in> set nexts'. length f \<le> kBurstSize)"
  using assms
proof (induction ms arbitrary: nexts)
  case Nil
  then show ?case by auto
next
  case (Cons e ms)
  obtain m out where e: "e = (m, out)" by fastforce
  let ?f = "nexts ! out @ [m]"
  have out: "out < length nexts" using Cons.prems(1) by (simp add: e)
  then have room: "length (nexts ! out) < kBurstSize" using Cons.prems(2) nth_mem [OF out] by fastforce
  have "length f + length ms \<le> kBurstSize" if "f \<in> set (nexts[out := ?f])" for f
    using that Cons.prems(2) nth_mem [OF out] set_update_subset_insert [of nexts out ?f] by fastforce
  then have all: "\<forall>f \<in> set (nexts[out := ?f]). length f + length ms \<le> kBurstSize" by blast
  have "snd ` set ms \<subseteq> {..<length (nexts[out := ?f])}" using Cons.prems(1) by auto
  from Cons.IH [OF this all] room out show ?case by (auto simp: e Push_def mset_sum_update)
qed

lemma sum_list_empties [simp]: "sum_list (replicate k ({#} :: 'a multiset)) = {#}"
  by (induction k) simp_all

lemma emit_empties:
  assumes "snd ` set ms \<subseteq> {..<k}" and "length ms \<le> kBurstSize"
  obtains nexts' where "emit ms (replicate k []) = Inr nexts'" "length nexts' = k" "sum_list (map mset nexts') = mset (map fst ms)"
  using emit_ok [of ms "replicate k []"] assms by auto

definition ids :: "mbuf list \<Rightarrow> nat multiset" where
  "ids ms = image_mset mb_id (mset ms)"

lemma ids_simps [simp]: "ids [] = {#}" "ids (m # ms) = add_mset (mb_id m) (ids ms)" "ids (xs @ ys) = ids xs + ids ys"
  by (simp_all add: ids_def)

lemma ids_map [simp]: "ids (map f xs) = image_mset (\<lambda>x. mb_id (f x)) (mset xs)"
  by (simp add: ids_def multiset.map_comp comp_def)

definition world_came :: "'d world \<Rightarrow> nat multiset" where
  "world_came w = ids (w_received w) + ids (w_dequeued w)"

definition world_gone :: "'d world \<Rightarrow> nat multiset" where
  "world_gone w = ids (w_sent w) + ids (map snd (w_ringed w)) + ids (w_freed w)"

text \<open>Whether a node takes its packets from a device, not from its input frame.\<close>

fun is_source :: "node \<Rightarrow> bool" where
  "is_source (RxNode _ _) = True"
| "is_source (RingRxNode _) = True"
| "is_source _ = False"

text \<open>A world in which the given nodes can work: the laws of the devices, a load balancer in a
  legal state where there is one, and a ring for every worker where there is a distributor. The
  counters have grown, since they had the values \<open>s\<close>, by the packets received and sent.\<close>

definition counted :: "LcoreStats \<Rightarrow> 'd world \<Rightarrow> bool" where
  "counted s w \<longleftrightarrow> rx_packets (w_stats w) = rx_packets s + of_nat (length (w_received w))
     \<and> tx_packets (w_stats w) = tx_packets s + of_nat (length (w_sent w))"

definition world_ok :: "isa \<Rightarrow> 'd dev \<Rightarrow> LcoreStats \<Rightarrow> node list \<Rightarrow> 'd world \<Rightarrow> bool" where
  "world_ok I V s nodes w \<longleftrightarrow> dev_ok V \<and> counted s w
     \<and> (\<forall>a b. LbNode a b \<in> set nodes \<longrightarrow> (\<exists>lb. w_lb w = Some lb \<and> lb_inv I (all_ports a b) lb))
     \<and> (\<forall>rings n. SteerNode rings n \<in> set nodes \<longrightarrow> 0 < n \<and> unat n \<le> length rings)"

definition node_ok :: "isa \<Rightarrow> 'd dev \<Rightarrow> LcoreStats \<Rightarrow> node list \<Rightarrow> nat \<Rightarrow> 'd world \<Rightarrow> mbuf frame \<Rightarrow> 'd step_result \<Rightarrow> bool" where
  "node_ok I V s nodes k w x r \<longleftrightarrow> (\<exists>w' x' outs. r = Inr (w', x', outs) \<and> length x' \<le> kBurstSize \<and> length outs = k
     \<and> world_ok I V s nodes w' \<and> world_came w + world_gone w' + image_mset mb_id (sum_list (map mset outs))
         = world_came w' + world_gone w + image_mset mb_id (mset x))"

lemma world_ok_same:
  "world_ok I V s nodes w \<Longrightarrow> w_lb w' = w_lb w \<Longrightarrow> counted s w' \<Longrightarrow> world_ok I V s nodes w'"
  by (simp add: world_ok_def)

lemma effects_sel [simp]:
  "w_lb (mbuf_free ms w) = w_lb w" "w_lb (add_rx k w) = w_lb w" "w_lb (add_tx k w) = w_lb w" "w_lb (add_dropped k w) = w_lb w"
  "world_came (mbuf_free ms w) = world_came w" "world_came (add_rx k w) = world_came w"
  "world_came (add_tx k w) = world_came w" "world_came (add_dropped k w) = world_came w"
  "world_gone (mbuf_free ms w) = world_gone w + ids ms" "world_gone (add_rx k w) = world_gone w"
  "world_gone (add_tx k w) = world_gone w" "world_gone (add_dropped k w) = world_gone w"
  by (simp_all add: mbuf_free_def add_rx_def add_tx_def add_dropped_def world_came_def world_gone_def)

lemma world_ok_counted: "world_ok I V s nodes w \<Longrightarrow> counted s w"
  by (simp add: world_ok_def)

lemma counted_simps [simp]:
  "counted s (mbuf_free ms w) = counted s w" "counted s (add_dropped k w) = counted s w"
  "counted s (w\<lparr>w_dev := d\<rparr>) = counted s w" "counted s (w\<lparr>w_dev := d, w_ringed := rs\<rparr>) = counted s w"
  "counted s (w\<lparr>w_dev := d, w_dequeued := ms\<rparr>) = counted s w"
  by (simp_all add: counted_def mbuf_free_def add_dropped_def)

lemma route_ok:
  assumes w: "world_ok I V s nodes w'" "world_came w' = world_came w" "world_gone w' = world_gone w"
    and outs: "snd ` set outs \<subseteq> {..<k}" "length outs \<le> kBurstSize" "ids (map fst outs) = ids x"
  shows "node_ok I V s nodes k w x (route w' outs (replicate k []))"
proof -
  obtain nexts' where "emit outs (replicate k []) = Inr nexts'" "length nexts' = k"
    "sum_list (map mset nexts') = mset (map fst outs)"
    using outs(1,2) by (rule emit_empties)
  with w outs(2,3) show ?thesis by (auto simp: node_ok_def route_def ids_def)
qed

text \<open>A node that takes packets in and emits them all.\<close>

lemma source_ok:
  assumes w: "world_ok I V s nodes w'" "world_came w' = world_came w + ids ms" "world_gone w' = world_gone w"
    and ms: "length ms \<le> kBurstSize"
  shows "node_ok I V s nodes 1 w [] (bind_r (emit (map (\<lambda>m. (m, 0)) ms) (replicate 1 [])) (\<lambda>nexts'. Inr (w', ms, nexts')))"
proof -
  let ?outs = "map (\<lambda>m. (m, 0 :: nat)) ms"
  have "snd ` set ?outs \<subseteq> {..<1}" "length ?outs \<le> kBurstSize" using ms by auto
  then obtain nexts' where e0: "emit ?outs (replicate 1 []) = Inr nexts'" "length nexts' = 1"
    "sum_list (map mset nexts') = mset (map fst ?outs)" by (rule emit_empties)
  then have e: "emit ?outs (replicate 1 []) = Inr nexts'" "length nexts' = 1" "sum_list (map mset nexts') = mset ms"
    by (simp_all add: comp_def)
  have "world_came w + world_gone w' + image_mset mb_id (sum_list (map mset nexts'))
      = world_came w' + world_gone w + image_mset mb_id (mset [])"
    unfolding e(3) w by (simp add: ids_def ac_simps)
  with w(1) ms e(1,2) show ?thesis by (auto simp: node_ok_def)
qed

lemma ids_split: "ids (take k ms) + ids (drop k ms) = ids ms"
  by (metis append_take_drop_id ids_simps(3))

lemma Tx_ok:
  assumes w: "world_ok I V s nodes w" and x: "length x \<le> kBurstSize"
  shows "node_ok I V s nodes 0 w x (Tx_Process V p q w x [])"
proof -
  obtain sent d where tx: "eth_tx_burst V p q x (w_dev w) = (sent, d)" by fastforce
  have le: "sent \<le> length x" using w tx unfolding world_ok_def dev_ok_def by (metis fst_conv)
  have u: "unat (of_nat (length x) - of_nat sent :: u16) = length x - sent"
  proof -
    have "(of_nat (length x) - of_nat sent :: u16) = of_nat (length x - sent)" using le by (simp add: of_nat_diff)
    then show ?thesis using x by (simp add: unat_of_nat take_bit_nat_eq_self kBurstSize_def)
  qed
  define w1 where "w1 = w\<lparr>w_dev := d, w_sent := w_sent w @ take sent x\<rparr>"
  define w2 where "w2 = (if sent < length x then mbuf_free (take (length x - sent) (drop sent x)) w1 else w1)"
  define w3 where "w3 = add_dropped (length x - sent) (add_tx sent w2)"
  have w1: "world_came w1 = world_came w" "w_lb w1 = w_lb w" "world_gone w1 = world_gone w + ids (take sent x)"
    by (simp_all add: w1_def world_came_def world_gone_def ac_simps)
  have w3: "world_came w3 = world_came w" "w_lb w3 = w_lb w" "world_gone w3 = world_gone w + ids x"
    using le ids_split [of sent x] by (auto simp: w3_def w2_def w1 ac_simps)
  have z: "0 < (of_nat (length x) - of_nat sent :: u16) \<longleftrightarrow> sent < length x"
    using u le by (simp add: word_less_nat_alt)
  have "Tx_Process V p q w x [] = Inr (w3, [], [])"
    unfolding Tx_Process_def tx Let_def w3_def w2_def w1_def by (simp only: u z prod.case)
  moreover have "counted s w3"
  proof -
    have "counted s (add_tx sent w1)"
      using world_ok_counted [OF w] le by (simp add: counted_def add_tx_def w1_def)
    then show ?thesis by (auto simp: w3_def w2_def counted_def add_tx_def add_dropped_def mbuf_free_def)
  qed
  then have "world_ok I V s nodes w3" by (rule world_ok_same [OF w w3(2)])
  ultimately show ?thesis unfolding node_ok_def using w3(1,3) by (auto simp: ids_def ac_simps)
qed

lemma RingTx_ok:
  assumes w: "world_ok I V s nodes w" and x: "length x \<le> kBurstSize"
  shows "node_ok I V s nodes 0 w x (RingTx_Process V r w x [])"
proof -
  obtain sent d where tx: "ring_enqueue_burst V r x (w_dev w) = (sent, d)" by fastforce
  have le: "sent \<le> length x" using w tx unfolding world_ok_def dev_ok_def by (metis fst_conv)
  define w1 where "w1 = w\<lparr>w_dev := d, w_ringed := w_ringed w @ map (\<lambda>m. (r, m)) (take sent x)\<rparr>"
  define w2 where "w2 = (if sent < length x then add_dropped (length x - sent) (mbuf_free (drop sent x) w1) else w1)"
  have w1: "world_came w1 = world_came w" "w_lb w1 = w_lb w" "world_gone w1 = world_gone w + ids (take sent x)"
    by (simp_all add: w1_def world_came_def world_gone_def comp_def ids_def ac_simps)
  have w2: "world_came w2 = world_came w" "w_lb w2 = w_lb w" "world_gone w2 = world_gone w + ids x"
    using le ids_split [of sent x] by (auto simp: w2_def w1 ac_simps)
  have "RingTx_Process V r w x [] = Inr (w2, [], [])" unfolding RingTx_Process_def tx Let_def w2_def w1_def by simp
  moreover have "world_ok I V s nodes w2"
    using world_ok_counted [OF w] by (intro world_ok_same [OF w w2(2)]) (simp add: w2_def w1_def)
  ultimately show ?thesis unfolding node_ok_def using w2(1,3) by (auto simp: ids_def ac_simps)
qed

lemma steer_worker_less:
  assumes "0 < n"
  shows "steer_cls (ClassifyForSteer I D cfg n mb) = kSteer \<Longrightarrow> steer_worker (ClassifyForSteer I D cfg n mb) < n"
  using assms SteerWorker_less word_mod_less_divisor by (auto simp: ClassifyForSteer_def Let_def split: if_splits)

lemma Steer_loop_ok:
  assumes "world_ok I V s nodes w" and "SteerNode rings n \<in> set nodes" and "length f + length x \<le> kBurstSize"
  shows "\<exists>w' f'. Steer_loop I D cfg V rings n x w [f] = Inr (w', [f']) \<and> world_ok I V s nodes w'
    \<and> world_came w' = world_came w \<and> world_gone w' + ids f' = world_gone w + ids f + ids x"
  using assms
proof (induction x arbitrary: w f)
  case Nil
  then show ?case by auto
next
  case (Cons m x)
  let ?res = "ClassifyForSteer I D cfg n m"
  have n: "0 < n" "unat n \<le> length rings" using Cons.prems(1,2) by (auto simp: world_ok_def)
  show ?case
  proof (cases "steer_cls ?res")
    case kSteer
    have idx: "unat (steer_worker ?res) < length rings"
      using steer_worker_less [OF n(1) kSteer] n(2) by (simp add: word_less_nat_alt)
    let ?r = "rings ! unat (steer_worker ?res)"
    obtain rc d where enq: "ring_enqueue V ?r m (w_dev w) = (rc, d)" by fastforce
    define w2 where "w2 = (if rc \<noteq> 0 then add_dropped 1 (mbuf_free [m] (w\<lparr>w_dev := d\<rparr>))
      else w\<lparr>w_dev := d, w_ringed := w_ringed w @ [(?r, m)]\<rparr>)"
    have lb: "w_lb w2 = w_lb w" and came: "world_came w2 = world_came w" and gone: "world_gone w2 = world_gone w + ids [m]"
      by (simp_all add: w2_def mbuf_free_def add_dropped_def world_came_def world_gone_def ids_def ac_simps)
    have cnt: "counted s w2" using world_ok_counted [OF Cons.prems(1)] by (simp add: w2_def)
    have "Steer_loop I D cfg V rings n (m # x) w [f] = Steer_loop I D cfg V rings n x w2 [f]"
      using kSteer idx enq by (simp add: Let_def w2_def)
    with Cons.IH [OF world_ok_same [OF Cons.prems(1) lb cnt] Cons.prems(2), of f] Cons.prems(3) came gone
    show ?thesis by (auto simp: ac_simps)
  next
    case kArp
    have "Steer_loop I D cfg V rings n (m # x) w [f] = Steer_loop I D cfg V rings n x w [f @ [m]]"
      using kArp Cons.prems(3) by (simp add: Let_def Push_def kNextArp_steer_def)
    with Cons.IH [OF Cons.prems(1,2), of "f @ [m]"] Cons.prems(3) show ?thesis by (auto simp: ac_simps)
  next
    case kDrop
    have "Steer_loop I D cfg V rings n (m # x) w [f] = Steer_loop I D cfg V rings n x (mbuf_free [m] w) [f]"
      using kDrop by (simp add: Let_def)
    with Cons.IH [OF world_ok_same [OF Cons.prems(1), of "mbuf_free [m] w"] Cons.prems(2), of f] Cons.prems(3)
      world_ok_counted [OF Cons.prems(1)]
    show ?thesis by (auto simp: ac_simps)
  qed
qed

lemma BuildReply_id [simp]: "mb_id (fst (BuildReply cfg mb)) = mb_id mb"
  by (simp add: BuildReply_def Let_def)

lemma Classify_id [simp]: "mb_id (fst (Classify D cfg mb)) = mb_id mb"
  by (simp add: Classify_def ClassifyIpv4_def Let_def)

lemma Classify_out: "snd (Classify D cfg mb) < 4"
  by (simp add: Classify_def ClassifyIpv4_def Let_def kNextFwd_def kNextRev_def kNextDrop_ip_def kNextArp_ip_def)

text \<open>The load balancer leaves the packet counters alone.\<close>

definition packet_counters :: "LcoreStats \<Rightarrow> u64 \<times> u64 \<times> u64" where
  "packet_counters s = (rx_packets s, tx_packets s, dropped s)"

lemma packet_counters_simps [simp]:
  "packet_counters (count_flow idx s) = packet_counters s" "packet_counters (s\<lparr>active_flows := k\<rparr>) = packet_counters s"
  by (simp_all add: packet_counters_def count_flow_def)

lemma MaybeTeardown_stats [simp]: "lb_stats (MaybeTeardown st i dir fl) = lb_stats st"
  by (simp add: MaybeTeardown_def Let_def pool_release_def split: prod.split)

lemma CreateFlow_counters:
  "CreateFlow I st meta key pool now = Inr (st', r) \<Longrightarrow> packet_counters (lb_stats st') = packet_counters (lb_stats st)"
  by (auto simp: CreateFlow_def bind_r_def Let_def pool_release_def split: sum.splits prod.splits option.splits if_splits)

lemma HandlePacket_counters:
  assumes "HandlePacket I st m pool now = Inr (st', r)"
  shows "packet_counters (lb_stats st') = packet_counters (lb_stats st)"
  using assms CreateFlow_counters [of I _ m "meta_key m" pool now]
  by (fastforce simp: HandlePacket_def bind_r_def Let_def finish_fwd_def split: if_splits prod.splits option.splits sum.splits)

lemma Lb_loop_counters:
  "Lb_loop I st pool now ms = Inr (st', outs) \<Longrightarrow> packet_counters (lb_stats st') = packet_counters (lb_stats st)"
proof (induction ms arbitrary: st outs)
  case (Cons m ms)
  then show ?case by (fastforce simp: bind_r_def dest: HandlePacket_counters split: sum.splits prod.splits)
qed simp

lemma Lb_Process_counters:
  "Lb_Process I st rcu now ms = Inr (st', outs) \<Longrightarrow> packet_counters (lb_stats st') = packet_counters (lb_stats st)"
  by (auto simp: Lb_Process_def bind_r_def dest!: Lb_loop_counters split: option.splits if_splits sum.splits prod.splits)

lemma LbN_ok:
  assumes w: "world_ok I V s nodes w" and nd: "LbNode a b \<in> set nodes" and x: "length x \<le> kBurstSize"
    and only: "\<And>a' b'. LbNode a' b' \<in> set nodes \<Longrightarrow> a' = a \<and> b' = b"
  shows "node_ok I V s nodes 2 w x (LbN_Process I V w x (replicate 2 []))"
proof -
  obtain lb where lb: "w_lb w = Some lb" "lb_inv I (all_ports a b) lb" using w nd unfolding world_ok_def by blast
  obtain rcu d where rcu: "rcu_load V (w_dev w) = (rcu, d)" by fastforce
  have built: "built_rcu rcu" using w rcu unfolding world_ok_def dev_ok_def by (metis fst_conv)
  let ?lb = "lb\<lparr>lb_stats := w_stats w\<rparr>"
  have "lb_inv I (all_ports a b) ?lb" using lb(2) by (simp add: lb_stats_inv)
  from Lb_Process_inv [OF this built] obtain lb' outs where run:
    "Lb_Process I ?lb rcu (NowMs (timer_cycles V d) (timer_hz V)) (map mb_meta x) = Inr (lb', outs)"
    "lb_inv I (all_ports a b) lb'" "length outs = length x" by (metis length_map)
  let ?w = "w\<lparr>w_dev := d, w_lb := Some lb', w_stats := lb_stats lb'\<rparr>"
  let ?outs = "map2 (\<lambda>m (meta, out). (m\<lparr>mb_meta := meta\<rparr>, out)) x outs"
  have "counted s ?w"
    using world_ok_counted [OF w] Lb_Process_counters [OF run(1)] by (simp add: counted_def packet_counters_def)
  then have ok: "world_ok I V s nodes ?w" using w run(2) only unfolding world_ok_def by simp blast
  have o: "snd ` set ?outs \<subseteq> {..<2}" using Lb_outputs [OF run(1)] by (force simp: kNextDnat_def kNextDrop_lb_def dest!: set_zip_rightD)
  have i: "ids (map fst ?outs) = ids x"
  proof -
    have "map mb_id (map fst ?outs) = map mb_id x" using run(3) by (intro nth_equalityI) (auto simp: case_prod_beta)
    then show ?thesis unfolding ids_def by (metis mset_map)
  qed
  have "LbN_Process I V w x (replicate 2 []) = route ?w ?outs (replicate 2 [])"
    using lb(1) rcu run(1) by (simp add: LbN_Process_def)
  moreover have "length ?outs \<le> kBurstSize" using x by simp
  ultimately show ?thesis
    using route_ok [OF ok _ _ o _ i, of w] by (simp add: world_came_def world_gone_def)
qed

text \<open>A node that changes each packet and sends it to its only output.\<close>

lemma pipe_ok:
  assumes w: "world_ok I V s nodes w" and x: "length x \<le> kBurstSize" and f: "\<And>m. mb_id (f m) = mb_id m"
  shows "node_ok I V s nodes 1 w x (route w (map (\<lambda>m. (f m, 0)) x) (replicate 1 []))"
proof -
  have "ids (map fst (map (\<lambda>m. (f m, 0 :: nat)) x)) = ids x" by (simp add: comp_def f) (simp add: ids_def)
  moreover have "snd ` set (map (\<lambda>m. (f m, 0 :: nat)) x) \<subseteq> {..<1}" by auto
  moreover have "length (map (\<lambda>m. (f m, 0 :: nat)) x) \<le> kBurstSize" using x by simp
  ultimately show ?thesis by (intro route_ok [OF w]) simp_all
qed

lemma Process_ok:
  assumes w: "world_ok I V s nodes w" and nd: "nd \<in> set nodes" and x: "length x \<le> kBurstSize" and src: "is_source nd \<Longrightarrow> x = []"
    and only: "\<And>a b a' b'. LbNode a b \<in> set nodes \<Longrightarrow> LbNode a' b' \<in> set nodes \<Longrightarrow> a' = a \<and> b' = b"
  shows "node_ok I V s nodes (NextCount nd) w x (Process I D cfg V nd w x (replicate (NextCount nd) []))"
proof (cases nd)
  case (RxNode p q)
  obtain ms d where rx: "eth_rx_burst V p q kBurstSize (w_dev w) = (ms, d)" by fastforce
  have "length ms \<le> kBurstSize" using w rx unfolding world_ok_def dev_ok_def by (metis fst_conv)
  moreover have "world_ok I V s nodes (add_rx (length ms) (w\<lparr>w_dev := d, w_received := w_received w @ ms\<rparr>))"
    using world_ok_counted [OF w] by (intro world_ok_same [OF w]) (simp_all add: counted_def add_rx_def)
  ultimately show ?thesis
    using RxNode src source_ok [of I V s nodes "add_rx (length ms) (w\<lparr>w_dev := d, w_received := w_received w @ ms\<rparr>)" w ms] rx
    by (simp add: Rx_Process_def world_came_def [of "w\<lparr>w_dev := d, w_received := w_received w @ ms\<rparr>"] world_came_def [of w]
        world_gone_def [of "w\<lparr>w_dev := d, w_received := w_received w @ ms\<rparr>"] world_gone_def [of w])
next
  case (RingRxNode r)
  obtain ms d where rx: "ring_dequeue_burst V r kBurstSize (w_dev w) = (ms, d)" by fastforce
  have "length ms \<le> kBurstSize" using w rx unfolding world_ok_def dev_ok_def by (metis fst_conv)
  moreover have "world_ok I V s nodes (w\<lparr>w_dev := d, w_dequeued := w_dequeued w @ ms\<rparr>)"
    using world_ok_counted [OF w] by (intro world_ok_same [OF w]) simp_all
  ultimately show ?thesis
    using RingRxNode src source_ok [of I V s nodes "w\<lparr>w_dev := d, w_dequeued := w_dequeued w @ ms\<rparr>" w ms] rx
    by (simp add: RingRx_Process_def world_came_def world_gone_def)
next
  case Ip4ParseNode
  have "snd ` set (Ip4Parse_Process D cfg x) \<subseteq> {..<4}" using Classify_out by (auto simp: Ip4Parse_Process_def)
  moreover have "ids (map fst (Ip4Parse_Process D cfg x)) = ids x" by (simp add: Ip4Parse_Process_def comp_def) (simp add: ids_def)
  moreover have "length (Ip4Parse_Process D cfg x) \<le> kBurstSize" using x by (simp add: Ip4Parse_Process_def)
  ultimately show ?thesis using Ip4ParseNode by (simp add: route_ok [OF w])
next
  case (LbNode a b)
  with w nd x only show ?thesis by (simp add: LbN_ok)
next
  case DnatNode
  with pipe_ok [OF w x, of "Rewrite D cfg"] show ?thesis by (simp add: Dnat_Process_def)
next
  case EtherRewriteNode
  with pipe_ok [OF w x, of "EtherRewrite cfg"] show ?thesis by (simp add: EtherRewrite_Process_def)
next
  case (TxNode p q)
  with w x show ?thesis by (simp add: Tx_ok)
next
  case DropNode
  have "world_ok I V s nodes (mbuf_free x w)" using world_ok_counted [OF w] by (intro world_ok_same [OF w]) simp_all
  with DropNode show ?thesis by (simp add: Drop_Process_def node_ok_def ids_def ac_simps)
next
  case ArpNode
  have "snd ` set (Arp_Process cfg x) \<subseteq> {..<2}" by (auto simp: Arp_Process_def kNextTx_def kNextDrop_arp_def split: prod.splits)
  moreover have "ids (map fst (Arp_Process cfg x)) = ids x"
    by (simp add: Arp_Process_def comp_def case_prod_beta Let_def) (simp add: ids_def)
  moreover have "length (Arp_Process cfg x) \<le> kBurstSize" using x by (simp add: Arp_Process_def)
  ultimately show ?thesis using ArpNode by (simp add: route_ok [OF w])
next
  case (SteerNode rings n)
  have "SteerNode rings n \<in> set nodes" using nd SteerNode by simp
  from Steer_loop_ok [OF w this, of "[]" x D cfg] x obtain w' f' where h:
    "Steer_loop I D cfg V rings n x w [[]] = Inr (w', [f'])" "world_ok I V s nodes w'" "world_came w' = world_came w"
    "world_gone w' + ids f' = world_gone w + ids x" by auto
  have p: "Process I D cfg V nd w x (replicate (NextCount nd) []) = Inr (w', [], [f'])"
    using h(1) by (simp add: SteerNode Steer_Process_def)
  have "world_came w + world_gone w' + image_mset mb_id (sum_list (map mset [f']))
      = world_came w + (world_gone w' + ids f')" by (simp add: ids_def add.assoc)
  also have "\<dots> = world_came w' + world_gone w + image_mset mb_id (mset x)"
    unfolding h(3,4) by (simp add: ids_def add.assoc)
  finally show ?thesis unfolding node_ok_def p using h(2) by (auto simp: SteerNode)
next
  case (RingTxNode r)
  with w x show ?thesis by (simp add: RingTx_ok)
qed

section \<open>Graphs of these nodes\<close>

text \<open>A graph fit for the dispatcher: every output of every node is wired, to a node further down
  than itself, and only the root takes packets from outside.\<close>

definition graph_ok :: "(nat \<Rightarrow> nat) \<Rightarrow> nat \<Rightarrow> node Graph \<Rightarrow> bool" where
  "graph_ok rank root g \<longleftrightarrow> root < length (gr_nodes g) \<and> length (gr_nodes g) < 65536
     \<and> (\<forall>n < length (gr_nodes g). Fanout g n = NextCount (gr_nodes g ! n) \<and> (is_source (gr_nodes g ! n) \<longrightarrow> n = root)
         \<and> (\<forall>out < Fanout g n. Target g n out \<noteq> kInvalid \<and> unat (Target g n out) < length (gr_nodes g)
              \<and> unat (Target g n out) \<noteq> root \<and> rank n < rank (unat (Target g n out))))"

definition proc_of :: "isa \<Rightarrow> dpdk \<Rightarrow> Config \<Rightarrow> 'd dev \<Rightarrow> node Graph \<Rightarrow> ('d world, mbuf) proc" where
  "proc_of I D cfg V g n = Process I D cfg V (gr_nodes g ! n)"

lemma net_of_nodes:
  assumes g: "graph_ok rank root g" and sub: "set (gr_nodes g) \<subseteq> set nodes"
    and only: "\<And>a b a' b'. LbNode a b \<in> set nodes \<Longrightarrow> LbNode a' b' \<in> set nodes \<Longrightarrow> a' = a \<and> b' = b"
  shows "node_net (proc_of I D cfg V g) g root rank (world_ok I V s nodes) world_came world_gone mb_id"
proof
  fix w n and x :: "mbuf list"
  assume a: "world_ok I V s nodes w" "n < length (gr_nodes g)" "length x \<le> kBurstSize" "n = root \<Longrightarrow> x = []"
  have f: "Fanout g n = NextCount (gr_nodes g ! n)" "is_source (gr_nodes g ! n) \<Longrightarrow> n = root"
    using g a(2) by (auto simp: graph_ok_def)
  have "gr_nodes g ! n \<in> set nodes" using a(2) sub by auto
  then have "node_ok I V s nodes (Fanout g n) w x (proc_of I D cfg V g n w x (replicate (Fanout g n) []))"
    unfolding f proc_of_def using a f(2) only by (intro Process_ok) auto
  then show "\<exists>w' x' outs. proc_of I D cfg V g n w x (replicate (Fanout g n) []) = Inr (w', x', outs) \<and> length x' \<le> kBurstSize
      \<and> length outs = Fanout g n \<and> world_ok I V s nodes w' \<and> world_came w + world_gone w' + image_mset mb_id (sum_list (map mset outs))
        = world_came w' + world_gone w + image_mset mb_id (mset x)"
    by (simp add: node_ok_def)
qed (use g in \<open>auto simp: graph_ok_def\<close>)

lemmas net_of_graph = net_of_nodes [OF _ subset_refl]

end
