(* ===== verification/Main_Graph.thy ===== *)
theory Main_Graph
  imports Io_Nodes
begin

text \<open>
  The cores of \<open>dataplane/src/main.cpp\<close>: the graphs they run and their loops. A pointer to
  an \<open>rte_ring\<close> is a number, the null pointer 0. The loops run while \<open>g_running\<close> holds,
  which a signal clears at some moment: the number of passes until then is an argument.
\<close>

section \<open>The graphs\<close>

datatype Role = kMono | kIo | kWorker

record LcoreArg =
  la_role :: Role
  la_port_id :: u16
  la_worker_id :: u16
  la_n_workers :: u32
  la_cfg :: Config
  la_stats :: nat
  la_worker_rings :: "nat list"
  la_ingress :: nat
  la_egress :: nat

definition add :: "node \<Rightarrow> node Graph \<Rightarrow> u16 \<times> node Graph" where
  "add nd g = AddNode nd (NextCount nd) g"

text \<open>A sequence of calls \<open>graph.Wire(from, out, to)\<close>.\<close>

fun wire_all :: "(u16 \<times> nat \<times> u16) list \<Rightarrow> node Graph \<Rightarrow> node Graph result" where
  "wire_all [] g = Inr g"
| "wire_all ((src, out, dest) # es) g = bind_r (Wire src out dest g) (wire_all es)"

definition BuildMonolithicGraph :: "LcoreArg \<Rightarrow> node Graph \<Rightarrow> (u16 \<times> node Graph) result" where
  "BuildMonolithicGraph arg g0 =
     (let (rx_id, g1) = add (RxNode (la_port_id arg) 0) g0;
          (parse, g2) = add Ip4ParseNode g1;
          (load_balance, g3) = add (LbNode 0 1) g2;
          (dnat, g4) = add DnatNode g3;
          (ether, g5) = add EtherRewriteNode g4;
          (tx_id, g6) = add (TxNode (la_port_id arg) 0) g5;
          (drp, g7) = add DropNode g6;
          (arp, g8) = add ArpNode g7
      in bind_r (wire_all [(rx_id, 0, parse), (parse, kNextFwd, load_balance), (parse, kNextRev, load_balance),
           (parse, kNextDrop_ip, drp), (parse, kNextArp_ip, arp), (arp, kNextTx, tx_id), (arp, kNextDrop_arp, drp),
           (load_balance, kNextDnat, dnat), (load_balance, kNextDrop_lb, drp), (dnat, 0, ether), (ether, 0, tx_id)] g8)
         (\<lambda>g. Inr (rx_id, g)))"

definition BuildRxGraph :: "LcoreArg \<Rightarrow> node Graph \<Rightarrow> (u16 \<times> node Graph) result" where
  "BuildRxGraph arg g0 =
     (let (rx_id, g1) = add (RxNode (la_port_id arg) 0) g0;
          (steer, g2) = add (SteerNode (la_worker_rings arg) (la_n_workers arg)) g1;
          (arp, g3) = add ArpNode g2;
          (egress, g4) = add (RingTxNode (la_egress arg)) g3;
          (drp, g5) = add DropNode g4
      in bind_r (wire_all [(rx_id, 0, steer), (steer, kNextArp_steer, arp), (arp, kNextTx, egress),
           (arp, kNextDrop_arp, drp)] g5)
         (\<lambda>g. Inr (rx_id, g)))"

definition BuildWorkerGraph :: "LcoreArg \<Rightarrow> node Graph \<Rightarrow> (u16 \<times> node Graph) result" where
  "BuildWorkerGraph arg g0 =
     (let (rx_id, g1) = add (RingRxNode (la_ingress arg)) g0;
          (parse, g2) = add Ip4ParseNode g1;
          (load_balance, g3) = add (LbNode (la_worker_id arg) (ucast (la_n_workers arg))) g2;
          (dnat, g4) = add DnatNode g3;
          (ether, g5) = add EtherRewriteNode g4;
          (egress, g6) = add (RingTxNode (la_egress arg)) g5;
          (drp, g7) = add DropNode g6
      in bind_r (wire_all [(rx_id, 0, parse), (parse, kNextFwd, load_balance), (parse, kNextRev, load_balance),
           (parse, kNextDrop_ip, drp), (parse, kNextArp_ip, drp), (load_balance, kNextDnat, dnat),
           (load_balance, kNextDrop_lb, drp), (dnat, 0, ether), (ether, 0, egress)] g7)
         (\<lambda>g. Inr (rx_id, g)))"

definition BuildTxGraph :: "LcoreArg \<Rightarrow> node Graph \<Rightarrow> (u16 \<times> node Graph) result" where
  "BuildTxGraph arg g0 =
     (let (rx_id, g1) = add (RingRxNode (la_egress arg)) g0;
          (tx_id, g2) = add (TxNode (la_port_id arg) 0) g1
      in bind_r (wire_all [(rx_id, 0, tx_id)] g2) (\<lambda>g. Inr (rx_id, g)))"

section \<open>The loops\<close>

text \<open>\<open>passes\<close>: a loop whose body may fail or not return, for the given number of rounds.\<close>

fun passes :: "('s \<Rightarrow> 's result option) \<Rightarrow> nat \<Rightarrow> 's \<Rightarrow> 's result option" where
  "passes body 0 s = Some (Inr s)"
| "passes body (Suc k) s =
     (case body s of None \<Rightarrow> None | Some (Inl e) \<Rightarrow> Some (Inl e) | Some (Inr s') \<Rightarrow> passes body k s')"

definition pass :: "isa \<Rightarrow> dpdk \<Rightarrow> Config \<Rightarrow> 'd dev \<Rightarrow> u16 \<times> node Graph \<Rightarrow> 'd world \<times> mbuf Dispatcher
    \<Rightarrow> ('d world \<times> mbuf Dispatcher) result option" where
  "pass I D cfg V rg s = RunOnce (proc_of I D cfg V (snd rg)) (snd rg) (unat (fst rg)) [] (fst s) (snd s)"

text \<open>The load balancer a graph contains is made when the graph is built.\<close>

definition with_lb :: "Config \<Rightarrow> u16 \<Rightarrow> u16 \<Rightarrow> 'd world \<Rightarrow> ('d world \<Rightarrow> 'a result option) \<Rightarrow> 'a result option" where
  "with_lb cfg worker_id n_workers w k =
     (case LbNode_new kNatDefaultCapacity cfg (w_stats w) worker_id n_workers of
        None \<Rightarrow> None
      | Some (Inl e) \<Rightarrow> Some (Inl e)
      | Some (Inr lb) \<Rightarrow> k (w\<lparr>w_lb := Some lb\<rparr>))"

definition RunMono :: "isa \<Rightarrow> dpdk \<Rightarrow> 'd dev \<Rightarrow> LcoreArg \<Rightarrow> nat \<Rightarrow> 'd world \<Rightarrow> 'd world result option" where
  "RunMono I D V arg rounds w =
     (case BuildMonolithicGraph arg Graph_empty of
        Inl e \<Rightarrow> Some (Inl e)
      | Inr rg \<Rightarrow> with_lb (la_cfg arg) 0 1 w (\<lambda>w.
          map_option (map_sum id fst) (passes (pass I D (la_cfg arg) V rg) rounds (w, Dispatcher_new (snd rg)))))"

definition RunWorker :: "isa \<Rightarrow> dpdk \<Rightarrow> 'd dev \<Rightarrow> LcoreArg \<Rightarrow> nat \<Rightarrow> 'd world \<Rightarrow> 'd world result option" where
  "RunWorker I D V arg rounds w =
     (case BuildWorkerGraph arg Graph_empty of
        Inl e \<Rightarrow> Some (Inl e)
      | Inr rg \<Rightarrow> with_lb (la_cfg arg) (la_worker_id arg) (ucast (la_n_workers arg)) w (\<lambda>w.
          map_option (map_sum id fst) (passes (pass I D (la_cfg arg) V rg) rounds (w, Dispatcher_new (snd rg)))))"

definition io_pass :: "isa \<Rightarrow> dpdk \<Rightarrow> Config \<Rightarrow> 'd dev \<Rightarrow> u16 \<times> node Graph \<Rightarrow> u16 \<times> node Graph
    \<Rightarrow> 'd world \<times> mbuf Dispatcher \<times> mbuf Dispatcher \<Rightarrow> ('d world \<times> mbuf Dispatcher \<times> mbuf Dispatcher) result option" where
  "io_pass I D cfg V rx tx s =
     (case s of (w, rx_disp, tx_disp) \<Rightarrow>
       (case pass I D cfg V rx (w, rx_disp) of
          None \<Rightarrow> None
        | Some (Inl e) \<Rightarrow> Some (Inl e)
        | Some (Inr (w1, rx_disp')) \<Rightarrow>
            map_option (map_sum id (\<lambda>(w2, tx_disp'). (w2, rx_disp', tx_disp'))) (pass I D cfg V tx (w1, tx_disp))))"

definition RunIo :: "isa \<Rightarrow> dpdk \<Rightarrow> 'd dev \<Rightarrow> LcoreArg \<Rightarrow> nat \<Rightarrow> 'd world \<Rightarrow> 'd world result option" where
  "RunIo I D V arg rounds w =
     (case bind_r (BuildRxGraph arg Graph_empty) (\<lambda>rx. bind_r (BuildTxGraph arg Graph_empty) (\<lambda>tx. Inr (rx, tx))) of
        Inl e \<Rightarrow> Some (Inl e)
      | Inr (rx, tx) \<Rightarrow>
          map_option (map_sum id fst)
            (passes (io_pass I D (la_cfg arg) V rx tx) rounds (w, Dispatcher_new (snd rx), Dispatcher_new (snd tx))))"

definition LcoreMain :: "isa \<Rightarrow> dpdk \<Rightarrow> 'd dev \<Rightarrow> LcoreArg \<Rightarrow> nat \<Rightarrow> 'd world \<Rightarrow> 'd world result option" where
  "LcoreMain I D V arg rounds w =
     (case la_role arg of
        kMono \<Rightarrow> RunMono I D V arg rounds w
      | kIo \<Rightarrow> RunIo I D V arg rounds w
      | kWorker \<Rightarrow> RunWorker I D V arg rounds w)"

section \<open>The graphs are fit for the dispatcher\<close>

lemmas outs = kNextFwd_def kNextRev_def kNextDrop_ip_def kNextArp_ip_def kNextTx_def kNextDrop_arp_def
  kNextDnat_def kNextDrop_lb_def kNextArp_steer_def

lemma list_update_numeral: "(x # xs)[numeral k := y] = x # xs[pred_numeral k := y]"
  by (simp add: numeral_eq_Suc)

lemma replicate_numeral: "replicate (numeral k) x = x # replicate (pred_numeral k) x"
  by (simp add: numeral_eq_Suc)

lemma All_less_numeral: "(\<forall>n < numeral k. P n) \<longleftrightarrow> P (pred_numeral k) \<and> (\<forall>n < pred_numeral k. P n)"
  by (simp add: numeral_eq_Suc All_less_Suc)

lemmas numeral_lists = list_update_numeral replicate_numeral All_less_numeral All_less_Suc

definition mono_graph :: "LcoreArg \<Rightarrow> node Graph" where
  "mono_graph arg = \<lparr>gr_nodes = [RxNode (la_port_id arg) 0, Ip4ParseNode, LbNode 0 1, DnatNode, EtherRewriteNode,
     TxNode (la_port_id arg) 0, DropNode, ArpNode],
   gr_routing = [[1], [2, 2, 6, 7], [3, 6], [4], [5], [], [], [5, 6]]\<rparr>"

lemma BuildMonolithicGraph_eq: "BuildMonolithicGraph arg Graph_empty = Inr (0, mono_graph arg)"
  by (simp add: BuildMonolithicGraph_def Graph_empty_def add_def AddNode_def Wire_def mono_graph_def outs numeral_lists)

definition worker_graph :: "LcoreArg \<Rightarrow> node Graph" where
  "worker_graph arg = \<lparr>gr_nodes = [RingRxNode (la_ingress arg), Ip4ParseNode,
     LbNode (la_worker_id arg) (ucast (la_n_workers arg)), DnatNode, EtherRewriteNode, RingTxNode (la_egress arg), DropNode],
   gr_routing = [[1], [2, 2, 6, 6], [3, 6], [4], [5], [], []]\<rparr>"

lemma BuildWorkerGraph_eq: "BuildWorkerGraph arg Graph_empty = Inr (0, worker_graph arg)"
  by (simp add: BuildWorkerGraph_def Graph_empty_def add_def AddNode_def Wire_def worker_graph_def outs numeral_lists)

definition rx_graph :: "LcoreArg \<Rightarrow> node Graph" where
  "rx_graph arg = \<lparr>gr_nodes = [RxNode (la_port_id arg) 0, SteerNode (la_worker_rings arg) (la_n_workers arg), ArpNode,
     RingTxNode (la_egress arg), DropNode], gr_routing = [[1], [2], [3, 4], [], []]\<rparr>"

lemma BuildRxGraph_eq: "BuildRxGraph arg Graph_empty = Inr (0, rx_graph arg)"
  by (simp add: BuildRxGraph_def Graph_empty_def add_def AddNode_def Wire_def rx_graph_def outs numeral_lists)

definition tx_graph :: "LcoreArg \<Rightarrow> node Graph" where
  "tx_graph arg = \<lparr>gr_nodes = [RingRxNode (la_egress arg), TxNode (la_port_id arg) 0], gr_routing = [[1], []]\<rparr>"

lemma BuildTxGraph_eq: "BuildTxGraph arg Graph_empty = Inr (0, tx_graph arg)"
  by (simp add: BuildTxGraph_def Graph_empty_def add_def AddNode_def Wire_def tx_graph_def outs numeral_lists)

text \<open>How far down a node stands in the monolithic graph: ARP replies join at the transmitter.\<close>

definition mono_rank :: "nat \<Rightarrow> nat" where
  "mono_rank n = (if n = 7 then 2 else n)"

lemma mono_graph_ok: "graph_ok mono_rank 0 (mono_graph arg)"
  by (simp add: graph_ok_def mono_graph_def Fanout_def Target_def mono_rank_def kInvalid_def numeral_lists)

lemma worker_graph_ok: "graph_ok id 0 (worker_graph arg)"
  by (simp add: graph_ok_def worker_graph_def Fanout_def Target_def kInvalid_def numeral_lists)

lemma rx_graph_ok: "graph_ok id 0 (rx_graph arg)"
  by (simp add: graph_ok_def rx_graph_def Fanout_def Target_def kInvalid_def numeral_lists)

lemma tx_graph_ok: "graph_ok id 0 (tx_graph arg)"
  by (simp add: graph_ok_def tx_graph_def Fanout_def Target_def kInvalid_def numeral_lists)

text \<open>
  The graphs the cores run are complete. Building them raises no exception, and in each of them every
  output of every node leads to a node (a packet sent to an output that leads nowhere would
  be lost and its buffer never freed), no output leads back to a node above it, so that a pass cannot go round
  in circles, and only the root takes packets in.
\<close>

theorem graphs_complete:
  "(\<exists>rank root g. BuildMonolithicGraph arg Graph_empty = Inr (root, g) \<and> graph_ok rank (unat root) g)
   \<and> (\<exists>rank root g. BuildWorkerGraph arg Graph_empty = Inr (root, g) \<and> graph_ok rank (unat root) g)
   \<and> (\<exists>rank root g. BuildRxGraph arg Graph_empty = Inr (root, g) \<and> graph_ok rank (unat root) g)
   \<and> (\<exists>rank root g. BuildTxGraph arg Graph_empty = Inr (root, g) \<and> graph_ok rank (unat root) g)"
proof -
  have z: "unat (0 :: u16) = 0" by simp
  show ?thesis
    unfolding BuildMonolithicGraph_eq BuildWorkerGraph_eq BuildRxGraph_eq BuildTxGraph_eq
    using mono_graph_ok worker_graph_ok rx_graph_ok tx_graph_ok z by (metis (no_types))
qed

interpretation mono: node_net "proc_of I D cfg V (mono_graph arg)" "mono_graph arg" 0 mono_rank
    "world_ok I V s (gr_nodes (mono_graph arg))" world_came world_gone mb_id
  for I D cfg V s arg by (rule net_of_graph [OF mono_graph_ok]) (simp add: mono_graph_def)

interpretation worker: node_net "proc_of I D cfg V (worker_graph arg)" "worker_graph arg" 0 id
    "world_ok I V s (gr_nodes (worker_graph arg))" world_came world_gone mb_id
  for I D cfg V s arg by (rule net_of_graph [OF worker_graph_ok]) (simp add: worker_graph_def)

interpretation io_rx: node_net "proc_of I D cfg V (rx_graph arg)" "rx_graph arg" 0 id
    "world_ok I V s (gr_nodes (rx_graph arg))" world_came world_gone mb_id
  for I D cfg V s arg by (rule net_of_graph [OF rx_graph_ok]) (simp add: rx_graph_def)

interpretation io_tx: node_net "proc_of I D cfg V (tx_graph arg)" "tx_graph arg" 0 id
    "world_ok I V s (gr_nodes (tx_graph arg))" world_came world_gone mb_id
  for I D cfg V s arg by (rule net_of_graph [OF tx_graph_ok]) (simp add: tx_graph_def)

section \<open>What the cores do\<close>

lemma passes_ok:
  assumes "\<And>s. J s \<Longrightarrow> \<exists>s'. body s = Some (Inr s') \<and> J s'" and "J s"
  shows "\<exists>s'. passes body k s = Some (Inr s') \<and> J s'"
  using assms(2)
proof (induction k arbitrary: s)
  case 0
  then show ?case by simp
next
  case (Suc k)
  obtain s' where "body s = Some (Inr s')" "J s'" using assms(1) [OF Suc.prems] by blast
  with Suc.IH [of s'] show ?case by simp
qed

text \<open>Between passes: the world is in order, no packet is under way, and the dispatcher holds none.\<close>

definition at_rest :: "isa \<Rightarrow> 'd dev \<Rightarrow> LcoreStats \<Rightarrow> node Graph \<Rightarrow> 'd world \<times> mbuf Dispatcher \<Rightarrow> bool" where
  "at_rest I V s g ws \<longleftrightarrow> world_ok I V s (gr_nodes g) (fst ws) \<and> disp_ok (length (gr_nodes g)) [] (snd ws)
     \<and> world_gone (fst ws) = world_came (fst ws)"

lemma balance_closed: "a + g' = c' + (a :: 'i multiset) \<Longrightarrow> g' = c'"
  by (metis add.commute add_left_cancel)

lemma mono_pass:
  assumes "at_rest I V s (mono_graph arg) ws"
  shows "\<exists>ws'. pass I D cfg V (0, mono_graph arg) ws = Some (Inr ws') \<and> at_rest I V s (mono_graph arg) ws'"
  using assms mono.RunOnce_ok [of I V s arg "fst ws" "snd ws" D cfg]
  by (fastforce simp: at_rest_def pass_def dest: balance_closed)

lemma worker_pass:
  assumes "at_rest I V s (worker_graph arg) ws"
  shows "\<exists>ws'. pass I D cfg V (0, worker_graph arg) ws = Some (Inr ws') \<and> at_rest I V s (worker_graph arg) ws'"
  using assms worker.RunOnce_ok [of I V s arg "fst ws" "snd ws" D cfg]
  by (fastforce simp: at_rest_def pass_def dest: balance_closed)

lemma rx_pass:
  assumes "at_rest I V s (rx_graph arg) ws"
  shows "\<exists>ws'. pass I D cfg V (0, rx_graph arg) ws = Some (Inr ws') \<and> at_rest I V s (rx_graph arg) ws'"
  using assms io_rx.RunOnce_ok [of I V s arg "fst ws" "snd ws" D cfg]
  by (fastforce simp: at_rest_def pass_def dest: balance_closed)

lemma tx_pass:
  assumes "at_rest I V s (tx_graph arg) ws"
  shows "\<exists>ws'. pass I D cfg V (0, tx_graph arg) ws = Some (Inr ws') \<and> at_rest I V s (tx_graph arg) ws'"
  using assms io_tx.RunOnce_ok [of I V s arg "fst ws" "snd ws" D cfg]
  by (fastforce simp: at_rest_def pass_def dest: balance_closed)

lemma Dispatcher_new_rest:
  assumes "graph_ok rank root g" and "world_ok I V s (gr_nodes g) w" and "world_gone w = world_came w"
  shows "at_rest I V s g (w, Dispatcher_new g)"
  using assms Dispatcher_new_ok [of g] by (simp add: at_rest_def graph_ok_def)

text \<open>A core starts with a world in which nothing has happened yet.\<close>

definition fresh :: "'d world \<Rightarrow> bool" where
  "fresh w \<longleftrightarrow> w_received w = [] \<and> w_dequeued w = [] \<and> w_sent w = [] \<and> w_ringed w = [] \<and> w_freed w = []"

lemma fresh_start:
  assumes "fresh w"
  shows "world_gone w = world_came w" and "counted (w_stats w) w"
  using assms by (simp_all add: fresh_def world_gone_def world_came_def counted_def)

lemma kNatDefaultCapacity_pow2: "kNatDefaultCapacity AND (kNatDefaultCapacity - 1) = 0" "kNatDefaultCapacity \<noteq> 0"
  by (simp_all add: kNatDefaultCapacity_def)

lemma with_lb_eq:
  obtains lb where "with_lb cfg a b w k = k (w\<lparr>w_lb := Some lb\<rparr>)"
    "LbNode_new kNatDefaultCapacity cfg (w_stats w) a b = Some (Inr lb)"
proof -
  obtain lb where "LbNode_new kNatDefaultCapacity cfg (w_stats w) a b = Some (Inr lb)" using LbNode_new_eq by blast
  with that show ?thesis by (simp add: with_lb_def)
qed

definition arg_ok :: "LcoreArg \<Rightarrow> bool" where
  "arg_ok arg \<longleftrightarrow> (la_role arg = kIo \<longrightarrow> 0 < la_n_workers arg \<and> unat (la_n_workers arg) \<le> length (la_worker_rings arg))"

text \<open>A core with a load balancer, before its first pass.\<close>

lemma lb_core_start:
  assumes V: "dev_ok V" and w: "fresh w" and g: "graph_ok rank root g"
    and nodes: "\<And>c d. LbNode c d \<in> set (gr_nodes g) \<Longrightarrow> c = a \<and> d = b" "\<And>rs n. SteerNode rs n \<notin> set (gr_nodes g)"
    and new: "LbNode_new kNatDefaultCapacity cfg (w_stats w) a b = Some (Inr lb)"
  shows "at_rest I V (w_stats w) g (w\<lparr>w_lb := Some lb\<rparr>, Dispatcher_new g)"
proof -
  let ?w = "w\<lparr>w_lb := Some lb\<rparr>"
  have f: "fresh ?w" using w by (simp add: fresh_def)
  have "lb_inv I (all_ports a b) lb" by (rule LbNode_new_inv [OF kNatDefaultCapacity_pow2 new])
  then have "world_ok I V (w_stats w) (gr_nodes g) ?w"
    using V nodes fresh_start(2) [OF f] unfolding world_ok_def by simp blast
  then show ?thesis by (rule Dispatcher_new_rest [OF g _ fresh_start(1) [OF f]])
qed

lemma core_with_lb:
  assumes V: "dev_ok V" and w: "fresh w" and g: "graph_ok rank root g"
    and nodes: "\<And>c d. LbNode c d \<in> set (gr_nodes g) \<Longrightarrow> c = a \<and> d = b" "\<And>rs n. SteerNode rs n \<notin> set (gr_nodes g)"
    and step: "\<And>ws. at_rest I V (w_stats w) g ws \<Longrightarrow>
      \<exists>ws'. pass I D cfg V (0, g) ws = Some (Inr ws') \<and> at_rest I V (w_stats w) g ws'"
  shows "\<exists>w' st'. with_lb cfg a b w (\<lambda>w. map_option (map_sum id fst) (passes (pass I D cfg V (0, g)) rounds (w, Dispatcher_new g)))
      = Some (Inr w') \<and> at_rest I V (w_stats w) g (w', st')"
proof -
  let ?k = "\<lambda>w. map_option (map_sum id fst) (passes (pass I D cfg V (0, g)) rounds (w, Dispatcher_new g))"
  obtain lb where lb: "with_lb cfg a b w ?k = ?k (w\<lparr>w_lb := Some lb\<rparr>)"
    "LbNode_new kNatDefaultCapacity cfg (w_stats w) a b = Some (Inr lb)" by (rule with_lb_eq)
  from passes_ok [of "at_rest I V (w_stats w) g" "pass I D cfg V (0, g)", OF _ lb_core_start [OF V w g nodes lb(2)]] step
  obtain ws' where "passes (pass I D cfg V (0, g)) rounds (w\<lparr>w_lb := Some lb\<rparr>, Dispatcher_new g) = Some (Inr ws')"
    "at_rest I V (w_stats w) g ws'" by blast
  with lb(1) show ?thesis by (cases ws') auto
qed

lemma RunMono_ok:
  assumes "dev_ok V" and "fresh w"
  shows "\<exists>w' st'. RunMono I D V arg rounds w = Some (Inr w') \<and> at_rest I V (w_stats w) (mono_graph arg) (w', st')"
  unfolding RunMono_def BuildMonolithicGraph_eq sum.case snd_conv
  by (rule core_with_lb [OF assms mono_graph_ok]) (simp add: mono_graph_def, simp add: mono_graph_def, rule mono_pass)

lemma RunWorker_ok:
  assumes "dev_ok V" and "fresh w"
  shows "\<exists>w' st'. RunWorker I D V arg rounds w = Some (Inr w') \<and> at_rest I V (w_stats w) (worker_graph arg) (w', st')"
  unfolding RunWorker_def BuildWorkerGraph_eq sum.case snd_conv
  by (rule core_with_lb [OF assms worker_graph_ok]) (simp add: worker_graph_def, simp add: worker_graph_def, rule worker_pass)

lemma RunIo_ok:
  assumes V: "dev_ok V" and w: "fresh w" and arg: "0 < la_n_workers arg" "unat (la_n_workers arg) \<le> length (la_worker_rings arg)"
  shows "\<exists>w' st'. RunIo I D V arg rounds w = Some (Inr w') \<and> at_rest I V (w_stats w) (tx_graph arg) (w', st')"
proof -
  let ?s = "w_stats w" and ?rx = "rx_graph arg" and ?tx = "tx_graph arg"
  define J where "J t \<longleftrightarrow> at_rest I V ?s ?rx (fst t, fst (snd t)) \<and> at_rest I V ?s ?tx (fst t, snd (snd t))"
    for t :: "'a world \<times> mbuf Dispatcher \<times> mbuf Dispatcher"
  have ok: "world_ok I V ?s (gr_nodes ?rx) w' \<longleftrightarrow> dev_ok V \<and> counted ?s w'"
    "world_ok I V ?s (gr_nodes ?tx) w' \<longleftrightarrow> dev_ok V \<and> counted ?s w'" for w'
    using arg by (auto simp: world_ok_def rx_graph_def tx_graph_def)
  have "J (w, Dispatcher_new ?rx, Dispatcher_new ?tx)"
    using Dispatcher_new_rest [OF rx_graph_ok, of I V ?s arg w] Dispatcher_new_rest [OF tx_graph_ok, of I V ?s arg w]
      V fresh_start [OF w] unfolding J_def ok by simp
  moreover have "\<exists>t'. io_pass I D (la_cfg arg) V (0, ?rx) (0, ?tx) t = Some (Inr t') \<and> J t'" if J: "J t" for t
  proof -
    obtain w1 d1 d2 where t: "t = (w1, d1, d2)" by (metis prod_cases3)
    obtain w2 d1' where p1: "pass I D (la_cfg arg) V (0, ?rx) (w1, d1) = Some (Inr (w2, d1'))" "at_rest I V ?s ?rx (w2, d1')"
      using rx_pass [of I V ?s arg "(w1, d1)" D "la_cfg arg"] J by (auto simp: J_def t)
    have "at_rest I V ?s ?tx (w2, d2)" using J p1(2) by (simp add: J_def t at_rest_def ok)
    then obtain w3 d2' where p2: "pass I D (la_cfg arg) V (0, ?tx) (w2, d2) = Some (Inr (w3, d2'))" "at_rest I V ?s ?tx (w3, d2')"
      using tx_pass [of I V ?s arg "(w2, d2)" D "la_cfg arg"] by auto
    have "J (w3, d1', d2')" using p1(2) p2(2) by (simp add: J_def at_rest_def ok)
    with p1(1) p2(1) show ?thesis by (auto simp: io_pass_def t)
  qed
  ultimately obtain t' where
    "passes (io_pass I D (la_cfg arg) V (0, ?rx) (0, ?tx)) rounds (w, Dispatcher_new ?rx, Dispatcher_new ?tx) = Some (Inr t')" "J t'"
    using passes_ok [of J] by blast
  then show ?thesis by (cases t') (auto simp: RunIo_def BuildRxGraph_eq BuildTxGraph_eq J_def)
qed

lemma LcoreMain_runs:
  assumes V: "dev_ok V" and w: "fresh w" and arg: "arg_ok arg"
  shows "\<exists>w' g st'. LcoreMain I D V arg rounds w = Some (Inr w') \<and> at_rest I V (w_stats w) g (w', st')"
proof (cases "la_role arg")
  case kMono
  then show ?thesis using RunMono_ok [OF V w, of I D arg rounds] by (auto simp: LcoreMain_def)
next
  case kIo
  with arg have "0 < la_n_workers arg" "unat (la_n_workers arg) \<le> length (la_worker_rings arg)" by (auto simp: arg_ok_def)
  from RunIo_ok [OF V w this, of I D rounds] kIo show ?thesis by (auto simp: LcoreMain_def)
next
  case kWorker
  then show ?thesis using RunWorker_ok [OF V w, of I D arg rounds] by (auto simp: LcoreMain_def)
qed

text \<open>
  Every core, whatever its role and however many passes it makes, keeps running without an
  abort, and every pass ends. Over the whole run it has lost and duplicated nothing: the buffers
  it received from the port and took from a ring are, each exactly once, those it transmitted,
  put on a ring, or freed. And its counters show the packets received and transmitted.
\<close>

theorem lcore_conserves:
  assumes V: "dev_ok V" and w: "fresh w" and arg: "arg_ok arg"
  shows "\<exists>w'. LcoreMain I D V arg rounds w = Some (Inr w')
    \<and> mset (map mb_id (w_received w' @ w_dequeued w')) = mset (map mb_id (w_sent w' @ map snd (w_ringed w') @ w_freed w'))
    \<and> rx_packets (w_stats w') = rx_packets (w_stats w) + of_nat (length (w_received w'))
    \<and> tx_packets (w_stats w') = tx_packets (w_stats w) + of_nat (length (w_sent w'))"
proof -
  obtain w' g st' where h: "LcoreMain I D V arg rounds w = Some (Inr w')" "at_rest I V (w_stats w) g (w', st')"
    using LcoreMain_runs [OF assms] by blast
  have "world_gone w' = world_came w'" "counted (w_stats w) w'" using h(2) by (simp_all add: at_rest_def world_ok_def)
  with h(1) show ?thesis
    by (simp add: world_gone_def world_came_def counted_def ids_def add.assoc multiset.map_comp comp_def)
qed

text \<open>A port with a list of incoming packets, a transmitter that takes one packet of each burst, and
  rings that are full.\<close>

definition ex_dev :: "mbuf list dev" where
  "ex_dev = \<lparr>eth_rx_burst = (\<lambda>p q n d. (take n d, drop n d)), eth_tx_burst = (\<lambda>p q ms d. (min 1 (length ms), d)),
     ring_dequeue_burst = (\<lambda>r n d. ([], d)), ring_enqueue_burst = (\<lambda>r ms d. (0, d)), ring_enqueue = (\<lambda>r m d. (-105, d)),
     timer_cycles = (\<lambda>d. 5000), timer_hz = 1000000, rcu_load = (\<lambda>d. (\<lparr>rcu_ptr = Some (ex_pool [1])\<rparr>, d))\<rparr>"

lemma ex_dev_ok: "dev_ok ex_dev"
  using ex_pool_built by (simp add: dev_ok_def ex_dev_def built_rcu_def Rcu_Load_def)

definition ex_world :: "mbuf list world" where
  "ex_world = \<lparr>w_dev = [ex_mbuf], w_stats = LcoreStats_zero, w_lb = None, w_received = [], w_dequeued = [], w_sent = [],
     w_ringed = [], w_freed = []\<rparr>"

definition ex_arg :: LcoreArg where
  "ex_arg = \<lparr>la_role = kIo, la_port_id = 0, la_worker_id = 0, la_n_workers = 2, la_cfg = ex_cfg, la_stats = 0,
     la_worker_rings = [1, 2], la_ingress = 0, la_egress = 3\<rparr>"

theorem lcore_conserves_witness:
  "\<exists>w'. LcoreMain Generic ex_dpdk ex_dev ex_arg 3 ex_world = Some (Inr w')
    \<and> mset (map mb_id (w_received w' @ w_dequeued w')) = mset (map mb_id (w_sent w' @ map snd (w_ringed w') @ w_freed w'))"
proof -
  have "fresh ex_world" "arg_ok ex_arg" by (simp_all add: fresh_def ex_world_def arg_ok_def ex_arg_def)
  from lcore_conserves [OF ex_dev_ok this, of Generic ex_dpdk 3] show ?thesis by blast
qed

end
