(* ===== verification/Lb_Flows.thy ===== *)
theory Lb_Flows
  imports Lb_Props
begin

text \<open>
  Facts about the flows of the connection table that hold of a flow when it is made and that
  depend only on what a flow never changes. A locale: from its two laws, the load-balancing node
  keeps the fact for all flows in use, and every packet it lets through is addressed from a flow
  that has it.
\<close>

definition flows_all :: "(NatFlow \<Rightarrow> bool) \<Rightarrow> NatTable \<Rightarrow> bool" where
  "flows_all Q t \<longleftrightarrow> (\<forall>f \<in> set (nt_slots t). live f \<longrightarrow> Q f)"

lemma flows_all_slot: "flows_all Q t \<Longrightarrow> i < length (nt_slots t) \<Longrightarrow> live (slot t i) \<Longrightarrow> Q (slot t i)"
  by (simp add: flows_all_def)

lemma flows_all_update:
  assumes "flows_all Q t" and "nt_slots t' = (nt_slots t)[i := f]" and "live f \<Longrightarrow> Q f"
  shows "flows_all Q t'"
  using assms set_update_subset_insert [of "nt_slots t" i f] unfolding flows_all_def by auto

lemma flows_all_new: "flows_all Q (NatTable_new cap timeout)"
  by (simp add: flows_all_def NatTable_new_def NatFlow_default_def live_def)

locale flow_fact =
  fixes Q :: "NatFlow \<Rightarrow> bool" and pool_good :: "BackendPool \<Rightarrow> bool" and meta_good :: "PacketMeta \<Rightarrow> bool"
  assumes lasting: "core f' = core f \<Longrightarrow> Q f \<Longrightarrow> Q f'"
    and created: "pool_good pool \<Longrightarrow> meta_good m \<Longrightarrow> idx \<in> set (bp_active pool) \<Longrightarrow> unat idx < length (bp_slots pool)
      \<Longrightarrow> Q (placed (new_flow m (meta_key m) (bp_slots pool ! unat idx) sport idx) now)"
begin

lemma quiet_fact:
  assumes ok: "flows_all Q t" and q: "quiet t t'"
  shows "flows_all Q t'"
  unfolding flows_all_def
proof (intro ballI impI)
  fix f
  assume "f \<in> set (nt_slots t')" "live f"
  then obtain i where i: "i < length (nt_slots t)" "f = slot t' i"
    using q unfolding in_set_conv_nth quiet_def by metis
  have "live (slot t i)" using q i \<open>live f\<close> quiet_fields [OF q i(1)] by (auto simp: live_def quiet_def)
  with lasting [OF quiet_core [OF q i(1)]] flows_all_slot [OF ok i(1)] i(2) show "Q f" by simp
qed

lemma MaybeTeardown_fact:
  assumes inv: "lb_inv I P st" and i: "i < length (nt_slots (lb_nat st))" "live (slot (lb_nat st) i)"
    and ok: "flows_all Q (lb_nat st)"
  shows "flows_all Q (lb_nat (MaybeTeardown st i dir fl))"
proof (rule flows_all_update [OF ok MaybeTeardown_slots(1) [OF inv i]])
  let ?f = "slot (lb_nat st) i"
  assume "live (if closes ?f dir fl then (fin_bits ?f dir fl)\<lparr>reaped := True, snat_port := 0\<rparr> else fin_bits ?f dir fl)"
  then have "\<not> closes ?f dir fl" by (auto simp: live_def)
  moreover have "Q (fin_bits ?f dir fl)" by (rule lasting [OF _ flows_all_slot [OF ok i]]) (simp add: fin_bits_def)
  ultimately show "Q (if closes ?f dir fl then (fin_bits ?f dir fl)\<lparr>reaped := True, snat_port := 0\<rparr> else fin_bits ?f dir fl)"
    by simp
qed

lemma CreateFlow_fact:
  assumes inv: "lb_inv I P st" and pool: "usable_pool pool" "pool_good pool" and m: "meta_good m"
    and run: "CreateFlow I st m (meta_key m) pool now = Inr (st', r)" and ok: "flows_all Q (lb_nat st)"
  shows "flows_all Q (lb_nat st')"
  using inv pool(1)
proof (cases rule: CreateFlow_cases [where key = "meta_key m" and meta = m and now = now])
  case (ok idx sport q t' ep ei j)
  note pl = Insert_Some [OF lb_invD(2) [OF inv] ok(7)]
  have "lb_nat st' = t'" using ok(8) run by (auto simp: taken_def)
  then have "nt_slots (lb_nat st') =
      (nt_slots (lb_nat st))[j := placed (new_flow m (meta_key m) (bp_slots pool ! unat idx) sport idx) now]"
    by (simp add: pl(3))
  then show ?thesis using created [OF pool(2) m ok(2,3)] by (intro flows_all_update [OF assms(6)])
qed (use run ok in auto)

text \<open>A packet that is let through carries the addresses of a flow that it is addressed to and that has the fact.\<close>

definition from_flow :: "PacketMeta \<Rightarrow> PacketMeta \<Rightarrow> bool" where
  "from_flow m m' \<longleftrightarrow> (\<exists>f. Q f \<and> addressed m f \<and> m' = (if meta_dir m = kForward then fwd_meta m f else rev_meta m f))"

lemma HandlePacket_fact:
  assumes inv: "lb_inv I P st" and pool: "usable_pool pool" "pool_good pool" and m: "meta_good m"
    and run: "HandlePacket I st m pool now = Inr (st', m', b)" and ok: "flows_all Q (lb_nat st)"
  shows "flows_all Q (lb_nat st')" and "b \<Longrightarrow> from_flow m m'"
proof -
  have "flows_all Q (lb_nat st') \<and> (b \<longrightarrow> from_flow m m')"
  proof (cases "meta_dir m")
    case kForward
    obtain t1 r where look: "LookupForward I (lb_nat st) (meta_key m) now = (t1, r)" by fastforce
    note sv = LookupForward_served [OF inv look]
    have ok1: "flows_all Q t1" using ok LookupForward_spec(3) [OF lb_invD(2) [OF inv] look] by (rule quiet_fact)
    obtain st2 c where cf: "CreateFlow I (st\<lparr>lb_nat := t1\<rparr>) m (meta_key m) pool now = Inr (st2, c)"
      using CreateFlow_returns [OF sv(1) pool(1)] by blast
    have ok2: "flows_all Q (lb_nat st2)" using ok1 by (intro CreateFlow_fact [OF sv(1) pool m cf]) simp
    have fin: "flows_all Q (lb_nat (MaybeTeardown st2 i d fl)) \<and> Q (slot (lb_nat st2) i) \<and> fwd_key (slot (lb_nat st2) i) = meta_key m" if "r = None" "c = Some i" for i d fl
    proof -
      have "lb_inv I P st2"
        using LookupForward_miss [OF lb_invD(1) [OF inv]] look that(1) by (intro CreateFlow_inv [OF sv(1) pool(1) _ cf]) auto
      with CreateFlow_slot [OF sv(1) pool(1) cf [unfolded that(2)]] ok2 show ?thesis
        by (auto intro: MaybeTeardown_fact flows_all_slot)
    qed
    have hit: "flows_all Q (lb_nat (MaybeTeardown (st\<lparr>lb_nat := t1\<rparr>) i d fl)) \<and> Q (slot t1 i) \<and> fwd_key (slot t1 i) = meta_key m" if "r = Some i" for i d fl
      using sv(2) [OF that] ok1 by (auto intro: MaybeTeardown_fact [OF sv(1)] flows_all_slot)
    show ?thesis
      using run kForward look cf ok1 ok2 fin hit
      by (auto simp: HandlePacket_def finish_fwd_def Let_def from_flow_def addressed_def split: if_splits option.splits)
  next
    case kReverse
    obtain t1 r where look: "LookupReverse I (lb_nat st) (meta_src_ip m) (meta_src_port m)
        (meta_dst_port m) (meta_proto m) now = (t1, r)" by fastforce
    note sv = LookupReverse_served [OF inv look]
    have ok1: "flows_all Q t1" using ok LookupReverse_spec(3) [OF lb_invD(2) [OF inv] look] by (rule quiet_fact)
    have hit: "flows_all Q (lb_nat (MaybeTeardown (st\<lparr>lb_nat := t1\<rparr>) i d fl)) \<and> Q (slot t1 i)
        \<and> rev_match (meta_src_ip m) (meta_src_port m) (meta_dst_port m) (meta_proto m) (slot t1 i)" if "r = Some i" for i d fl
      using sv(2) [OF that] ok1 by (auto intro: MaybeTeardown_fact [OF sv(1)] flows_all_slot)
    show ?thesis
      using run kReverse look ok1 hit by (auto simp: HandlePacket_def Let_def from_flow_def addressed_def split: option.splits)
  qed
  then show "flows_all Q (lb_nat st')" and "b \<Longrightarrow> from_flow m m'" by simp_all
qed

lemma Lb_loop_fact:
  assumes "lb_inv I P st" and "usable_pool pool" "pool_good pool" and "\<forall>m \<in> set ms. meta_good m"
    and "Lb_loop I st pool now ms = Inr (st', outs)" and "flows_all Q (lb_nat st)"
  shows "flows_all Q (lb_nat st') \<and> (\<forall>k < length ms. snd (outs ! k) = kNextDnat \<longrightarrow> from_flow (ms ! k) (fst (outs ! k)))"
  using assms
proof (induction ms arbitrary: st outs)
  case Nil
  then show ?case by simp
next
  case (Cons m ms)
  obtain st1 m' b where h: "HandlePacket I st m pool now = Inr (st1, m', b)" "lb_inv I P st1"
    using HandlePacket_step [OF Cons.prems(1,2)] by blast
  obtain os where os: "Lb_loop I st1 pool now ms = Inr (st', os)" "outs = (m', if b then kNextDnat else kNextDrop_lb) # os"
    using Cons.prems(5) h(1) by (auto simp: bind_r_def split: sum.splits)
  have hf: "flows_all Q (lb_nat st1)" "b \<Longrightarrow> from_flow m m'"
    using HandlePacket_fact [OF Cons.prems(1-3) _ h(1) Cons.prems(6)] Cons.prems(4) by simp_all
  have "flows_all Q (lb_nat st') \<and> (\<forall>k < length ms. snd (os ! k) = kNextDnat \<longrightarrow> from_flow (ms ! k) (fst (os ! k)))"
    using Cons.prems(4) by (intro Cons.IH [OF h(2) Cons.prems(2,3) _ os(1) hf(1)]) simp
  with hf(2) show ?case by (auto simp: os(2) nth_Cons kNextDnat_def kNextDrop_lb_def split: nat.splits)
qed

lemma Lb_Process_fact:
  assumes inv: "lb_inv I P st" and rcu: "built_rcu rcu" "\<And>pool. Rcu_Load rcu = Some pool \<Longrightarrow> pool_good pool"
    and ms: "\<forall>m \<in> set ms. meta_good m" and run: "Lb_Process I st rcu now ms = Inr (st', outs)"
    and ok: "flows_all Q (lb_nat st)"
  shows "flows_all Q (lb_nat st') \<and> (\<forall>k < length ms. snd (outs ! k) = kNextDnat \<longrightarrow> from_flow (ms ! k) (fst (outs ! k)))"
proof (cases "Rcu_Load rcu")
  case None
  with run ok show ?thesis by (auto simp: Lb_Process_def kNextDnat_def kNextDrop_lb_def)
next
  case (Some pool)
  show ?thesis
  proof (cases "ActiveCount pool = 0")
    case True
    with Some run ok show ?thesis by (auto simp: Lb_Process_def kNextDnat_def kNextDrop_lb_def)
  next
    case False
    with Some rcu(1) have u: "usable_pool pool" by (auto simp: built_rcu_def intro: built_pool_usable)
    from False Some run obtain st1 where l: "Lb_loop I st pool now ms = Inr (st1, outs)" "lb_nat st' = lb_nat st1"
      by (auto simp: Lb_Process_def bind_r_def split: sum.splits)
    from Lb_loop_fact [OF inv u rcu(2) [OF Some] ms l(1) ok] l(2) show ?thesis by simp
  qed
qed

end

section \<open>A batch\<close>

text \<open>The flows of \<open>t'\<close> are flows of \<open>t\<close>, or go to a backend that is active in the pool.\<close>

definition flows_from :: "NatTable \<Rightarrow> BackendPool \<Rightarrow> NatFlow \<Rightarrow> bool" where
  "flows_from t pool f \<longleftrightarrow> core f \<in> core ` {g \<in> set (nt_slots t). live g}
     \<or> (\<exists>idx \<in> set (bp_active pool). unat idx < length (bp_slots pool) \<and> backend_idx f = idx
         \<and> backend_ip f = ip_value (bi_ip (bp_slots pool ! unat idx)) \<and> backend_port f = bi_port (bp_slots pool ! unat idx))"

interpretation fresh_flow: flow_fact "flows_from t pool" "\<lambda>p. p = pool" "\<lambda>m. True" for t pool
  by unfold_locales (auto simp: flows_from_def core_def placed_def new_flow_def NatFlow_default_def)

lemma Lb_Process_flows:
  assumes "lb_inv I P lb" and "built_pool pool" and "Lb_Process I lb \<lparr>rcu_ptr = Some pool\<rparr> now ms = Inr (lb', outs)"
  shows "flows_all (flows_from (lb_nat lb) pool) (lb_nat lb')"
proof -
  have "flows_all (flows_from (lb_nat lb) pool) (lb_nat lb)" by (auto simp: flows_all_def flows_from_def)
  with fresh_flow.Lb_Process_fact [OF assms(1) _ _ _ assms(3), of pool "lb_nat lb"] assms(2) show ?thesis
    by (simp add: built_rcu_def Rcu_Load_def)
qed

lemma Lb_dropped:
  assumes "lb_inv I P st" and "built_rcu rcu" and "Lb_Process I st rcu now ms = Inr (st', outs)" and "k < length ms" and "snd (outs ! k) = kNextDrop_lb"
  shows "fst (outs ! k) = ms ! k"
proof -
  have loop: "fst (os ! k) = ms ! k" if "usable_pool pool" "lb_inv I P s" "Lb_loop I s pool now ms = Inr (s', os)" "k < length ms" "snd (os ! k) = kNextDrop_lb"
    for s s' os pool ms k
    using that
  proof (induction ms arbitrary: s os k)
    case (Cons m ms)
    obtain s1 m' b where h: "HandlePacket I s m pool now = Inr (s1, m', b)" "lb_inv I P s1" using HandlePacket_step [OF Cons.prems(2,1)] by blast
    have same: "m' = m" if "\<not> b" using Cons.prems(2,1)
      by (cases rule: HandlePacket_cases [where meta = m and now = now]) (use h(1) that in \<open>simp_all add: finish_fwd_def\<close>)
    obtain os' where os: "Lb_loop I s1 pool now ms = Inr (s', os')" "os = (m', if b then kNextDnat else kNextDrop_lb) # os'"
      using Cons.prems(3) h(1) by (auto simp: bind_r_def split: sum.splits)
    show ?case
    proof (cases k)
      case 0
      have "\<not> b" using Cons.prems(5) by (simp add: 0 os(2) kNextDnat_def kNextDrop_lb_def split: if_splits)
      then show ?thesis by (simp add: 0 os(2) same)
    next
      case (Suc j)
      with Cons.IH [OF Cons.prems(1) h(2) os(1), of j] Cons.prems(4,5) os(2) show ?thesis by simp
    qed
  qed simp
  show ?thesis
  proof (cases "Rcu_Load rcu = None \<or> (\<exists>pool. Rcu_Load rcu = Some pool \<and> ActiveCount pool = 0)")
    case True
    with assms(3,4) show ?thesis by (auto simp: Lb_Process_def)
  next
    case False
    then obtain pool st1 where p: "Rcu_Load rcu = Some pool" "ActiveCount pool \<noteq> 0" "Lb_loop I st pool now ms = Inr (st1, outs)"
      using assms(3) by (auto simp: Lb_Process_def bind_r_def split: sum.splits)
    have "usable_pool pool" using p(1,2) assms(2) by (auto simp: built_rcu_def intro: built_pool_usable)
    from loop [OF this assms(1) p(3) assms(4,5)] show ?thesis .
  qed
qed

lemma Lb_let_through:
  assumes inv: "lb_inv I P st" and rcu: "built_rcu rcu" and run: "Lb_Process I st rcu now ms = Inr (st', outs)" and k: "k < length ms"
    and out: "snd (outs ! k) = kNextDnat"
  shows "\<exists>pool f. Rcu_Load rcu = Some pool \<and> ActiveCount pool \<noteq> 0 \<and> flows_from (lb_nat st) pool f \<and> addressed (ms ! k) f
    \<and> fst (outs ! k) = (if meta_dir (ms ! k) = kForward then fwd_meta (ms ! k) f else rev_meta (ms ! k) f)"
proof -
  obtain pool where p: "Rcu_Load rcu = Some pool" "ActiveCount pool \<noteq> 0"
    using run k out by (auto simp: Lb_Process_def kNextDnat_def kNextDrop_lb_def split: option.splits if_splits)
  have "flows_all (flows_from (lb_nat st) pool) (lb_nat st)" by (auto simp: flows_all_def flows_from_def)
  with fresh_flow.Lb_Process_fact [OF inv rcu _ _ run, of pool "lb_nat st"] p(1) k out
  have "fresh_flow.from_flow (lb_nat st) pool (ms ! k) (fst (outs ! k))" by simp
  then obtain f where "flows_from (lb_nat st) pool f" "addressed (ms ! k) f"
    "fst (outs ! k) = (if meta_dir (ms ! k) = kForward then fwd_meta (ms ! k) f else rev_meta (ms ! k) f)"
    unfolding fresh_flow.from_flow_def by blast
  with p show ?thesis by blast
qed

text \<open>
  C7. The load-balancing node is total, and keeps the packets of a batch apart. Over every history, and whatever built pool is in
  place, a batch is handled without an abort. The packet at each position comes out at that position: to the NAT stage, with its own metadata and
  the addresses of a flow it is addressed to, which the table held before the batch or which goes to a backend that is enabled in the pool;
  or to the drop stage, unchanged. With no pool, or none enabled in it, all are dropped and the node stays as it was; otherwise
  \<open>active_flows\<close> is afterwards the number of flows in the table. The state reached satisfies all that holds of reachable states.
\<close>

theorem batch_processed:
  assumes reach: "lb_reach I cap cfg w n st" and cap: "cap AND (cap - 1) = 0" "cap \<noteq> 0"
    and rcu: "built_rcu rcu"
  shows "\<exists>st' outs. Lb_Process I st rcu now ms = Inr (st', outs) \<and> lb_reach I cap cfg w n st' \<and> length outs = length ms
    \<and> (\<forall>k < length ms. snd (outs ! k) = kNextDnat
          \<and> (\<exists>pool f. Rcu_Load rcu = Some pool \<and> flows_from (lb_nat st) pool f \<and> addressed (ms ! k) f
              \<and> fst (outs ! k) = (if meta_dir (ms ! k) = kForward then fwd_meta (ms ! k) f else rev_meta (ms ! k) f))
        \<or> snd (outs ! k) = kNextDrop_lb \<and> fst (outs ! k) = ms ! k)
    \<and> (case Rcu_Load rcu of None \<Rightarrow> st' = st \<and> outs = map (\<lambda>m. (m, kNextDrop_lb)) ms
       | Some pool \<Rightarrow> if ActiveCount pool = 0 then st' = st \<and> outs = map (\<lambda>m. (m, kNextDrop_lb)) ms
           else unat (active_flows (lb_stats st')) = length (filter (\<lambda>f. occupied f \<and> \<not> reaped f) (nt_slots (lb_nat st'))))"
proof -
  have inv: "lb_inv I (all_ports w n) st" by (rule lb_reach_inv [OF reach cap])
  obtain st' outs where run: "Lb_Process I st rcu now ms = Inr (st', outs)" "lb_inv I (all_ports w n) st'"
    "length outs = length ms" using Lb_Process_inv [OF inv rcu] by blast
  have "snd (outs ! k) = kNextDnat \<or> snd (outs ! k) = kNextDrop_lb" if "k < length ms" for k
    using Lb_outputs [OF run(1)] nth_mem [of k outs] that run(3) by (metis image_subset_iff insert_iff singletonD)
  then have each: "\<forall>k < length ms. snd (outs ! k) = kNextDnat
          \<and> (\<exists>pool f. Rcu_Load rcu = Some pool \<and> flows_from (lb_nat st) pool f \<and> addressed (ms ! k) f
              \<and> fst (outs ! k) = (if meta_dir (ms ! k) = kForward then fwd_meta (ms ! k) f else rev_meta (ms ! k) f))
        \<or> snd (outs ! k) = kNextDrop_lb \<and> fst (outs ! k) = ms ! k"
    using Lb_dropped [OF inv rcu run(1)] Lb_let_through [OF inv rcu run(1)] by blast
  have size: "unat (nt_size (lb_nat st')) = length (filter (\<lambda>f. occupied f \<and> \<not> reaped f) (nt_slots (lb_nat st')))"
    using nat_wf_len(3) [OF lb_invD(2) [OF run(2)]] by (simp add: live_def [abs_def])
  have "case Rcu_Load rcu of None \<Rightarrow> st' = st \<and> outs = map (\<lambda>m. (m, kNextDrop_lb)) ms
       | Some pool \<Rightarrow> if ActiveCount pool = 0 then st' = st \<and> outs = map (\<lambda>m. (m, kNextDrop_lb)) ms
           else unat (active_flows (lb_stats st')) = unat (nt_size (lb_nat st'))"
    using run(1) by (auto simp: Lb_Process_def bind_r_def unsigned_ucast_eq take_bit_nat_eq_self split: option.splits sum.splits prod.splits)
  note this [unfolded size]
  with each run(1,3) lb_reach.batch [OF reach rcu run(1)] show ?thesis by (intro exI conjI)
qed

theorem batch_processed_witness:
  "\<exists>st' outs. Lb_Process Generic ex_boot \<lparr>rcu_ptr = Some (ex_pool [1])\<rparr> 5 [ex_meta 40000 2, ex_meta 40001 16] = Inr (st', outs)
    \<and> lb_reach Generic 4 ex_cfg 0 1 st' \<and> length outs = 2"
proof -
  have b: "built_rcu \<lparr>rcu_ptr = Some (ex_pool [1])\<rparr>" by (simp add: built_rcu_def Rcu_Load_def ex_pool_built)
  have "(4 :: u32) AND (4 - 1) = 0" "(4 :: u32) \<noteq> 0" by simp_all
  from batch_processed [OF ex_boot_reach [of Generic] this b, of 5 "[ex_meta 40000 2, ex_meta 40001 16]"]
  show ?thesis by auto
qed

end
