(* ===== verification/Lb_Reply.thy ===== *)
theory Lb_Reply
  imports Lb_Flows
begin

text \<open>
  The way back: a reply of a backend is recognised by the reverse index and sent to the client
  that opened the connection, whatever the node did in between. And the limit the code has:
  once the ports of a backend are gone, timed-out flows never give theirs back.
\<close>

section \<open>The reverse index over a packet\<close>

lemma indexed_same:
  assumes "nt_cap t' = nt_cap t" "nt_rev t' = nt_rev t" and "core (slot t' i) = core (slot t i)"
  shows "indexed I t' i = indexed I t i"
  using assms by (simp add: indexed_def rev_ring_def ptr_slot_def core_def)

lemma MaybeTeardown_rev:
  "nt_rev (lb_nat (MaybeTeardown st i dir fl)) = nt_rev (lb_nat st)"
  "nt_cap (lb_nat (MaybeTeardown st i dir fl)) = nt_cap (lb_nat st)"
  by (simp_all add: MaybeTeardown_def Close_def Reap_def set_slot_def pool_release_def Let_def)

lemma CreateFlow_indexed:
  assumes inv: "lb_inv I P st" and pool: "usable_pool pool"
    and run: "CreateFlow I st m key pool now = Inr (st', r)"
    and i: "i < length (nt_slots (lb_nat st))" "\<not> usable (lb_nat st) now i" and ix: "indexed I (lb_nat st) i"
  shows "indexed I (lb_nat st') i"
  using inv pool
proof (cases rule: CreateFlow_cases [where key = key and meta = m and now = now])
  case (ok idx sport q t' ep ei j)
  let ?f = "placed (new_flow m key (bp_slots pool ! unat idx) sport idx) now"
  note wf = lb_invD(2) [OF inv]
  note pl = Insert_Some [OF wf ok(7)]
  have "lb_nat st' = t'" using ok(8) run by (auto simp: taken_def)
  have ji: "j \<noteq> i" using pl(2) i(2) by auto
  have wfu: "nat_wf (put (lb_nat st) j ?f)"
    by (rule put_wf [OF wf pl(1)]) (simp add: placed_def live_def)
  have "indexed I (put (lb_nat st) j ?f) i"
    using ix indexed_same [of "put (lb_nat st) j ?f" "lb_nat st" i I] ji by simp
  then have "indexed I t' i"
    unfolding pl(3) using wfu pl(1) nat_wf_len(1) [OF wf] i ji
    by (intro indexed_IndexReverse) (auto simp: usable_def Expired_def)
  with \<open>lb_nat st' = t'\<close> show ?thesis by simp
qed (use run ix in auto)

text \<open>A packet that leaves a valid flow in its slot leaves it indexed.\<close>

lemma HandlePacket_indexed:
  assumes inv: "lb_inv I P st" and pool: "usable_pool pool"
    and run: "HandlePacket I st m pool now = Inr (st', m', b)"
    and i: "i < length (nt_slots (lb_nat st))" "occupied (slot (lb_nat st) i)"
      "\<not> Expired (lb_nat st) (slot (lb_nat st) i) now"
    and ix: "indexed I (lb_nat st) i" and same: "core (slot (lb_nat st') i) = core (slot (lb_nat st) i)"
  shows "indexed I (lb_nat st') i"
proof (cases "meta_dir m")
  case kForward
  obtain t1 r where look: "LookupForward I (lb_nat st) (meta_key m) now = (t1, r)" by fastforce
  note sp = LookupForward_spec [OF lb_invD(2) [OF inv] look]
  note sv = LookupForward_served [OF inv look]
  have ix1: "indexed I t1 i" using indexed_quiet [OF sp(3) i(1)] ix by simp
  have c1: "core (slot t1 i) = core (slot (lb_nat st) i)" using sp(3) i(1) by (rule quiet_core)
  show ?thesis
  proof (cases r)
    case (Some j)
    then have st': "st' = MaybeTeardown (st\<lparr>lb_nat := t1\<rparr>) j (meta_dir m) (meta_tcp_flags m)"
      using run kForward look by (simp add: HandlePacket_def finish_fwd_def)
    show ?thesis
      using ix1 indexed_same [of "lb_nat st'" t1 i I] same c1 by (simp add: st' MaybeTeardown_rev)
  next
    case None
    obtain st2 c where cf: "CreateFlow I (st\<lparr>lb_nat := t1\<rparr>) m (meta_key m) pool now = Inr (st2, c)"
      using CreateFlow_returns [OF sv(1) pool] by blast
    have len1: "i < length (nt_slots t1)" using sp(3) i(1) by (simp add: quiet_def)
    have nu: "\<not> usable t1 now i"
      using usable_spared [OF lb_invD(2) [OF inv] look [unfolded None] i(1)] i by (simp add: usable_def)
    have ix2: "indexed I (lb_nat st2) i"
      using len1 nu ix1 by (intro CreateFlow_indexed [OF sv(1) pool cf]) simp_all
    have "core (slot (lb_nat st2) i) = core (slot t1 i)"
      using CreateFlow_slots [OF sv(1) pool cf] nu by (cases c) (auto, metis nth_list_update_neq)
    then have fin: "indexed I (lb_nat (MaybeTeardown st2 j d fl)) i"
      if "core (slot (lb_nat (MaybeTeardown st2 j d fl)) i) = core (slot (lb_nat st) i)" for j d fl
      using ix2 c1 that indexed_same [of "lb_nat (MaybeTeardown st2 j d fl)" "lb_nat st2" i I]
      by (simp add: MaybeTeardown_rev)
    show ?thesis
      using run kForward look None cf ix1 ix2 fin same
      by (auto simp: HandlePacket_def finish_fwd_def Let_def split: if_splits option.splits)
  qed
next
  case kReverse
  obtain t1 r where look: "LookupReverse I (lb_nat st) (meta_src_ip m) (meta_src_port m)
      (meta_dst_port m) (meta_proto m) now = (t1, r)" by fastforce
  note sp = LookupReverse_spec [OF lb_invD(2) [OF inv] look]
  have ix1: "indexed I t1 i" using indexed_quiet [OF sp(3) i(1)] ix by simp
  have c1: "core (slot t1 i) = core (slot (lb_nat st) i)" using sp(3) i(1) by (rule quiet_core)
  have "indexed I (lb_nat (MaybeTeardown (st\<lparr>lb_nat := t1\<rparr>) j d fl)) i"
    if "core (slot (lb_nat (MaybeTeardown (st\<lparr>lb_nat := t1\<rparr>) j d fl)) i) = core (slot (lb_nat st) i)" for j d fl
    using ix1 c1 that indexed_same [of "lb_nat (MaybeTeardown (st\<lparr>lb_nat := t1\<rparr>) j d fl)" t1 i I]
    by (simp add: MaybeTeardown_rev)
  with run kReverse look ix1 same show ?thesis
    by (auto simp: HandlePacket_def Let_def split: option.splits)
qed

section \<open>Where the flows of a table come from\<close>

text \<open>
  The control plane publishes one list of backends and only switches slots on and off:
  \<open>A\<close> gives the address of each slot. A flow's backend address is its slot's.
\<close>

definition pool_follows :: "(nat \<Rightarrow> u32 \<times> u16) \<Rightarrow> BackendPool \<Rightarrow> bool" where
  "pool_follows A pool \<longleftrightarrow> (\<forall>b < length (bp_slots pool).
     A b = (ip_value (bi_ip (bp_slots pool ! b)), bi_port (bp_slots pool ! b)))"

definition addr_ok :: "(nat \<Rightarrow> u32 \<times> u16) \<Rightarrow> NatTable \<Rightarrow> bool" where
  "addr_ok A t \<longleftrightarrow> (\<forall>f \<in> set (nt_slots t). live f \<longrightarrow> A (unat (backend_idx f)) = (backend_ip f, backend_port f))"

interpretation addr: flow_fact "\<lambda>f. A (unat (backend_idx f)) = (backend_ip f, backend_port f)" "pool_follows A" "\<lambda>m. True"
  for A by unfold_locales (auto simp: core_def pool_follows_def placed_def)

lemma addr_ok_flows: "addr_ok A t = flows_all (\<lambda>f. A (unat (backend_idx f)) = (backend_ip f, backend_port f)) t"
  by (simp add: addr_ok_def flows_all_def)

lemma HandlePacket_addr:
  assumes "lb_inv I P st" and "usable_pool pool" and "pool_follows A pool"
    and "HandlePacket I st m pool now = Inr (st', m', b)" and "addr_ok A (lb_nat st)"
  shows "addr_ok A (lb_nat st')"
  using addr.HandlePacket_fact(1) [OF assms(1-3) _ assms(4)] assms(5) by (simp add: addr_ok_flows)

section \<open>Replies\<close>

lemma opened:
  assumes inv: "lb_inv I P st" and pool: "usable_pool pool" and dir: "meta_dir m = kForward"
    and miss: "conn (lb_nat st) now (meta_key m) = None" and calm: "harmless (meta_tcp_flags m)"
    and run: "HandlePacket I st m pool now = Inr (st', m', True)" and room: "0 \<in> set (nt_rev (lb_nat st))"
  obtains i p idx where "i < length (nt_slots (lb_nat st'))" "indexed I (lb_nat st') i" "lb_inv I P st'"
    "slot (lb_nat st') i = placed (new_flow m (meta_key m) (bp_slots pool ! unat idx) p idx) now"
    "m' = fwd_meta m (slot (lb_nat st') i)" "nt_timeout (lb_nat st') = nt_timeout (lb_nat st)"
    "\<And>j. j < length (nt_slots (lb_nat st')) \<Longrightarrow> j \<noteq> i \<Longrightarrow> spared (lb_nat st) (lb_nat st') now j"
    "length (nt_slots (lb_nat st')) = length (nt_slots (lb_nat st))" "unat idx = picked I pool (meta_key m)"
proof -
  obtain t1 r where look': "LookupForward I (lb_nat st) (meta_key m) now = (t1, r)" by fastforce
  with LookupForward_conn [OF lb_invD(1) [OF inv] look'] miss
  have look: "LookupForward I (lb_nat st) (meta_key m) now = (t1, None)" by auto
  note inv1 = LookupForward_served(1) [OF inv look]
  have q: "quiet (lb_nat st) t1" by (rule LookupForward_spec(3) [OF lb_invD(2) [OF inv] look])
  obtain st2 c where cf': "CreateFlow I (st\<lparr>lb_nat := t1\<rparr>) m (meta_key m) pool now = Inr (st2, c)"
    using CreateFlow_returns [OF inv1 pool] by blast
  then obtain j where cf: "CreateFlow I (st\<lparr>lb_nat := t1\<rparr>) m (meta_key m) pool now = Inr (st2, Some j)"
    and st': "st' = MaybeTeardown st2 j (meta_dir m) (meta_tcp_flags m)" and m': "m' = fwd_meta m (slot (lb_nat st2) j)"
    using run dir look by (auto simp: HandlePacket_def finish_fwd_def Let_def split: if_splits option.splits)
  have inv2: "lb_inv I P st2"
    using LookupForward_miss [OF lb_invD(1) [OF inv] look] by (intro CreateFlow_inv [OF inv1 pool _ cf]) auto
  note j = CreateFlow_slot [OF inv1 pool cf]
  have jl: "j < length (nt_slots (lb_nat st2))" "live (slot (lb_nat st2) j)" using j by auto
  note td = MaybeTeardown_slots [OF inv2 jl, of "meta_dir m" "meta_tcp_flags m"]
  have same: "nt_slots (lb_nat st') = nt_slots (lb_nat st2)"
    using td(1) calm by (simp add: st' harmless_def closes_def fin_bits_def)
  have "\<exists>p idx. slot (lb_nat st2) j = placed (new_flow m (meta_key m) (bp_slots pool ! unat idx) p idx) now
      \<and> indexed I (lb_nat st2) j \<and> unat idx = picked I pool (meta_key m)"
    using inv1 pool
  proof (cases rule: CreateFlow_cases [where key = "meta_key m" and meta = m and now = now])
    case (ok idx sport q t' ep ei i)
    let ?f = "placed (new_flow m (meta_key m) (bp_slots pool ! unat idx) sport idx) now"
    have wf: "nat_wf t1" using lb_invD(2) [OF inv1] by simp
    note pl = Insert_Some [OF lb_invD(2) [OF inv1] ok(7), simplified]
    have st2: "lb_nat st2 = t'" "i = j" using ok(8) cf by (auto simp: taken_def)
    have wfu: "nat_wf (put t1 i ?f)" by (rule put_wf [OF wf pl(1)]) (simp add: placed_def live_def)
    obtain x where "x < unat (nt_cap t1)" "nt_rev t1 ! x = 0"
      using room q nat_wf_len(2) [OF wf] by (auto simp: in_set_conv_nth quiet_def)
    then have "indexed I t' i"
      unfolding pl(3) using pl(1) nat_wf_len(1) [OF wf]
      by (intro IndexReverse_indexed [OF wfu]) (auto simp: rev_free_def)
    moreover have "slot t' i = ?f" using pl(1) by (simp add: pl(3))
    moreover have "unat idx = picked I pool (meta_key m)"
      using ok(1) by (auto simp: Select_def picked_def split: if_splits)
    ultimately show ?thesis using st2 by blast
  qed (use cf in auto)
  then obtain p idx where p: "slot (lb_nat st2) j = placed (new_flow m (meta_key m) (bp_slots pool ! unat idx) p idx) now"
      "indexed I (lb_nat st2) j" "unat idx = picked I pool (meta_key m)" by blast
  have "indexed I (lb_nat st') j"
    using p(2) indexed_same [of "lb_nat st'" "lb_nat st2" j I] same by (simp add: st' MaybeTeardown_rev)
  moreover have "lb_inv I P st'" unfolding st' by (rule MaybeTeardown_inv [OF inv2 jl])
  moreover have "nt_timeout (lb_nat st') = nt_timeout (lb_nat st)"
    using td(2) CreateFlow_slots [OF inv1 pool cf] q by (simp add: st' quiet_def)
  moreover obtain f where f: "nt_slots (lb_nat st2) = (nt_slots t1)[j := f]"
    using CreateFlow_slots [OF inv1 pool cf] by auto
  moreover have "length (nt_slots (lb_nat st')) = length (nt_slots (lb_nat st))" using f same q by (simp add: quiet_def)
  moreover from f have "spared (lb_nat st) (lb_nat st') now k" if "k < length (nt_slots (lb_nat st'))" "k \<noteq> j" for k
    using LookupForward_spec(5) [OF lb_invD(2) [OF inv] look, of k] that q
    by (simp add: same spared_def quiet_def)
  ultimately show thesis using that [of j idx p] same jl(1) p(1,3) m' by auto
qed

lemma run_indexed:
  assumes "lb_inv I P st" and "i < length (nt_slots (lb_nat st))" and "live (slot (lb_nat st) i)"
    and "core (slot (lb_nat st) i) = core f"
    and "sorted ((last_seen_ms (slot (lb_nat st) i) - t0) # map (\<lambda>e. snd (snd e) - t0) es @ [u])"
    and "u \<le> nt_timeout (lb_nat st)" and "\<forall>e \<in> set es. calm f e \<and> pool_follows A (fst (snd e))"
    and "addr_ok A (lb_nat st)" and "indexed I (lb_nat st) i" and "lb_run I st es = Inr st'"
  shows "addr_ok A (lb_nat st') \<and> indexed I (lb_nat st') i"
  using assms
proof (induction es arbitrary: st)
  case Nil
  then show ?case by simp
next
  case (Cons e es)
  obtain m pool now where e: "e = (m, pool, now)" by (metis prod_cases3)
  have pl: "usable_pool pool" "pool_follows A pool" using Cons.prems(7) e by (auto simp: calm_def)
  have "last_seen_ms (slot (lb_nat st) i) - t0 \<le> now - t0" "now - t0 \<le> nt_timeout (lb_nat st)"
    "usable_pool pool" "addressed m f \<Longrightarrow> harmless (meta_tcp_flags m)"
    using Cons.prems(5-7) e by (auto simp: calm_def intro: order_trans)
  from step_bound [OF Cons.prems(1-4) this]
  obtain st1 m' b where h: "HandlePacket I st m pool now = Inr (st1, m', b)" "lb_inv I P st1"
    "i < length (nt_slots (lb_nat st1))" "nt_timeout (lb_nat st1) = nt_timeout (lb_nat st)"
    "slot (lb_nat st1) i = slot (lb_nat st) i \<or> slot (lb_nat st1) i = (slot (lb_nat st) i)\<lparr>last_seen_ms := now\<rparr>"
    "\<not> Expired (lb_nat st) (slot (lb_nat st) i) now" by metis
  then have s1: "live (slot (lb_nat st1) i)" "core (slot (lb_nat st1) i) = core f"
    "sorted ((last_seen_ms (slot (lb_nat st1) i) - t0) # map (\<lambda>e. snd (snd e) - t0) es @ [u])"
    using Cons.prems(3-5) e by (auto simp: live_def)
  have "addr_ok A (lb_nat st1)" by (rule HandlePacket_addr [OF Cons.prems(1) pl h(1) Cons.prems(8)])
  moreover have "indexed I (lb_nat st1) i"
    using Cons.prems(2-4,9) h(6) s1(2)
    by (intro HandlePacket_indexed [OF Cons.prems(1) pl(1) h(1)]) (auto simp: live_def)
  ultimately show ?case
    using Cons.IH [OF h(2,3) s1] Cons.prems(6,7,10) h(1,4) e by simp
qed

text \<open>Under the address discipline a reverse key names one live flow.\<close>

lemma rev_key_unique:
  assumes inv: "lb_inv I P st" and P: "\<And>p. count P p \<le> 1" and ok: "addr_ok A (lb_nat st)"
    and A: "inj_on A {..<kMaxBackends}"
    and i: "i < length (nt_slots (lb_nat st))" "live (slot (lb_nat st) i)" "rev_match bip bp sp pr (slot (lb_nat st) i)"
    and j: "j < length (nt_slots (lb_nat st))" "live (slot (lb_nat st) j)" "rev_match bip bp sp pr (slot (lb_nat st) j)"
  shows "j = i"
proof (rule ccontr)
  assume "j \<noteq> i"
  let ?f = "slot (lb_nat st) i" and ?g = "slot (lb_nat st) j"
  have "A (unat (backend_idx ?f)) = (bip, bp)" "A (unat (backend_idx ?g)) = (bip, bp)"
    using ok i j by (auto simp: addr_ok_def rev_match_def)
  moreover have "unat (backend_idx ?f) < kMaxBackends" "unat (backend_idx ?g) < kMaxBackends"
    using flow_okD_live [OF lb_invD(4) [OF inv]] i j by auto
  ultimately have "backend_idx ?f = backend_idx ?g"
    using inj_onD [OF A, of "unat (backend_idx ?f)" "unat (backend_idx ?g)"] by (simp add: word_unat_eq_iff)
  with live_ports_differ [OF inv P i(1,2) j(1,2)] \<open>j \<noteq> i\<close> i(3) j(3) show False
    by (auto simp: rev_match_def)
qed

lemma reply_conn:
  assumes inv: "lb_inv I P st" and P: "\<And>p. count P p \<le> 1"
    and A: "addr_ok A (lb_nat st)" "inj_on A {..<kMaxBackends}"
    and pool: "usable_pool pool" "pool_follows A pool"
    and m1: "meta_dir m1 = kForward" "harmless (meta_tcp_flags m1)" "conn (lb_nat st) t0 (meta_key m1) = None"
    and room: "0 \<in> set (nt_rev (lb_nat st))"
    and run1: "HandlePacket I st m1 pool t0 = Inr (st1, m1', True)"
    and times: "sorted (map (\<lambda>e. snd (snd e) - t0) es @ [now2 - t0])" "now2 - t0 \<le> nt_timeout (lb_nat st)"
    and others: "\<forall>e \<in> set es. usable_pool (fst (snd e)) \<and> pool_follows A (fst (snd e))
      \<and> ((if meta_dir (fst e) = kForward then meta_key (fst e) = meta_key m1
          else meta_src_ip (fst e) = ip_value (meta_backend_ip m1') \<and> meta_src_port (fst e) = meta_backend_port m1'
            \<and> meta_dst_port (fst e) = meta_snat_port m1' \<and> meta_proto (fst e) = meta_proto m1)
         \<longrightarrow> harmless (meta_tcp_flags (fst e)))"
    and m2: "meta_dir m2 = kReverse" "meta_src_ip m2 = ip_value (meta_backend_ip m1')"
      "meta_src_port m2 = meta_backend_port m1'" "meta_dst_port m2 = meta_snat_port m1'" "meta_proto m2 = meta_proto m1"
  shows "\<exists>st2 st3 m2'. lb_run I st1 es = Inr st2 \<and> HandlePacket I st2 m2 pool2 now2 = Inr (st3, m2', True)
    \<and> meta_client_ip m2' = \<lparr>ip_value = meta_src_ip m1\<rparr> \<and> meta_client_port m2' = meta_src_port m1
    \<and> meta_client_mac m2' = meta_client_mac m1 \<and> meta_dir m2' = kReverse"
proof -
  obtain i p idx where i: "i < length (nt_slots (lb_nat st1))" "indexed I (lb_nat st1) i" "lb_inv I P st1"
    "slot (lb_nat st1) i = placed (new_flow m1 (meta_key m1) (bp_slots pool ! unat idx) p idx) t0"
    "m1' = fwd_meta m1 (slot (lb_nat st1) i)" "nt_timeout (lb_nat st1) = nt_timeout (lb_nat st)"
    using opened [OF inv pool(1) m1(1,3,2) run1 room] by metis
  let ?f = "slot (lb_nat st1) i"
  have f: "live ?f" "last_seen_ms ?f = t0" "fwd_key ?f = meta_key m1" "client_mac ?f = meta_client_mac m1"
    by (simp_all add: i(4) placed_def live_def)
  have adr: "addressed m ?f = (if meta_dir m = kForward then meta_key m = meta_key m1
      else meta_src_ip m = ip_value (meta_backend_ip m1') \<and> meta_src_port m = meta_backend_port m1'
        \<and> meta_dst_port m = meta_snat_port m1' \<and> meta_proto m = meta_proto m1)" for m
    using f(3) by (auto simp: i(5) addressed_def rev_match_def fwd_meta_def meta_key_def)
  have calm: "\<forall>e \<in> set es. calm ?f e \<and> pool_follows A (fst (snd e))" using others by (simp add: calm_def adr)
  have srt: "sorted ((last_seen_ms ?f - t0) # map (\<lambda>e. snd (snd e) - t0) es @ [now2 - t0])" using times(1) f(2) by simp
  have tm: "now2 - t0 \<le> nt_timeout (lb_nat st1)" using times(2) i(6) by simp
  obtain st2 where st2: "lb_run I st1 es = Inr st2" "lb_inv I P st2"
      "nt_timeout (lb_nat st2) = nt_timeout (lb_nat st1)" "i < length (nt_slots (lb_nat st2))"
      "live (slot (lb_nat st2) i)" "core (slot (lb_nat st2) i) = core ?f"
      "last_seen_ms (slot (lb_nat st2) i) - t0 \<le> now2 - t0"
    using run_bound [OF i(3,1) f(1) refl srt tm] calm by blast
  have ok1: "addr_ok A (lb_nat st1)" by (rule HandlePacket_addr [OF inv pool run1 A(1)])
  have ok2: "addr_ok A (lb_nat st2)" and ix2: "indexed I (lb_nat st2) i"
    using run_indexed [OF i(3,1) f(1) refl srt tm calm ok1 i(2) st2(1)] by auto
  let ?g = "slot (lb_nat st2) i"
  have m: "rev_match (meta_src_ip m2) (meta_src_port m2) (meta_dst_port m2) (meta_proto m2) ?g"
    using st2(6) m2 f(3) by (auto simp: rev_match_def core_def i(5) fwd_meta_def meta_key_def)
  have ne: "\<not> Expired (lb_nat st2) ?g now2" using window_not_Expired [OF st2(5,7)] tm st2(3) by simp
  obtain t3 r where look: "LookupReverse I (lb_nat st2) (meta_src_ip m2) (meta_src_port m2)
      (meta_dst_port m2) (meta_proto m2) now2 = (t3, r)" by fastforce
  have "snd (LookupReverse I (lb_nat st2) (meta_src_ip m2) (meta_src_port m2)
      (meta_dst_port m2) (meta_proto m2) now2) = Some i"
  proof (rule LookupReverse_indexed [OF lb_invD(2) [OF st2(2)] ix2])
    show "rev_hit (lb_nat st2) (meta_src_ip m2) (meta_src_port m2) (meta_dst_port m2) (meta_proto m2) now2 i"
      using m ne st2(5) by (simp add: rev_hit_def live_def)
    fix j
    assume "j < length (nt_slots (lb_nat st2))"
      "rev_hit (lb_nat st2) (meta_src_ip m2) (meta_src_port m2) (meta_dst_port m2) (meta_proto m2) now2 j"
    then show "j = i"
      by (intro rev_key_unique [OF st2(2) P ok2 A(2) st2(4,5) m]) (auto simp: rev_hit_def live_def Expired_def)
  qed
  with look have r: "r = Some i" by simp
  have "slot t3 i = ?g\<lparr>last_seen_ms := now2\<rparr>"
    using LookupReverse_spec(4) [OF lb_invD(2) [OF st2(2)] look r] .
  then have "\<exists>st3. HandlePacket I st2 m2 pool2 now2 = Inr (st3, rev_meta m2 ?g, True)"
    using look r m2(1) by (simp add: HandlePacket_def rev_meta_def)
  with st2(1,6) f(3,4) m2(1) show ?thesis by (auto simp: rev_meta_def core_def meta_key_def)
qed

text \<open>
  C10. Replies reach the client that opened the connection. A forward packet opens a
  connection at \<open>t0\<close> while the reverse index has an empty cell; then any packets follow in
  time order within the timeout, with pools that keep the backends' addresses (distinct per
  slot), where none addressed to this connection has FIN or RST; then a packet comes from the
  chosen backend to the chosen source port: it is let through, and carries the address, port
  and MAC of that client.
\<close>

theorem reply_reaches_client:
  assumes inv: "lb_inv I P st" and P: "\<And>p. count P p \<le> 1"
    and A: "addr_ok A (lb_nat st)" "inj_on A {..<kMaxBackends}"
    and pool: "usable_pool pool" "pool_follows A pool"
    and m1: "meta_dir m1 = kForward" "harmless (meta_tcp_flags m1)" "conn (lb_nat st) t0 (meta_key m1) = None"
    and room: "0 \<in> set (nt_rev (lb_nat st))"
    and run1: "HandlePacket I st m1 pool t0 = Inr (st1, m1', True)"
    and times: "sorted (map (\<lambda>e. snd (snd e) - t0) es @ [now2 - t0])" "now2 - t0 \<le> nt_timeout (lb_nat st)"
    and others: "\<forall>e \<in> set es. usable_pool (fst (snd e)) \<and> pool_follows A (fst (snd e))
      \<and> ((if meta_dir (fst e) = kForward then meta_key (fst e) = meta_key m1
          else meta_src_ip (fst e) = ip_value (meta_backend_ip m1') \<and> meta_src_port (fst e) = meta_backend_port m1'
            \<and> meta_dst_port (fst e) = meta_snat_port m1' \<and> meta_proto (fst e) = meta_proto m1)
         \<longrightarrow> harmless (meta_tcp_flags (fst e)))"
    and m2: "meta_dir m2 = kReverse" "meta_src_ip m2 = ip_value (meta_backend_ip m1')"
      "meta_src_port m2 = meta_backend_port m1'" "meta_dst_port m2 = meta_snat_port m1'" "meta_proto m2 = meta_proto m1"
  shows "\<exists>st2 st3 m2'. lb_run I st1 es = Inr st2 \<and> HandlePacket I st2 m2 pool2 now2 = Inr (st3, m2', True)
    \<and> meta_client_ip m2' = \<lparr>ip_value = meta_src_ip m1\<rparr> \<and> meta_client_port m2' = meta_src_port m1
    \<and> meta_client_mac m2' = meta_client_mac m1"
  using reply_conn [OF assms] by blast

section \<open>Running out of ports\<close>

definition all_expired :: "NatTable \<Rightarrow> u32 \<Rightarrow> bool" where
  "all_expired t now \<longleftrightarrow> (\<forall>f \<in> set (nt_slots t). occupied f \<longrightarrow> Expired t f now)"

definition starved :: "LbNode \<Rightarrow> BackendPool \<Rightarrow> bool" where
  "starved st pool \<longleftrightarrow> (\<forall>b \<in> set (bp_active pool). free_ports (lb_pools st ! unat b) = [])"

lemma all_expired_spared:
  assumes q: "quiet t t'" and sp: "\<And>i. i < length (nt_slots t) \<Longrightarrow> spared t t' now i" and ex: "all_expired t n"
  shows "all_expired t' n"
  unfolding all_expired_def
proof (intro ballI impI)
  fix f
  assume "f \<in> set (nt_slots t')" "occupied f"
  then obtain i where i: "i < length (nt_slots t)" "f = slot t' i"
    using q unfolding in_set_conv_nth quiet_def by metis
  have to: "nt_timeout t' = nt_timeout t" using q by (simp add: quiet_def)
  have "occupied (slot t i)" using quiet_fields [OF q i(1)] i(2) \<open>occupied f\<close> by simp
  then have "Expired t (slot t i) n" using ex i(1) by (simp add: all_expired_def)
  with sp [OF i(1)] show "Expired t' f n"
    by (auto simp: spared_def i(2) Expired_cong [OF to] Expired_reaped_iff)
qed

lemma starved_step:
  assumes inv: "lb_inv I P st" and pool: "usable_pool pool" and st: "starved st pool"
    and ex: "all_expired (lb_nat st) now"
  obtains st' where "HandlePacket I st m pool now = Inr (st', m, False)" "lb_pools st' = lb_pools st"
    "lb_inv I P st'" "\<And>n. all_expired (lb_nat st) n \<Longrightarrow> all_expired (lb_nat st') n"
proof (cases "meta_dir m")
  case kForward
  obtain t1 r where look: "LookupForward I (lb_nat st) (meta_key m) now = (t1, r)" by fastforce
  note sp = LookupForward_spec [OF lb_invD(2) [OF inv] look]
  have c: "conn (lb_nat st) now (meta_key m) = None"
    using ex by (auto simp: conn_def find_None_iff all_expired_def)
  have "r = None" using LookupForward_conn [OF lb_invD(1) [OF inv] look] c by auto
  then have sp': "\<And>i. i < length (nt_slots (lb_nat st)) \<Longrightarrow> spared (lb_nat st) t1 now i" using sp(5) by blast
  have "bp_active pool ! (unat (Hash I (meta_key m)) mod length (bp_active pool)) \<in> set (bp_active pool)"
    using pool by (simp add: usable_pool_def)
  then have "free_ports (lb_pools st ! picked I pool (meta_key m)) = []"
    using st unfolding starved_def picked_def by blast
  with forward_miss [OF inv pool kForward c]
  have "HandlePacket I st m pool now = Inr (st\<lparr>lb_nat := t1\<rparr>, m, False)" by (auto simp: look)
  then show ?thesis
    using that [of "st\<lparr>lb_nat := t1\<rparr>"] LookupForward_served(1) [OF inv look]
      all_expired_spared [OF sp(3) sp'] by simp
next
  case kReverse
  obtain t1 r where look: "LookupReverse I (lb_nat st) (meta_src_ip m) (meta_src_port m)
      (meta_dst_port m) (meta_proto m) now = (t1, r)" by fastforce
  note sp = LookupReverse_spec [OF lb_invD(2) [OF inv] look]
  have r: "r = None"
  proof (cases r)
    case (Some i)
    from LookupReverse_hit [OF lb_invD(2) [OF inv] look [unfolded Some]] ex show ?thesis
      by (auto simp: rev_hit_def all_expired_def)
  qed
  then have sp': "\<And>i. i < length (nt_slots (lb_nat st)) \<Longrightarrow> spared (lb_nat st) t1 now i" using sp(5) by blast
  have "HandlePacket I st m pool now = Inr (st\<lparr>lb_nat := t1\<rparr>, m, False)"
    using look r kReverse by (simp add: HandlePacket_def)
  then show ?thesis
    using that [of "st\<lparr>lb_nat := t1\<rparr>"] LookupReverse_served(1) [OF inv look]
      all_expired_spared [OF sp(3) sp'] by simp
qed

lemma starved_run:
  assumes "lb_inv I P st" and "\<forall>e \<in> set es. usable_pool (fst (snd e)) \<and> starved st (fst (snd e))
      \<and> all_expired (lb_nat st) (snd (snd e))"
  shows "\<exists>st'. lb_run I st es = Inr st' \<and> lb_pools st' = lb_pools st \<and> lb_inv I P st'
    \<and> (\<forall>n. all_expired (lb_nat st) n \<longrightarrow> all_expired (lb_nat st') n)"
  using assms
proof (induction es arbitrary: st)
  case Nil
  then show ?case by simp
next
  case (Cons e es)
  have "usable_pool (fst (snd e))" "starved st (fst (snd e))" "all_expired (lb_nat st) (snd (snd e))"
    using Cons.prems(2) by auto
  from starved_step [OF Cons.prems(1) this, of "fst e"]
  obtain st1 where h: "HandlePacket I st (fst e) (fst (snd e)) (snd (snd e)) = Inr (st1, fst e, False)"
    "lb_pools st1 = lb_pools st" "lb_inv I P st1"
    "\<And>n. all_expired (lb_nat st) n \<Longrightarrow> all_expired (lb_nat st1) n" by metis
  have "\<forall>e \<in> set es. usable_pool (fst (snd e)) \<and> starved st1 (fst (snd e)) \<and> all_expired (lb_nat st1) (snd (snd e))"
    using Cons.prems(2) h(2,4) by (simp add: starved_def)
  from Cons.IH [OF h(3) this] h show ?case by auto
qed

text \<open>
  C36. Ports are not recycled by the timeout. When no enabled backend has a free port, and all
  flows have timed out, the node refuses every packet, whatever packets come before it and
  however many slots of the table could be reused: a flow's port returns only when its slot is
  evicted, and the eviction is only reached after a port was acquired.
\<close>

theorem port_exhaustion_permanent:
  assumes inv: "lb_inv I P st"
    and es: "\<forall>e \<in> set (es @ [(m, pool, now)]). usable_pool (fst (snd e)) \<and> starved st (fst (snd e))
      \<and> all_expired (lb_nat st) (snd (snd e))"
  shows "\<exists>st2 st3. lb_run I st es = Inr st2 \<and> HandlePacket I st2 m pool now = Inr (st3, m, False)
    \<and> lb_pools st3 = lb_pools st"
proof -
  obtain st2 where st2: "lb_run I st es = Inr st2" "lb_pools st2 = lb_pools st" "lb_inv I P st2"
    "\<forall>n. all_expired (lb_nat st) n \<longrightarrow> all_expired (lb_nat st2) n"
    using starved_run [OF inv, of es] es by auto
  have "usable_pool pool" "starved st2 pool" "all_expired (lb_nat st2) now"
    using es st2(2,4) by (auto simp: starved_def)
  from starved_step [OF st2(3) this] obtain st3 where
    "HandlePacket I st2 m pool now = Inr (st3, m, False)" "lb_pools st3 = lb_pools st2" by metis
  with st2 show ?thesis by auto
qed

section \<open>Witnesses\<close>

definition ex_node1 :: LbNode where
  "ex_node1 = \<lparr>lb_nat = ex_table, lb_pools = replicate kMaxBackends \<lparr>free_ports = [50000]\<rparr>,
     lb_stats = LcoreStats_zero\<rparr>"

lemma ex_node1_inv: "lb_inv I {#50000#} ex_node1"
proof -
  have "nt_slots ex_table = replicate 4 NatFlow_default" by (simp add: ex_table_def NatTable_new_def)
  moreover have "ledger ex_node1 b = {#50000#}" if "b < kMaxBackends" for b
    using that calculation by (simp add: ledger_def ex_node1_def held_ports_default)
  ultimately show ?thesis
    using ex_table_inv by (simp add: lb_inv_def ex_node1_def flow_ok_def NatFlow_default_def)
qed

definition ex_addr :: "nat \<Rightarrow> u32 \<times> u16" where
  "ex_addr b = (0x0A000101 + of_nat b, 8080)"

lemma ex_addr_inj: "inj_on ex_addr {..<kMaxBackends}"
proof (rule inj_onI)
  fix x y
  assume "x \<in> {..<kMaxBackends}" "y \<in> {..<kMaxBackends}" "ex_addr x = ex_addr y"
  then have "x < 64" "y < 64" "(of_nat x :: u32) = of_nat y" by (simp_all add: ex_addr_def kMaxBackends_def)
  then show "x = y" by (simp add: word_unat_eq_iff unsigned_of_nat take_bit_nat_eq_self)
qed

lemma ex_pool_follows: "pool_follows ex_addr (ex_pool act)"
  by (auto simp: pool_follows_def ex_pool_def ex_addr_def less_Suc_eq)

definition ex_reply :: PacketMeta where
  "ex_reply = (ex_meta 8080 16)\<lparr>meta_src_ip := 0x0A000102, meta_dst_ip := 0x0A0000FE, meta_dst_port := 50000,
     meta_dir := kReverse\<rparr>"

theorem reply_reaches_client_witness:
  "\<exists>st1 m1' st2 st3 m2'. HandlePacket Generic ex_node (ex_meta 40000 2) (ex_pool [1]) 5 = Inr (st1, m1', True)
    \<and> lb_run Generic st1 [(ex_meta 40001 2, ex_pool [0], 7)] = Inr st2
    \<and> HandlePacket Generic st2 ex_reply (ex_pool [0]) 905 = Inr (st3, m2', True)
    \<and> meta_client_ip m2' = \<lparr>ip_value = 0xC0A80005\<rparr> \<and> meta_client_port m2' = 40000"
proof -
  let ?m1' = "new_meta Generic ex_node (ex_meta 40000 2) (ex_pool [1])"
  obtain st1 where run: "HandlePacket Generic ex_node (ex_meta 40000 2) (ex_pool [1]) 5 = Inr (st1, ?m1', True)"
    by (rule ex_opened)
  have bp: "meta_backend_port ?m1' = 8080"
    by (simp add: new_meta_def Let_def picked_one) (simp add: ex_pool_def)
  have up: "usable_pool (ex_pool [0])" "usable_pool (ex_pool [1])" by (auto intro: ex_pool_usable)
  have "\<exists>st2 st3 m2'. lb_run Generic st1 [(ex_meta 40001 2, ex_pool [0], 7)] = Inr st2
    \<and> HandlePacket Generic st2 ex_reply (ex_pool [0]) 905 = Inr (st3, m2', True)
    \<and> meta_client_ip m2' = \<lparr>ip_value = meta_src_ip (ex_meta 40000 2)\<rparr> \<and> meta_client_port m2' = meta_src_port (ex_meta 40000 2)
    \<and> meta_client_mac m2' = meta_client_mac (ex_meta 40000 2)"
  proof (rule reply_reaches_client [OF ex_node_inv _ _ ex_addr_inj up(2) ex_pool_follows ex_open(1) ex_harmless ex_node_conn _ run])
    show "count {#50000, 50001#} p \<le> 1" for p :: u16 by simp
    show "addr_ok ex_addr (lb_nat ex_node)"
      by (simp add: addr_ok_def ex_node_def ex_table_def NatTable_new_def NatFlow_default_def live_def)
    show "0 \<in> set (nt_rev (lb_nat ex_node))" by (simp add: ex_node_def ex_table_def NatTable_new_def)
    show "905 - 5 \<le> nt_timeout (lb_nat ex_node)" by (simp add: ex_node_def ex_table_def NatTable_new_def)
  qed (simp_all add: up ex_pool_follows ex_reply_def ex_meta_def harmless_def kTcpFin_def kTcpRst_def meta_key_def
      ex_new_meta(1) [unfolded ex_meta_def] ex_new_meta(2) bp [unfolded ex_meta_def])
  with run show ?thesis by (auto simp: ex_meta_def)
qed

lemma sole_port_taken:
  assumes inv: "lb_inv I {#p#} st" and i: "i < length (nt_slots (lb_nat st))" "live (slot (lb_nat st) i)"
  shows "free_ports (lb_pools st ! unat (backend_idx (slot (lb_nat st) i))) = []"
proof -
  let ?f = "slot (lb_nat st) i"
  let ?b = "unat (backend_idx ?f)"
  have fo: "snat_port ?f \<noteq> 0" "?b < kMaxBackends"
    using flow_okD_live [OF lb_invD(4) [OF inv i(1)] i(2)] by auto
  have "?f \<in> set (filter (holds ?b) (nt_slots (lb_nat st)))" using i fo by (simp add: holds_def live_def)
  then have "held_ports ?b (nt_slots (lb_nat st)) \<noteq> {#}" by (auto simp: held_ports_def)
  moreover have "mset (free_ports (lb_pools st ! ?b)) + held_ports ?b (nt_slots (lb_nat st)) = {#p#}"
    using lb_invD(5) [OF inv fo(2)] by (simp add: ledger_def)
  ultimately show ?thesis by (auto simp: union_is_single)
qed

lemma NatFlow_default_not_live: "\<not> live NatFlow_default"
  by (simp add: live_def NatFlow_default_def)

lemma ex_starved:
  obtains st1 where "lb_inv Generic {#50000#} st1" "starved st1 (ex_pool [1])" "all_expired (lb_nat st1) 3000"
    "nt_slots (lb_nat st1) \<noteq> replicate 4 NatFlow_default"
proof -
  have slots: "nt_slots (lb_nat ex_node1) = replicate 4 NatFlow_default"
    by (simp add: ex_node1_def ex_table_def NatTable_new_def)
  have c: "conn (lb_nat ex_node1) 5 key = None" for key
    by (auto simp: conn_def find_None_iff slots NatFlow_default_def)
  have up: "usable_pool (ex_pool [1])" by (rule ex_pool_usable) simp_all
  have "\<exists>i < length (nt_slots (lb_nat ex_node1)). usable (lb_nat ex_node1) 5 i"
    by (rule exI [of _ 0]) (simp add: slots usable_def NatFlow_default_def)
  moreover have "free_ports (lb_pools ex_node1 ! 1) \<noteq> []" by (simp add: ex_node1_def kMaxBackends_def)
  moreover have "may_open (ex_meta 40000 2)" by (simp add: may_open_def ex_open)
  moreover note forward_miss [OF ex_node1_inv [of Generic] up ex_open(1) c, of 40000 2]
  ultimately have "\<exists>st1 m1. HandlePacket Generic ex_node1 (ex_meta 40000 2) (ex_pool [1]) 5 = Inr (st1, m1, True)"
    by (auto simp: picked_one)
  then obtain st1 m1 where o: "HandlePacket Generic ex_node1 (ex_meta 40000 2) (ex_pool [1]) 5 = Inr (st1, m1, True)"
    by blast
  have room: "0 \<in> set (nt_rev (lb_nat ex_node1))" by (simp add: ex_node1_def ex_table_def NatTable_new_def)
  obtain i p idx where i: "i < length (nt_slots (lb_nat st1))" "lb_inv Generic {#50000#} st1"
    "slot (lb_nat st1) i = placed (new_flow (ex_meta 40000 2) (meta_key (ex_meta 40000 2)) (bp_slots (ex_pool [1]) ! unat idx) p idx) 5"
    "nt_timeout (lb_nat st1) = nt_timeout (lb_nat ex_node1)"
    "\<And>j. j < length (nt_slots (lb_nat st1)) \<Longrightarrow> j \<noteq> i \<Longrightarrow> spared (lb_nat ex_node1) (lb_nat st1) 5 j"
    "length (nt_slots (lb_nat st1)) = length (nt_slots (lb_nat ex_node1))"
    "unat idx = picked Generic (ex_pool [1]) (meta_key (ex_meta 40000 2))"
    using opened [OF ex_node1_inv up ex_open(1) c ex_harmless o room] by metis
  have lv: "live (slot (lb_nat st1) i)" by (simp add: i(3) placed_def live_def)
  have idx: "backend_idx (slot (lb_nat st1) i) = idx" "unat idx = 1"
    using i(7) by (simp_all add: i(3) placed_def picked_one)
  have st: "starved st1 (ex_pool [1])"
    using sole_port_taken [OF i(2,1) lv] idx by (simp add: starved_def) (simp add: ex_pool_def)
  have other: "\<not> occupied (slot (lb_nat st1) j)" if "j < length (nt_slots (lb_nat st1))" "j \<noteq> i" for j
    using i(5) [OF that] that i(6) by (auto simp: spared_def slots Expired_def NatFlow_default_def)
  have "Expired (lb_nat st1) (slot (lb_nat st1) i) 3000"
    using i(4) by (simp add: i(3) Expired_def placed_def) (simp add: ex_node1_def ex_table_def NatTable_new_def)
  with other have "all_expired (lb_nat st1) 3000"
    unfolding all_expired_def all_set_conv_all_nth by metis
  with that i(2) st lv i(1) show thesis by (metis live_def nth_replicate length_replicate NatFlow_default_not_live)
qed

theorem port_exhaustion_permanent_witness:
  "\<exists>st1 st2 st3. nt_slots (lb_nat st1) \<noteq> replicate 4 NatFlow_default
    \<and> lb_run Generic st1 [(ex_meta 40001 2, ex_pool [1], 3000)] = Inr st2
    \<and> HandlePacket Generic st2 (ex_meta 40000 2) (ex_pool [1]) 3000 = Inr (st3, ex_meta 40000 2, False)"
proof -
  obtain st1 where st1: "lb_inv Generic {#50000#} st1" "starved st1 (ex_pool [1])" "all_expired (lb_nat st1) 3000"
    "nt_slots (lb_nat st1) \<noteq> replicate 4 NatFlow_default" by (rule ex_starved)
  have "usable_pool (ex_pool [1])" by (rule ex_pool_usable) simp_all
  then have "\<exists>st2 st3. lb_run Generic st1 [(ex_meta 40001 2, ex_pool [1], 3000)] = Inr st2
    \<and> HandlePacket Generic st2 (ex_meta 40000 2) (ex_pool [1]) 3000 = Inr (st3, ex_meta 40000 2, False)
    \<and> lb_pools st3 = lb_pools st1"
    using st1 by (intro port_exhaustion_permanent [OF st1(1)]) simp
  with st1(4) show ?thesis by blast
qed

end
