(* ===== verification/Nat_Roundtrip.thy ===== *)
theory Nat_Roundtrip
  imports Lb_Reply Packet_Nodes
begin

text \<open>
  The packet path end to end: parsing, load balancing, rewriting and the Ethernet rewrite, for
  a client's packet and for the backend's answer; and the steering of the answer to the worker
  that holds the connection.
\<close>

text \<open>What is documented of \<open>rte_ipv4_hdr_len\<close> and used here: it reads the first header byte.\<close>

definition hdr_len_local :: "dpdk \<Rightarrow> bool" where
  "hdr_len_local D \<longleftrightarrow> (\<forall>d d'. d L3 = d' L3 \<longrightarrow> ipv4_hdr_len D d L3 = ipv4_hdr_len D d' L3)"

definition l4_of :: "dpdk \<Rightarrow> bytes \<Rightarrow> nat" where
  "l4_of D d = L3 + ipv4_hdr_len D d L3"

text \<open>The two rewriting stages.\<close>

definition send_out :: "dpdk \<Rightarrow> Config \<Rightarrow> mbuf \<Rightarrow> PacketMeta \<Rightarrow> mbuf" where
  "send_out D cfg mb m = EtherRewrite cfg (Rewrite D cfg (mb\<lparr>mb_meta := m\<rparr>))"

lemma Classify_fwd:
  assumes "Classify D cfg mb = (mb', kNextFwd)"
  shows "mb_data mb' = mb_data mb" and "mb_id mb' = mb_id mb"
    and "meta_dir (mb_meta mb') = kForward"
    and "meta_src_ip (mb_meta mb') = rd32 (mb_data mb) IP_SRC"
    and "meta_src_port (mb_meta mb') = rd16 (mb_data mb) (l4_of D (mb_data mb))"
    and "meta_proto (mb_meta mb') = mb_data mb IP_PROTO"
    and "meta_client_mac (mb_meta mb') = \<lparr>mac_bytes = rd_bytes (mb_data mb) ETH_SRC 6\<rparr>"
  using assms
  by (auto simp: Classify_def ClassifyIpv4_def Let_def ReadPorts_def l4_of_def kNextFwd_def kNextRev_def
      kNextDrop_ip_def kNextArp_ip_def split: if_splits)

lemma Classify_rev:
  assumes "rd16 (mb_data mb) ETH_TYPE = RTE_ETHER_TYPE_IPV4" and "mb_data mb IP_PROTO \<in> {IPPROTO_TCP, IPPROTO_UDP}"
    and "rd32 (mb_data mb) IP_DST = ip_value (self_ip cfg)" and "vip cfg \<noteq> self_ip cfg"
  obtains mb' where "Classify D cfg mb = (mb', kNextRev)" "mb_data mb' = mb_data mb" "mb_id mb' = mb_id mb"
    "meta_dir (mb_meta mb') = kReverse" "meta_src_ip (mb_meta mb') = rd32 (mb_data mb) IP_SRC"
    "meta_src_port (mb_meta mb') = rd16 (mb_data mb) (l4_of D (mb_data mb))"
    "meta_dst_port (mb_meta mb') = rd16 (mb_data mb) (l4_of D (mb_data mb) + 2)"
    "meta_proto (mb_meta mb') = mb_data mb IP_PROTO"
proof -
  have "ip_value (self_ip cfg) \<noteq> ip_value (vip cfg)" using assms(4) by auto
  with assms(1-3) that show thesis
    by (auto simp: Classify_def ClassifyIpv4_def Let_def ReadPorts_def l4_of_def RTE_ETHER_TYPE_ARP_def
        RTE_ETHER_TYPE_IPV4_def)
qed

lemma send_out_fields:
  assumes D: "hdr_len_local D" and hl: "20 \<le> ipv4_hdr_len D (mb_data mb) L3"
    and mac: "MacAddr_ok (self_mac cfg)"
      "MacAddr_ok (if meta_dir m = kForward then meta_backend_mac m else meta_client_mac m)"
  shows "l4_of D (mb_data (send_out D cfg mb m)) = l4_of D (mb_data mb)"
    and "rd32 (mb_data (send_out D cfg mb m)) IP_SRC =
      (if meta_dir m = kForward then ip_value (self_ip cfg) else ip_value (vip cfg))"
    and "rd32 (mb_data (send_out D cfg mb m)) IP_DST =
      (if meta_dir m = kForward then ip_value (meta_backend_ip m) else ip_value (meta_client_ip m))"
    and "rd16 (mb_data (send_out D cfg mb m)) (l4_of D (mb_data mb)) =
      (if meta_dir m = kForward then meta_snat_port m else vip_port cfg)"
    and "rd16 (mb_data (send_out D cfg mb m)) (l4_of D (mb_data mb) + 2) =
      (if meta_dir m = kForward then meta_backend_port m else meta_client_port m)"
    and "rd_bytes (mb_data (send_out D cfg mb m)) ETH_DST 6 =
      mac_bytes (if meta_dir m = kForward then meta_backend_mac m else meta_client_mac m)"
    and "mb_data (send_out D cfg mb m) IP_PROTO = mb_data mb IP_PROTO"
    and "rd16 (mb_data (send_out D cfg mb m)) ETH_TYPE = rd16 (mb_data mb) ETH_TYPE"
    and "rd_bytes (mb_data (send_out D cfg mb m)) ETH_SRC 6 = mac_bytes (self_mac cfg)"
proof -
  let ?r = "Rewrite D cfg (mb\<lparr>mb_meta := m\<rparr>)"
  let ?mac = "if meta_dir m = kForward then meta_backend_mac m else meta_client_mac m"
  have er: "rd_bytes (mb_data (EtherRewrite cfg ?r)) ETH_DST 6 = mac_bytes ?mac"
    "rd_bytes (mb_data (EtherRewrite cfg ?r)) ETH_SRC 6 = mac_bytes (self_mac cfg)"
    "\<And>x. ETH_TYPE \<le> x \<Longrightarrow> mb_data (EtherRewrite cfg ?r) x = mb_data ?r x"
    using EtherRewrite_data [OF mac, of ?r] by simp_all
  have up: "mb_data (send_out D cfg mb m) x = mb_data ?r x" if "ETH_TYPE \<le> x" for x
    using er(3) that by (simp add: send_out_def)
  have l4: "L3 + 20 \<le> l4_of D (mb_data mb)" using hl by (simp add: l4_of_def)
  note hf = header_fields [OF l4]
  let ?a = "if meta_dir m = kForward then ip_value (self_ip cfg) else ip_value (vip cfg)"
  let ?b = "if meta_dir m = kForward then ip_value (meta_backend_ip m) else ip_value (meta_client_ip m)"
  let ?s = "if meta_dir m = kForward then meta_snat_port m else vip_port cfg"
  let ?t = "if meta_dir m = kForward then meta_backend_port m else meta_client_port m"
  have r: "mb_data ?r = FixChecksums D (SetPorts (wr32 (wr32 (mb_data mb) IP_SRC ?a) IP_DST ?b)
      (l4_of D (mb_data mb)) (meta_proto m) ?s ?t) (meta_proto m) (l4_of D (mb_data mb))"
    by (simp add: Rewrite_def Let_def l4_of_def)
  have keep: "mb_data (send_out D cfg mb m) x = mb_data mb x" if "ETH_TYPE \<le> x" "x < IP_CKSUM" for x
  proof -
    have "x \<notin> touched (l4_of D (mb_data mb)) (meta_proto m)" using that l4 by (auto simp: touched_def offsets)
    then have "mb_data ?r x = mb_data mb x" unfolding r by (rule hf(5))
    with up [of x] that show ?thesis by (simp add: offsets)
  qed
  show "l4_of D (mb_data (send_out D cfg mb m)) = l4_of D (mb_data mb)"
  proof -
    have "mb_data (send_out D cfg mb m) L3 = mb_data mb L3" by (rule keep) (simp_all add: offsets)
    then have "ipv4_hdr_len D (mb_data (send_out D cfg mb m)) L3 = ipv4_hdr_len D (mb_data mb) L3"
      using D unfolding hdr_len_local_def by blast
    then show ?thesis by (simp add: l4_of_def)
  qed
  show "mb_data (send_out D cfg mb m) IP_PROTO = mb_data mb IP_PROTO" by (rule keep) (simp_all add: offsets)
  have "rd32 (mb_data (send_out D cfg mb m)) IP_SRC = rd32 (mb_data ?r) IP_SRC"
    by (intro rd32_cong up) (simp add: offsets)
  then show "rd32 (mb_data (send_out D cfg mb m)) IP_SRC = ?a" by (simp add: r hf(1))
  have "rd32 (mb_data (send_out D cfg mb m)) IP_DST = rd32 (mb_data ?r) IP_DST"
    by (intro rd32_cong up) (simp add: offsets)
  then show "rd32 (mb_data (send_out D cfg mb m)) IP_DST = ?b" by (simp add: r hf(2))
  have "rd16 (mb_data (send_out D cfg mb m)) (l4_of D (mb_data mb)) = rd16 (mb_data ?r) (l4_of D (mb_data mb))"
    using l4 by (intro rd16_cong up) (simp_all add: offsets)
  then show "rd16 (mb_data (send_out D cfg mb m)) (l4_of D (mb_data mb)) = ?s" by (simp add: r hf(3))
  have "rd16 (mb_data (send_out D cfg mb m)) (l4_of D (mb_data mb) + 2) = rd16 (mb_data ?r) (l4_of D (mb_data mb) + 2)"
    using l4 by (intro rd16_cong up) (simp_all add: offsets)
  then show "rd16 (mb_data (send_out D cfg mb m)) (l4_of D (mb_data mb) + 2) = ?t" by (simp only: r hf(4))
  show "rd_bytes (mb_data (send_out D cfg mb m)) ETH_DST 6 = mac_bytes ?mac" using er(1) by (simp add: send_out_def)
  show "rd16 (mb_data (send_out D cfg mb m)) ETH_TYPE = rd16 (mb_data mb) ETH_TYPE"
    by (intro rd16_cong keep) (simp_all add: offsets)
  show "rd_bytes (mb_data (send_out D cfg mb m)) ETH_SRC 6 = mac_bytes (self_mac cfg)" using er(2) by (simp add: send_out_def)
qed

section \<open>Round trip\<close>

text \<open>
  C8. The service is transparent to a client. A client's packet without FIN and RST, with an IPv4 header of at least 20 bytes, opens a connection
  while the reverse index has an empty cell, and leaves towards the chosen backend: from the balancer's address (which is not the virtual one) and the connection's port, to the
  backend. Then any traffic follows, in time order and within the timeout, with pools that keep the backends' addresses, distinct per slot, in
  which no packet of this connection, from either side, has FIN or RST. Then the backend's answer to that
  packet (to the address and port it came from, with the same protocol, and again a header of at least 20 bytes) is recognised and
  leaves towards the client's MAC, address and port, as coming from the virtual address and
  port.
\<close>

theorem nat_roundtrip:
  assumes D: "hdr_len_local D" and vs: "vip cfg \<noteq> self_ip cfg" and mac: "MacAddr_ok (self_mac cfg)"
    and inv: "lb_inv I P st" "\<And>p. count P p \<le> 1" "addr_ok A (lb_nat st)" "inj_on A {..<kMaxBackends}"
    and pool: "usable_pool pool" "pool_follows A pool"
    and c1: "Classify D cfg mb1 = (mb1', kNextFwd)" and hl1: "20 \<le> ipv4_hdr_len D (mb_data mb1) L3"
    and new: "harmless (meta_tcp_flags (mb_meta mb1'))" "conn (lb_nat st) t0 (meta_key (mb_meta mb1')) = None"
      "0 \<in> set (nt_rev (lb_nat st))"
    and h1: "HandlePacket I st (mb_meta mb1') pool t0 = Inr (st1, m1, True)" and bm: "MacAddr_ok (meta_backend_mac m1)"
    and times: "sorted (map (\<lambda>e. snd (snd e) - t0) es @ [now2 - t0])" "now2 - t0 \<le> nt_timeout (lb_nat st)"
    and others: "\<forall>e \<in> set es. usable_pool (fst (snd e)) \<and> pool_follows A (fst (snd e))
      \<and> ((if meta_dir (fst e) = kForward then meta_key (fst e) = meta_key (mb_meta mb1')
          else meta_src_ip (fst e) = ip_value (meta_backend_ip m1) \<and> meta_src_port (fst e) = meta_backend_port m1
            \<and> meta_dst_port (fst e) = meta_snat_port m1 \<and> meta_proto (fst e) = meta_proto (mb_meta mb1'))
         \<longrightarrow> harmless (meta_tcp_flags (fst e)))"
    and out1: "out1 = send_out D cfg mb1' m1"
    and ans: "rd16 (mb_data mb2) ETH_TYPE = RTE_ETHER_TYPE_IPV4" "mb_data mb2 IP_PROTO = mb_data out1 IP_PROTO"
      "mb_data mb2 IP_PROTO \<in> {IPPROTO_TCP, IPPROTO_UDP}"
      "rd32 (mb_data mb2) IP_SRC = rd32 (mb_data out1) IP_DST" "rd32 (mb_data mb2) IP_DST = rd32 (mb_data out1) IP_SRC"
      "rd16 (mb_data mb2) (l4_of D (mb_data mb2)) = rd16 (mb_data out1) (l4_of D (mb_data out1) + 2)"
      "rd16 (mb_data mb2) (l4_of D (mb_data mb2) + 2) = rd16 (mb_data out1) (l4_of D (mb_data out1))"
    and hl2: "20 \<le> ipv4_hdr_len D (mb_data mb2) L3"
  shows "rd32 (mb_data out1) IP_SRC = ip_value (self_ip cfg) \<and> rd32 (mb_data out1) IP_DST = ip_value (meta_backend_ip m1)
    \<and> (\<exists>mb2' st2 st3 m2. Classify D cfg mb2 = (mb2', kNextRev) \<and> lb_run I st1 es = Inr st2
        \<and> HandlePacket I st2 (mb_meta mb2') pool2 now2 = Inr (st3, m2, True)
        \<and> (let d = mb_data (send_out D cfg mb2' m2) in
             rd32 d IP_SRC = ip_value (vip cfg) \<and> rd32 d IP_DST = rd32 (mb_data mb1) IP_SRC
             \<and> rd16 d (l4_of D d) = vip_port cfg \<and> rd16 d (l4_of D d + 2) = rd16 (mb_data mb1) (l4_of D (mb_data mb1))
             \<and> rd_bytes d ETH_DST 6 = rd_bytes (mb_data mb1) ETH_SRC 6))"
proof -
  let ?m = "mb_meta mb1'"
  note f1 = Classify_fwd [OF c1]
  obtain i where m1: "m1 = fwd_meta ?m (slot (lb_nat st1) i)"
    using forward_accepted [OF inv(1) pool(1) f1(3) h1 new(1)] by metis
  have d1: "meta_dir m1 = kForward" "meta_proto m1 = meta_proto ?m" using f1(3) by (simp_all add: m1 fwd_meta_def)
  have mac1: "MacAddr_ok (if meta_dir m1 = kForward then meta_backend_mac m1 else meta_client_mac m1)"
    using bm d1 by simp
  note o1 = send_out_fields [OF D _ mac mac1, of mb1', folded out1, unfolded f1(1), OF hl1]
  obtain mb2' where c2: "Classify D cfg mb2 = (mb2', kNextRev)" "mb_data mb2' = mb_data mb2"
    "meta_dir (mb_meta mb2') = kReverse" "meta_src_ip (mb_meta mb2') = rd32 (mb_data mb2) IP_SRC"
    "meta_src_port (mb_meta mb2') = rd16 (mb_data mb2) (l4_of D (mb_data mb2))"
    "meta_dst_port (mb_meta mb2') = rd16 (mb_data mb2) (l4_of D (mb_data mb2) + 2)"
    "meta_proto (mb_meta mb2') = mb_data mb2 IP_PROTO"
    using Classify_rev [OF ans(1,3) _ vs, of D] ans(5) o1(2) d1(1) by auto
  have m2: "meta_src_ip (mb_meta mb2') = ip_value (meta_backend_ip m1)" "meta_src_port (mb_meta mb2') = meta_backend_port m1"
    "meta_dst_port (mb_meta mb2') = meta_snat_port m1" "meta_proto (mb_meta mb2') = meta_proto ?m"
    using c2 ans o1 d1 f1(1,6) by simp_all
  from reply_conn [OF inv(1,2,3,4) pool f1(3) new(1,2,3) h1 times others c2(3) m2]
  obtain st2 st3 m2' where r: "lb_run I st1 es = Inr st2" "HandlePacket I st2 (mb_meta mb2') pool2 now2 = Inr (st3, m2', True)"
    "meta_client_ip m2' = \<lparr>ip_value = meta_src_ip ?m\<rparr>" "meta_client_port m2' = meta_src_port ?m"
    "meta_client_mac m2' = meta_client_mac ?m" "meta_dir m2' = kReverse" by metis
  have mac2: "MacAddr_ok (if meta_dir m2' = kForward then meta_backend_mac m2' else meta_client_mac m2')"
    using r(5,6) f1(7) by (simp add: MacAddr_ok_def)
  note o2 = send_out_fields [OF D _ mac mac2, of mb2', unfolded c2(2), OF hl2]
  have "let d = mb_data (send_out D cfg mb2' m2') in
             rd32 d IP_SRC = ip_value (vip cfg) \<and> rd32 d IP_DST = rd32 (mb_data mb1) IP_SRC
             \<and> rd16 d (l4_of D d) = vip_port cfg \<and> rd16 d (l4_of D d + 2) = rd16 (mb_data mb1) (l4_of D (mb_data mb1))
             \<and> rd_bytes d ETH_DST 6 = rd_bytes (mb_data mb1) ETH_SRC 6"
    unfolding Let_def using o2 r(3-6) f1(4,5,7) by simp
  with c2(1) r(1,2) o1(2,3) d1(1) show ?thesis by auto
qed

definition ex_answer :: mbuf where
  "ex_answer = \<lparr>mb_id = 3, mb_data = bytes_of ([2,0,0,0,0,1, 2,0,0,0,1,2, 8,0]
     @ [0x45,0,0,40, 0,0,0,0, 64,6,0,0, 10,0,1,2, 10,0,0,254]
     @ [31,144, 195,80, 0,0,0,0, 0,0,0,0, 0x50,18, 0,0, 0,0, 0,0]), mb_meta = PacketMeta_default\<rparr>"

lemma ex_mbuf_meta: "Classify ex_dpdk ex_cfg ex_mbuf = (ex_mbuf\<lparr>mb_meta := ex_meta 40000 2\<rparr>, kNextFwd)"
proof -
  have t: "rd16 (mb_data ex_mbuf) ETH_TYPE = RTE_ETHER_TYPE_IPV4" "mb_data ex_mbuf IP_PROTO = 6"
    "L3 + ipv4_hdr_len ex_dpdk (mb_data ex_mbuf) L3 = 34" "rd32 (mb_data ex_mbuf) IP_SRC = 0xC0A80005"
    "rd32 (mb_data ex_mbuf) IP_DST = 0x0A000001" "rd16 (mb_data ex_mbuf) 34 = 40000" "rd16 (mb_data ex_mbuf) 36 = 80"
    "mb_data ex_mbuf 47 = 2" "rd_bytes (mb_data ex_mbuf) ETH_SRC 6 = [2,0,0,0,0,9]"
    "ip_value (vip ex_cfg) = 0x0A000001" "vip_port ex_cfg = 80" by code_simp+
  have z: "MacAddr_zero = \<lparr>mac_bytes = [0,0,0,0,0,0]\<rparr>" by code_simp
  show ?thesis
    by (simp add: Classify_def ClassifyIpv4_def Let_def ReadPorts_def ReadTcpFlags_def t RTE_ETHER_TYPE_ARP_def
        RTE_ETHER_TYPE_IPV4_def IPPROTO_TCP_def IPPROTO_UDP_def ex_meta_def PacketMeta_default_def z)
qed

lemma ex_dpdk_local: "hdr_len_local ex_dpdk"
  by (simp add: hdr_len_local_def ex_dpdk_def)

theorem nat_roundtrip_witness:
  "\<exists>st1 m1 mb2' st3 m2. HandlePacket Generic ex_node (ex_meta 40000 2) (ex_pool [1]) 5 = Inr (st1, m1, True)
     \<and> Classify ex_dpdk ex_cfg ex_answer = (mb2', kNextRev)
     \<and> HandlePacket Generic st1 (mb_meta mb2') (ex_pool [0]) 905 = Inr (st3, m2, True)
     \<and> rd32 (mb_data (send_out ex_dpdk ex_cfg mb2' m2)) IP_DST = 0xC0A80005"
proof -
  let ?m1 = "new_meta Generic ex_node (ex_meta 40000 2) (ex_pool [1])"
  let ?mb = "ex_mbuf\<lparr>mb_meta := ex_meta 40000 2\<rparr>"
  obtain st1 where h1: "HandlePacket Generic ex_node (ex_meta 40000 2) (ex_pool [1]) 5 = Inr (st1, ?m1, True)"
    by (rule ex_opened)
  have up: "usable_pool (ex_pool [1])" by (rule ex_pool_usable) simp_all
  have mm: "meta_backend_port ?m1 = 8080" "MacAddr_ok (meta_backend_mac ?m1)" "meta_dir ?m1 = kForward"
    by (simp_all add: new_meta_def Let_def picked_one ex_open) (simp_all add: ex_pool_def MacAddr_ok_def)
  have mac: "MacAddr_ok (self_mac ex_cfg)" "20 \<le> ipv4_hdr_len ex_dpdk (mb_data ?mb) L3"
    "20 \<le> ipv4_hdr_len ex_dpdk (mb_data ex_answer) L3" "20 \<le> ipv4_hdr_len ex_dpdk (mb_data ex_mbuf) L3" by code_simp+
  have mac1: "MacAddr_ok (if meta_dir ?m1 = kForward then meta_backend_mac ?m1 else meta_client_mac ?m1)"
    using mm by simp
  note o1 = send_out_fields [OF ex_dpdk_local mac(2,1) mac1]
  have ans: "rd16 (mb_data ex_answer) ETH_TYPE = RTE_ETHER_TYPE_IPV4" "mb_data ex_answer IP_PROTO = mb_data ?mb IP_PROTO"
    "mb_data ex_answer IP_PROTO = IPPROTO_TCP" "rd32 (mb_data ex_answer) IP_SRC = 0x0A000102"
    "rd32 (mb_data ex_answer) IP_DST = ip_value (self_ip ex_cfg)"
    "rd16 (mb_data ex_answer) (l4_of ex_dpdk (mb_data ex_answer)) = 8080"
    "rd16 (mb_data ex_answer) (l4_of ex_dpdk (mb_data ex_answer) + 2) = 50000"
    "rd32 (mb_data ex_mbuf) IP_SRC = 0xC0A80005" "vip ex_cfg \<noteq> self_ip ex_cfg" by code_simp+
  have "rd32 (mb_data (send_out ex_dpdk ex_cfg ?mb ?m1)) IP_SRC = ip_value (self_ip ex_cfg)
    \<and> rd32 (mb_data (send_out ex_dpdk ex_cfg ?mb ?m1)) IP_DST = ip_value (meta_backend_ip ?m1)
    \<and> (\<exists>mb2' st2 st3 m2. Classify ex_dpdk ex_cfg ex_answer = (mb2', kNextRev) \<and> lb_run Generic st1 [] = Inr st2
        \<and> HandlePacket Generic st2 (mb_meta mb2') (ex_pool [0]) 905 = Inr (st3, m2, True)
        \<and> (let d = mb_data (send_out ex_dpdk ex_cfg mb2' m2) in
             rd32 d IP_SRC = ip_value (vip ex_cfg) \<and> rd32 d IP_DST = rd32 (mb_data ex_mbuf) IP_SRC
             \<and> rd16 d (l4_of ex_dpdk d) = vip_port ex_cfg
             \<and> rd16 d (l4_of ex_dpdk d + 2) = rd16 (mb_data ex_mbuf) (l4_of ex_dpdk (mb_data ex_mbuf))
             \<and> rd_bytes d ETH_DST 6 = rd_bytes (mb_data ex_mbuf) ETH_SRC 6))"
  proof (rule nat_roundtrip [OF ex_dpdk_local ans(9) mac(1) ex_node_inv _ _ ex_addr_inj up ex_pool_follows ex_mbuf_meta mac(4)
        _ _ _ _ mm(2) _ _ _ refl ans(1) _ _ _ _ _ _ mac(3)])
    show "count {#50000, 50001#} p \<le> 1" for p :: u16 by simp
    show "addr_ok ex_addr (lb_nat ex_node)"
      by (simp add: addr_ok_def ex_node_def ex_table_def NatTable_new_def NatFlow_default_def live_def)
    show "0 \<in> set (nt_rev (lb_nat ex_node))" by (simp add: ex_node_def ex_table_def NatTable_new_def)
    show "905 - 5 \<le> nt_timeout (lb_nat ex_node)" by (simp add: ex_node_def ex_table_def NatTable_new_def)
    show "mb_data ex_answer IP_PROTO = mb_data (send_out ex_dpdk ex_cfg ?mb ?m1) IP_PROTO" using ans(2) o1(7) by simp
    show "rd16 (mb_data ex_answer) (l4_of ex_dpdk (mb_data ex_answer)) =
      rd16 (mb_data (send_out ex_dpdk ex_cfg ?mb ?m1)) (l4_of ex_dpdk (mb_data (send_out ex_dpdk ex_cfg ?mb ?m1)) + 2)"
      unfolding o1(1) using ans(6) o1(5) mm by simp
    show "rd16 (mb_data ex_answer) (l4_of ex_dpdk (mb_data ex_answer) + 2) =
      rd16 (mb_data (send_out ex_dpdk ex_cfg ?mb ?m1)) (l4_of ex_dpdk (mb_data (send_out ex_dpdk ex_cfg ?mb ?m1)))"
      unfolding o1(1) using ans(7) o1(4) mm ex_new_meta by simp
  qed (use ex_harmless ex_node_conn h1 ans o1 mm ex_new_meta in simp_all)
  then show ?thesis using h1 ans(8) by (auto simp: Let_def)
qed

section \<open>Replies come to the worker that holds the connection\<close>

lemma port_steered:
  assumes p: "unat (p :: u16) mod unat (n :: u16) = unat (w :: u16)" and vs: "vip cfg \<noteq> self_ip cfg"
    and mb: "rd16 (mb_data mb) ETH_TYPE = RTE_ETHER_TYPE_IPV4" "mb_data mb IP_PROTO \<in> {IPPROTO_TCP, IPPROTO_UDP}"
      "rd32 (mb_data mb) IP_DST = ip_value (self_ip cfg)" "rd16 (mb_data mb) (l4_of D (mb_data mb) + 2) = p"
  shows "ClassifyForSteer I D cfg (ucast n) mb = \<lparr>steer_cls = kSteer, steer_worker = ucast w\<rparr>"
proof -
  have "ucast p mod (ucast n :: u32) = ucast w"
    using p by (simp add: word_unat_eq_iff unat_mod unsigned_ucast_eq take_bit_nat_eq_self)
  moreover have "ip_value (self_ip cfg) \<noteq> ip_value (vip cfg)" using vs by auto
  ultimately show ?thesis
    using mb by (auto simp: ClassifyForSteer_def Let_def ReadL4Ports_def l4_of_def RTE_ETHER_TYPE_ARP_def
        RTE_ETHER_TYPE_IPV4_def)
qed

text \<open>
  In a balancer of \<open>n\<close> workers, a valid flow in the node of worker \<open>w\<close> has a source
  port such that any answer to it (IPv4, TCP or UDP, to the balancer's address and that port) is
  steered to worker \<open>w\<close>.
\<close>

theorem reply_steered_home:
  assumes reach: "lb_reach I cap cfg w n st" and cap: "cap AND (cap - 1) = 0" "cap \<noteq> 0"
    and f: "f \<in> set (nt_slots (lb_nat st))" "occupied f" "\<not> reaped f" and vs: "vip cfg \<noteq> self_ip cfg"
    and mb: "rd16 (mb_data mb) ETH_TYPE = RTE_ETHER_TYPE_IPV4" "mb_data mb IP_PROTO \<in> {IPPROTO_TCP, IPPROTO_UDP}"
      "rd32 (mb_data mb) IP_DST = ip_value (self_ip cfg)" "rd16 (mb_data mb) (l4_of D (mb_data mb) + 2) = snat_port f"
  shows "ClassifyForSteer I D cfg (ucast n) mb = \<lparr>steer_cls = kSteer, steer_worker = ucast w\<rparr>"
proof -
  obtain i where "i < length (nt_slots (lb_nat st))" "f = slot (lb_nat st) i" using f(1) by (auto simp: in_set_conv_nth)
  then have "unat (snat_port f) mod unat n = unat w" using live_port_facts [OF reach cap, of i] f by simp
  then show ?thesis by (rule port_steered [OF _ vs mb])
qed

theorem reply_steered_home_witness:
  "\<exists>st f mb. lb_reach Generic 4 ex_cfg 0 1 st \<and> f \<in> set (nt_slots (lb_nat st)) \<and> occupied f
     \<and> rd16 (mb_data mb) (l4_of ex_dpdk (mb_data mb) + 2) = snat_port f
     \<and> ClassifyForSteer Generic ex_dpdk ex_cfg (ucast (1 :: u16)) mb = \<lparr>steer_cls = kSteer, steer_worker = ucast (0 :: u16)\<rparr>"
proof -
  obtain st i where r: "lb_reach Generic 4 ex_cfg 0 1 st" "i < length (nt_slots (lb_nat st))" "live (slot (lb_nat st) i)"
    by (rule ex_reach_live)
  let ?f = "slot (lb_nat st) i"
  let ?mb = "ex_answer\<lparr>mb_data := wr16 (mb_data ex_answer) 36 (snat_port ?f)\<rparr>"
  have k: "mb_data ?mb x = mb_data ex_answer x" if "x < 36" for x using that by (simp add: wr16_other)
  have a: "rd16 (mb_data ex_answer) 12 = RTE_ETHER_TYPE_IPV4" "mb_data ex_answer 23 = 6" "mb_data ex_answer 14 = 0x45"
    "rd32 (mb_data ex_answer) 30 = ip_value (self_ip ex_cfg)" "vip ex_cfg \<noteq> self_ip ex_cfg" by code_simp+
  have h: "l4_of ex_dpdk (mb_data ?mb) + 2 = 36" using k [of 14] a(3) by (simp add: l4_of_def ex_dpdk_def L3_def)
  have "ClassifyForSteer Generic ex_dpdk ex_cfg (ucast (1 :: u16)) ?mb = \<lparr>steer_cls = kSteer, steer_worker = ucast (0 :: u16)\<rparr>"
  proof (rule reply_steered_home [OF r(1)])
    show "?f \<in> set (nt_slots (lb_nat st))" "occupied ?f" "\<not> reaped ?f" using r(2,3) by (simp_all add: live_def)
    have "rd16 (mb_data ?mb) 12 = rd16 (mb_data ex_answer) 12" by (rule rd16_cong) (rule k, simp)+
    then show "rd16 (mb_data ?mb) ETH_TYPE = RTE_ETHER_TYPE_IPV4" using a(1) by (simp add: ETH_TYPE_def)
    show "mb_data ?mb IP_PROTO \<in> {IPPROTO_TCP, IPPROTO_UDP}" using k [of 23] a(2) by (simp add: IP_PROTO_def IPPROTO_TCP_def)
    have "rd32 (mb_data ?mb) 30 = rd32 (mb_data ex_answer) 30" by (rule rd32_cong) (rule k, simp)
    then show "rd32 (mb_data ?mb) IP_DST = ip_value (self_ip ex_cfg)" using a(4) by (simp add: IP_DST_def)
    show "rd16 (mb_data ?mb) (l4_of ex_dpdk (mb_data ?mb) + 2) = snat_port ?f" unfolding h by simp
  qed (use a in simp_all)
  moreover have "rd16 (mb_data ?mb) (l4_of ex_dpdk (mb_data ?mb) + 2) = snat_port ?f" unfolding h by simp
  ultimately show ?thesis using r unfolding live_def by (metis nth_mem)
qed

end
