(* ===== verification/Dispatch_Typed.thy ===== *)
theory Dispatch_Typed
  imports Dispatch_Inv
begin

text \<open>
  What can be said of the packets at a node. A locale that extends the contract of a graph's
  nodes: each node has a condition on the packets it gets, which the nodes before it establish,
  and a property of the world that it keeps if its packets meet the condition. A pass then keeps
  the property. That a frame is pending at one node only is what makes this sound: packets
  written into a frame of one node do not show up at another.
\<close>

definition pend_typed :: "(nat \<Rightarrow> 'p \<Rightarrow> bool) \<Rightarrow> 'p Dispatcher \<Rightarrow> bool" where
  "pend_typed pt st \<longleftrightarrow> (\<forall>n < length (dp_pending st). \<forall>f \<in> set (dp_pending st ! n). \<forall>p \<in> set (frame_at st f). pt n p)"

lemma pending_at_one_node:
  assumes ok: "disp_ok N ds st" and n: "n < N" "f \<in> set (dp_pending st ! n)" and m: "m < N" "f \<in> set (dp_pending st ! m)"
  shows "m = n"
proof (rule ccontr)
  assume "m \<noteq> n"
  have len: "length (dp_pending st) = N" and part: "fp_part (used_of ds st) (dp_pool st)" using ok by (simp_all add: disp_ok_def)
  have eq: "mset (concat ((dp_pending st)[n := []])) + mset (dp_pending st ! n) = mset (concat (dp_pending st))"
    using mset_concat_update [of n "dp_pending st" "[]"] n(1) len by simp
  have "f \<in> set (concat ((dp_pending st)[n := []]))"
    using m \<open>m \<noteq> n\<close> len nth_mem [of m "(dp_pending st)[n := []]"] by (auto simp del: nth_mem)
  then have "0 < count (mset (concat ((dp_pending st)[n := []]))) f" by (simp only: count_greater_zero_iff set_mset_mset)
  moreover have "0 < count (mset (dp_pending st ! n)) f" using n(2) by (simp only: count_greater_zero_iff set_mset_mset)
  moreover have "count (mset (concat (dp_pending st))) f \<le> 1"
    using fp_part_once(1) [OF part, of f] by (simp only: used_of_def count_union)
  ultimately show False unfolding eq [symmetric] count_union by linarith
qed

lemma drained_not_pending:
  assumes ok: "disp_ok N (f # fs) st" and n: "n < N"
  shows "f \<notin> set (dp_pending st ! n)"
proof
  assume "f \<in> set (dp_pending st ! n)"
  then have "f \<in> set (concat (dp_pending st))" using ok n by (auto simp: disp_ok_def)
  then have "0 < count (mset (concat (dp_pending st))) f" by (simp only: count_greater_zero_iff set_mset_mset)
  moreover have "fp_part (used_of (f # fs) st) (dp_pool st)" using ok by (simp add: disp_ok_def)
  from fp_part_once(1) [OF this, of f] have "count (mset (concat (dp_pending st))) f + (count (mset fs) f + 1) \<le> 1"
    by (simp add: used_of_def del: mset_concat)
  ultimately show False by linarith
qed

lemma need_frame_typed:
  assumes ok: "disp_ok N ds st" and t: "t < N" and pt: "pend_typed pt st"
  shows "pend_typed pt (need_frame t st)"
proof (cases "dp_pending st ! t = [] \<or> Full (frame_at st (last (dp_pending st ! t)))")
  case True
  obtain f p' where acq: "FP_Acquire (dp_pool st) = (f, p')" by fastforce
  have part: "fp_part (used_of ds st) (dp_pool st)" and len: "length (dp_pending st) = N" using ok by (simp_all add: disp_ok_def)
  note fp = FP_Acquire_part [OF part acq]
  have st1: "need_frame t st = st\<lparr>dp_pool := p', dp_pending := (dp_pending st)[t := dp_pending st ! t @ [f]]\<rparr>"
    using True acq by (simp add: need_frame_def Let_def)
  have old: "fp_storage p' ! h = frame_at st h" if "n < N" "h \<in> set (dp_pending st ! n)" for n h
    using that len nth_mem [of n "dp_pending st"] by (intro fp(4)) (auto simp: used_of_def)
  have "pt n p" if "n < N" "h \<in> set ((dp_pending st)[t := dp_pending st ! t @ [f]] ! n)" "p \<in> set (fp_storage p' ! h)" for n h p
  proof (cases "h = f")
    case True
    then show ?thesis using that(3) fp(2) by simp
  next
    case False
    then have h: "h \<in> set (dp_pending st ! n)" using that(1,2) len by (cases "n = t") auto
    then show ?thesis using that(1,3) old [OF that(1) h] pt len by (auto simp: pend_typed_def)
  qed
  then show ?thesis unfolding pend_typed_def st1 using len by simp
next
  case False
  then have "need_frame t st = st" by (simp add: need_frame_def Let_def)
  with pt show ?thesis by simp
qed

lemma set_frame_typed:
  assumes ok: "disp_ok N ds st" and t: "t < N" "f \<in> set (dp_pending st ! t)" and pt: "pend_typed pt st"
    and x: "\<forall>p \<in> set x. pt t p"
  shows "pend_typed pt (set_frame f x st)"
  unfolding pend_typed_def
proof (intro allI impI ballI)
  fix n h p
  assume a: "n < length (dp_pending (set_frame f x st))" "h \<in> set (dp_pending (set_frame f x st) ! n)" "p \<in> set (frame_at (set_frame f x st) h)"
  have n: "n < N" "n < length (dp_pending st)" "h \<in> set (dp_pending st ! n)" using a(1,2) ok by (simp_all add: set_frame_def disp_ok_def)
  show "pt n p"
  proof (cases "h = f")
    case True
    then have "n = t" using pending_at_one_node [OF ok t n(1)] n(3) by simp
    moreover have "f \<in># used_of ds st" using ok t nth_mem [of t "dp_pending st"] by (fastforce simp: disp_ok_def used_of_def)
    then have "f < length (fp_storage (dp_pool st))" using ok by (auto simp: disp_ok_def dest: fp_part_once(2))
    ultimately show ?thesis using a(3) True x by (simp add: set_frame_def)
  next
    case False
    then have "frame_at (set_frame f x st) h = frame_at st h" by (simp add: set_frame_def)
    with a(3) n pt show ?thesis by (auto simp: pend_typed_def)
  qed
qed

lemma RouteInto_typed:
  assumes "disp_ok N ds st" and "t < N" and "pend_typed pt st" and "\<forall>p \<in> set ms. pt t p" and "RouteInto t ms st = Inr st'"
  shows "pend_typed pt st'"
  using assms
proof (induction ms arbitrary: st)
  case Nil
  then show ?case by simp
next
  case (Cons m ms)
  let ?st1 = "need_frame t st"
  let ?f = "last (dp_pending ?st1 ! t)"
  let ?x = "frame_at ?st1 ?f @ [m]"
  note nf = need_frame_ok [OF Cons.prems(1,2)]
  have lx: "length ?x \<le> kBurstSize" using nf(5) by simp
  have f: "?f \<in> set (dp_pending ?st1 ! t)" using nf(4) by simp
  have pt1: "pend_typed pt ?st1" by (rule need_frame_typed [OF Cons.prems(1-3)])
  have "t < length (dp_pending ?st1)" using nf(1) Cons.prems(2) by (simp add: disp_ok_def)
  then have "\<forall>p \<in> set ?x. pt t p" using pt1 f Cons.prems(4) unfolding pend_typed_def by auto
  from set_frame_typed [OF nf(1) Cons.prems(2) f pt1 this] have pt2: "pend_typed pt (set_frame ?f ?x ?st1)" .
  have "RouteInto t ms (set_frame ?f ?x ?st1) = Inr st'" using Cons.prems(5) nf(5) by (simp add: Let_def Push_def)
  with Cons.IH [OF set_frame_pending(1) [OF nf(1) Cons.prems(2) nf(4) lx] Cons.prems(2) pt2] Cons.prems(4) show ?case by simp
qed

lemma route_outs_typed:
  assumes "disp_ok N ds st" and "\<forall>e \<in> set outs. fst (snd e) \<noteq> kInvalid \<and> unat (fst (snd e)) < N"
    and "\<forall>e \<in> set outs. \<forall>p \<in> set (snd (snd e)). pt (unat (fst (snd e))) p"
    and "pend_typed pt st" and "route_outs outs st = Inr st'"
  shows "pend_typed pt st'"
  using assms
proof (induction outs arbitrary: st)
  case Nil
  then show ?case by simp
next
  case (Cons e outs)
  obtain k t fr where e: "e = (k, t, fr)" by (metis prod_cases3)
  have t: "t \<noteq> kInvalid" "unat t < N" "\<forall>p \<in> set fr. pt (unat t) p" using Cons.prems(2,3) e by auto
  show ?case
  proof (cases "fr = []")
    case True
    with Cons e show ?thesis by simp
  next
    case False
    obtain st1 where st1: "RouteInto (unat t) fr st = Inr st1" "disp_ok N ds st1" using RouteInto_ok [OF Cons.prems(1) t(2)] by blast
    have "pend_typed pt st1" by (rule RouteInto_typed [OF Cons.prems(1) t(2) Cons.prems(4) t(3) st1(1)])
    then have pt2: "pend_typed pt (Schedule (unat t) st1)" using Schedule_ok(4,5) [OF st1(2) t(2)] by (simp add: pend_typed_def)
    have "route_outs outs (Schedule (unat t) st1) = Inr st'" using Cons.prems(5) e False t(1) st1(1) by simp
    with Cons.IH [OF Schedule_ok(1) [OF st1(2) t(2)] _ _ pt2] Cons.prems(2,3) show ?thesis by simp
  qed
qed

lemma set_frame_drained_typed:
  assumes "disp_ok N (f # fs) st" and "pend_typed pt st"
  shows "pend_typed pt (set_frame f x st)"
  using assms drained_not_pending [OF assms(1)]
  by (auto simp: pend_typed_def set_frame_def disp_ok_def) (metis nth_list_update_neq)

lemma release_drained_typed:
  assumes "disp_ok N (f # fs) st" and "pend_typed pt st"
  shows "pend_typed pt (st\<lparr>dp_pool := FP_Release f (dp_pool st)\<rparr>)"
  using assms drained_not_pending [OF assms(1)]
  by (auto simp: pend_typed_def FP_Release_def disp_ok_def) (metis nth_list_update_neq)

text \<open>
  \<open>pt n\<close>: what node \<open>n\<close> may assume of its packets. \<open>good\<close>: what is to be kept of the world.
\<close>

locale typed_net = node_net +
  fixes pt :: "nat \<Rightarrow> 'b \<Rightarrow> bool" and good :: "'a \<Rightarrow> bool"
  assumes typed: "okw w \<Longrightarrow> good w \<Longrightarrow> n < length (gr_nodes g) \<Longrightarrow> length x \<le> kBurstSize \<Longrightarrow> (n = root \<Longrightarrow> x = [])
      \<Longrightarrow> \<forall>p \<in> set x. pt n p \<Longrightarrow> proc n w x (replicate (Fanout g n) []) = Inr (w', x', outs)
      \<Longrightarrow> good w' \<and> (\<forall>out < Fanout g n. \<forall>p \<in> set (outs ! out). pt (unat (Target g n out)) p)"
begin

lemma RunNode_typed:
  assumes w: "okw w" "good w" and n: "n < length (gr_nodes g)" and ok: "disp_ok (length (gr_nodes g)) (f # fs) st"
    and r: "n = root \<Longrightarrow> frame_at st f = []" and pt: "pend_typed pt st" "\<forall>p \<in> set (frame_at st f). pt n p"
    and run: "RunNode proc g n f w st = Inr (w', st')"
  shows "good w' \<and> pend_typed pt st'"
proof -
  let ?N = "length (gr_nodes g)"
  have "f < length (fp_storage (dp_pool st))"
    using ok fp_part_once(2) [of "used_of (f # fs) st" "dp_pool st" f] by (simp add: disp_ok_def used_of_def)
  then have sz: "length (frame_at st f) \<le> kBurstSize" using ok by (simp add: disp_ok_def fp_part_def)
  from proc_ok [OF w(1) n sz r] obtain w1 x' outs where p: "proc n w (frame_at st f) (replicate (Fanout g n) []) = Inr (w1, x', outs)"
    "length x' \<le> kBurstSize" "length outs = Fanout g n" by blast
  note ty = typed [OF w n sz r pt(2) p(1)]
  let ?outs = "map (\<lambda>out. (out, Target g n out, outs ! out)) [0..<Fanout g n]"
  have ro: "route_outs ?outs (set_frame f x' st) = Inr st'" "w' = w1"
    using run p(1) by (auto simp: RunNode_def Let_def bind_r_def split: sum.splits)
  have "pend_typed pt st'"
    using ty wired [OF n] set_frame_drained_typed [OF ok pt(1)]
    by (intro route_outs_typed [OF set_frame_drained(1) [OF ok p(2)] _ _ _ ro(1)]) auto
  with ty ro(2) show ?thesis by simp
qed

lemma drain_loop_typed:
  assumes "okw w" "good w" and "n < length (gr_nodes g)" and "disp_ok (length (gr_nodes g)) fs st" and "all_queued st"
    and "n = root \<Longrightarrow> (\<forall>f \<in> set fs. frame_at st f = [])"
    and "pend_typed pt st" and "\<forall>f \<in> set fs. \<forall>p \<in> set (frame_at st f). pt n p"
    and "drain_loop proc g n fs w st = Inr (w', st')"
  shows "good w' \<and> pend_typed pt st'"
  using assms
proof (induction fs arbitrary: w st)
  case Nil
  then show ?case by simp
next
  case (Cons f fs)
  from RunNode_ok [OF Cons.prems(1,3,4,5)] Cons.prems(6) obtain w1 st1 where h: "RunNode proc g n f w st = Inr (w1, st1)"
    "okw w1" "disp_ok (length (gr_nodes g)) (f # fs) st1" "all_queued st1" "\<forall>h \<in> set fs. frame_at st1 h = frame_at st h" by auto
  have t1: "good w1 \<and> pend_typed pt st1"
    using Cons.prems(6,8) by (intro RunNode_typed [OF Cons.prems(1-4) _ Cons.prems(7) _ h(1)]) auto
  let ?st2 = "st1\<lparr>dp_pool := FP_Release f (dp_pool st1)\<rparr>"
  note rd = release_drained [OF h(3)]
  have same: "frame_at ?st2 h' = frame_at st h'" if "h' \<in> set fs" for h' using rd(3) [OF that] h(5) that by simp
  have q: "all_queued ?st2" using h(4) by (simp add: all_queued_def)
  have run: "drain_loop proc g n fs w1 ?st2 = Inr (w', st')" using Cons.prems(9) h(1) by simp
  show ?case
    using t1 release_drained_typed [OF h(3)] Cons.prems(6,8) same
    by (intro Cons.IH [OF h(2) _ Cons.prems(3) rd(1) q _ _ _ run]) simp_all
qed

text \<open>A pass keeps what is good, whatever the dispatcher held before.\<close>

definition typed_state :: "'a \<Rightarrow> 'b Dispatcher \<Rightarrow> bool" where
  "typed_state w st \<longleftrightarrow> good w \<and> pend_typed pt st"

lemma DrainNode_typed:
  assumes r: "ready w st" and t: "typed_state w st" and ne: "dp_queue st \<noteq> []"
    and run: "DrainNode proc g (last (dp_queue st)) w (popped st) = Inr (w1, st1)"
  shows "typed_state w1 st1"
proof -
  have rd: "okw w" "disp_ok (length (gr_nodes g)) [] st" "all_queued st" using r by (simp_all add: ready_def)
  note cl = claimed_ok [OF rd(2,3) ne]
  have len: "length (dp_pending st) = length (gr_nodes g)" using rd(2) by (simp add: disp_ok_def)
  have sel: "dp_pool (claimed st) = dp_pool st" "dp_pending (claimed st) = (dp_pending st)[last (dp_queue st) := []]"
    by (simp_all add: claimed_def popped_def)
  have "pend_typed pt (claimed st)" using t unfolding typed_state_def pend_typed_def sel
    by (metis length_list_update nth_list_update_eq nth_list_update_neq list.set(1) emptyE)
  moreover have "\<forall>f \<in> set (dp_pending st ! last (dp_queue st)). \<forall>p \<in> set (frame_at (claimed st) f). pt (last (dp_queue st)) p"
    using t cl(1) len unfolding typed_state_def pend_typed_def sel by simp
  moreover have "last (dp_queue st) = root \<Longrightarrow> (\<forall>f \<in> set (dp_pending st ! last (dp_queue st)). frame_at (claimed st) f = [])"
    using r ne unfolding ready_def sel by (metis last_in_set)
  ultimately show ?thesis
    using drain_loop_typed [OF rd(1) _ cl(1-3)] t run unfolding DrainNode_popped typed_state_def by blast
qed

lemma RunOnce_typed:
  assumes w: "okw w" "good w" and ok: "disp_ok (length (gr_nodes g)) [] st"
    and run: "RunOnce proc g root [] w st = Some (Inr (w', st'))"
  shows "good w'"
proof -
  note sr = seeded_ready [OF w(1) ok]
  have "length (dp_pending (seeded root st)) = length (gr_nodes g)" using sr(1) by (simp add: ready_def disp_ok_def)
  then have "typed_state w (seeded root st)" using w(2) sr(4) by (simp add: typed_state_def pend_typed_def)
  from dispatch_loop_keeps [of typed_state, OF DrainNode_typed sr(1) this] run
  show ?thesis by (simp add: typed_state_def RunOnce_seeded)
qed

end

end
