(* ===== verification/Wire_Frames.thy ===== *)
theory Wire_Frames
  imports Main_Graph Nat_Roundtrip Dispatch_Typed
begin

text \<open>
  What leaves the balancer. Every node has a condition on the packets it gets and guarantees one
  for each of its outputs; the graphs connect outputs only to nodes whose condition they
  meet. Between cores the conditions are contracts of the rings: a worker's ring carries
  received packets, the egress ring frames fit for the wire. So every frame a core transmits
  is an ARP reply of the balancer, a packet to one of its backends, or one to a client from the
  virtual service, unless the packet it was came in with an IPv4 header of less than 20 bytes. No code checks that length, so all
  conditions are relative to a set \<open>Z\<close> of buffers that is left out; the last section shows what becomes of such a packet.
\<close>

section \<open>Frames\<close>

definition arp_reply :: "Config \<Rightarrow> bytes \<Rightarrow> bool" where
  "arp_reply cfg d \<longleftrightarrow> rd16 d ETH_TYPE = RTE_ETHER_TYPE_ARP \<and> rd16 d ARP_OPCODE = RTE_ARP_OP_REPLY
     \<and> rd_bytes d ARP_SHA 6 = mac_bytes (self_mac cfg) \<and> rd32 d ARP_SIP \<in> {ip_value (self_ip cfg), ip_value (vip cfg)}"

definition balanced :: "bytes \<Rightarrow> bool" where
  "balanced d \<longleftrightarrow> rd16 d ETH_TYPE = RTE_ETHER_TYPE_IPV4 \<and> d IP_PROTO \<in> {IPPROTO_TCP, IPPROTO_UDP}"

definition to_backend :: "dpdk \<Rightarrow> Config \<Rightarrow> BackendInfo set \<Rightarrow> bytes \<Rightarrow> bool" where
  "to_backend D cfg B d \<longleftrightarrow> balanced d \<and> rd32 d IP_SRC = ip_value (self_ip cfg)
     \<and> (\<exists>b \<in> B. rd_bytes d ETH_DST 6 = mac_bytes (bi_mac b) \<and> rd32 d IP_DST = ip_value (bi_ip b)
          \<and> rd16 d (l4_of D d + 2) = bi_port b)"

definition to_client :: "dpdk \<Rightarrow> Config \<Rightarrow> bytes \<Rightarrow> bool" where
  "to_client D cfg d \<longleftrightarrow> balanced d \<and> rd32 d IP_SRC = ip_value (vip cfg) \<and> rd16 d (l4_of D d) = vip_port cfg"

definition wire_ok :: "dpdk \<Rightarrow> Config \<Rightarrow> BackendInfo set \<Rightarrow> mbuf \<Rightarrow> bool" where
  "wire_ok D cfg B m \<longleftrightarrow> rd_bytes (mb_data m) ETH_SRC 6 = mac_bytes (self_mac cfg)
     \<and> (arp_reply cfg (mb_data m) \<or> to_backend D cfg B (mb_data m) \<or> to_client D cfg (mb_data m))"

text \<open>A received frame: an IPv4 header has at least its 20 fixed bytes. The code does not check this.\<close>

definition long_header :: "dpdk \<Rightarrow> mbuf \<Rightarrow> bool" where
  "long_header D m \<longleftrightarrow> (rd16 (mb_data m) ETH_TYPE = RTE_ETHER_TYPE_IPV4 \<longrightarrow> 20 \<le> ipv4_hdr_len D (mb_data m) L3)"

text \<open>What is said of packets is said of those whose buffer is not in the set \<open>Z\<close>: the buffers in which a packet with a shorter header came in.\<close>

definition whole :: "dpdk \<Rightarrow> nat set \<Rightarrow> mbuf \<Rightarrow> bool" where
  "whole D Z m \<longleftrightarrow> (mb_id m \<notin> Z \<longrightarrow> long_header D m)"

definition sendable :: "dpdk \<Rightarrow> Config \<Rightarrow> BackendInfo set \<Rightarrow> nat set \<Rightarrow> mbuf \<Rightarrow> bool" where
  "sendable D cfg B Z m \<longleftrightarrow> (mb_id m \<notin> Z \<longrightarrow> wire_ok D cfg B m)"

section \<open>Conditions of the nodes\<close>

definition parsed :: "dpdk \<Rightarrow> nat set \<Rightarrow> mbuf \<Rightarrow> bool" where
  "parsed D Z m \<longleftrightarrow> (mb_id m \<notin> Z \<longrightarrow> balanced (mb_data m) \<and> 20 \<le> ipv4_hdr_len D (mb_data m) L3) \<and> MacAddr_ok (meta_client_mac (mb_meta m))"

definition names_backend :: "BackendInfo set \<Rightarrow> PacketMeta \<Rightarrow> bool" where
  "names_backend B m \<longleftrightarrow> (\<exists>b \<in> B. meta_backend_ip m = \<lparr>ip_value = ip_value (bi_ip b)\<rparr> \<and> meta_backend_mac m = bi_mac b
     \<and> meta_backend_port m = bi_port b)"

definition routed :: "dpdk \<Rightarrow> BackendInfo set \<Rightarrow> nat set \<Rightarrow> mbuf \<Rightarrow> bool" where
  "routed D B Z m \<longleftrightarrow> (mb_id m \<notin> Z \<longrightarrow> balanced (mb_data m) \<and> 20 \<le> ipv4_hdr_len D (mb_data m) L3)
     \<and> (if meta_dir (mb_meta m) = kForward then names_backend B (mb_meta m) else MacAddr_ok (meta_client_mac (mb_meta m)))"

definition rewritten :: "dpdk \<Rightarrow> Config \<Rightarrow> BackendInfo set \<Rightarrow> nat set \<Rightarrow> mbuf \<Rightarrow> bool" where
  "rewritten D cfg B Z m \<longleftrightarrow> (\<exists>m0. routed D B Z m0 \<and> m = Rewrite D cfg m0)"

definition is_arp :: "mbuf \<Rightarrow> bool" where
  "is_arp m \<longleftrightarrow> rd16 (mb_data m) ETH_TYPE = RTE_ETHER_TYPE_ARP"

text \<open>The contract of a ring; \<open>eg\<close> is the egress ring.\<close>

definition ring_pt :: "dpdk \<Rightarrow> Config \<Rightarrow> BackendInfo set \<Rightarrow> nat set \<Rightarrow> nat \<Rightarrow> nat \<Rightarrow> mbuf \<Rightarrow> bool" where
  "ring_pt D cfg B Z eg r m \<longleftrightarrow> (if r = eg then sendable D cfg B Z m else whole D Z m)"

fun node_pt :: "dpdk \<Rightarrow> Config \<Rightarrow> BackendInfo set \<Rightarrow> nat set \<Rightarrow> nat \<Rightarrow> node \<Rightarrow> mbuf \<Rightarrow> bool" where
  "node_pt D cfg B Z eg Ip4ParseNode m = whole D Z m"
| "node_pt D cfg B Z eg (LbNode _ _) m = parsed D Z m"
| "node_pt D cfg B Z eg DnatNode m = routed D B Z m"
| "node_pt D cfg B Z eg EtherRewriteNode m = rewritten D cfg B Z m"
| "node_pt D cfg B Z eg (TxNode _ _) m = sendable D cfg B Z m"
| "node_pt D cfg B Z eg ArpNode m = is_arp m"
| "node_pt D cfg B Z eg (SteerNode rs _) m = (whole D Z m \<and> eg \<notin> set rs)"
| "node_pt D cfg B Z eg (RingTxNode r) m = ring_pt D cfg B Z eg r m"
| "node_pt D cfg B Z eg _ m = True"

fun out_pt :: "dpdk \<Rightarrow> Config \<Rightarrow> BackendInfo set \<Rightarrow> nat set \<Rightarrow> nat \<Rightarrow> node \<Rightarrow> nat \<Rightarrow> mbuf \<Rightarrow> bool" where
  "out_pt D cfg B Z eg (RxNode _ _) out m = whole D Z m"
| "out_pt D cfg B Z eg (RingRxNode r) out m = ring_pt D cfg B Z eg r m"
| "out_pt D cfg B Z eg Ip4ParseNode out m =
     (if out \<in> {kNextFwd, kNextRev} then parsed D Z m else if out = kNextArp_ip then is_arp m else True)"
| "out_pt D cfg B Z eg (LbNode _ _) out m = (out = kNextDnat \<longrightarrow> routed D B Z m)"
| "out_pt D cfg B Z eg DnatNode out m = rewritten D cfg B Z m"
| "out_pt D cfg B Z eg EtherRewriteNode out m = sendable D cfg B Z m"
| "out_pt D cfg B Z eg ArpNode out m = (out = kNextTx \<longrightarrow> sendable D cfg B Z m)"
| "out_pt D cfg B Z eg (SteerNode _ _) out m = is_arp m"
| "out_pt D cfg B Z eg _ out m = True"

text \<open>The environment: in states \<open>K\<close> of the devices, what the port and the rings deliver and which
  backends the published pools hold, and that \<open>K\<close> persists if the rings are fed according to their
  contracts; hardware addresses of six bytes.\<close>

definition env_ok :: "dpdk \<Rightarrow> Config \<Rightarrow> 'd dev \<Rightarrow> BackendInfo set \<Rightarrow> nat set \<Rightarrow> nat \<Rightarrow> ('d \<Rightarrow> bool) \<Rightarrow> bool" where
  "env_ok D cfg V B Z eg K \<longleftrightarrow> hdr_len_local D \<and> MacAddr_ok (self_mac cfg) \<and> (\<forall>b \<in> B. MacAddr_ok (bi_mac b))
     \<and> (\<forall>d. K d \<longrightarrow> (\<forall>pool. Rcu_Load (fst (rcu_load V d)) = Some pool \<longrightarrow> set (bp_slots pool) \<subseteq> B) \<and> K (snd (rcu_load V d)))
     \<and> (\<forall>p q n d. K d \<longrightarrow> (\<forall>m \<in> set (fst (eth_rx_burst V p q n d)). whole D Z m) \<and> K (snd (eth_rx_burst V p q n d)))
     \<and> (\<forall>p q ms d. K d \<longrightarrow> K (snd (eth_tx_burst V p q ms d)))
     \<and> (\<forall>r n d. K d \<longrightarrow> (\<forall>m \<in> set (fst (ring_dequeue_burst V r n d)). ring_pt D cfg B Z eg r m) \<and> K (snd (ring_dequeue_burst V r n d)))
     \<and> (\<forall>r ms d. K d \<longrightarrow> (\<forall>m \<in> set ms. ring_pt D cfg B Z eg r m) \<longrightarrow> K (snd (ring_enqueue_burst V r ms d)))
     \<and> (\<forall>r m d. K d \<longrightarrow> ring_pt D cfg B Z eg r m \<longrightarrow> K (snd (ring_enqueue V r m d)))"

lemma env_okD:
  assumes "env_ok D cfg V B Z eg K" and "K d"
  shows "rcu_load V d = (rcu, d') \<Longrightarrow> Rcu_Load rcu = Some pool \<Longrightarrow> set (bp_slots pool) \<subseteq> B" and "rcu_load V d = (rcu, d') \<Longrightarrow> K d'"
    and "eth_rx_burst V p q n d = (ms, d') \<Longrightarrow> (\<forall>m \<in> set ms. whole D Z m) \<and> K d'" and "eth_tx_burst V p q ms d = (k, d') \<Longrightarrow> K d'"
    and "ring_dequeue_burst V r n d = (ms, d') \<Longrightarrow> (\<forall>m \<in> set ms. ring_pt D cfg B Z eg r m) \<and> K d'"
    and "ring_enqueue_burst V r ms d = (k, d') \<Longrightarrow> \<forall>m \<in> set ms. ring_pt D cfg B Z eg r m \<Longrightarrow> K d'"
    and "ring_enqueue V r m d = (rc, d') \<Longrightarrow> ring_pt D cfg B Z eg r m \<Longrightarrow> K d'"
  using assms unfolding env_ok_def by (metis fst_conv snd_conv)+

definition flow_of :: "BackendInfo set \<Rightarrow> NatFlow \<Rightarrow> bool" where
  "flow_of B f \<longleftrightarrow> (\<exists>b \<in> B. backend_ip f = ip_value (bi_ip b) \<and> backend_mac f = bi_mac b \<and> backend_port f = bi_port b)
     \<and> MacAddr_ok (client_mac f)"

interpretation flow: flow_fact "flow_of B" "\<lambda>pool. set (bp_slots pool) \<subseteq> B" "\<lambda>m. MacAddr_ok (meta_client_mac m)" for B
  by unfold_locales (auto simp: core_def flow_of_def placed_def new_flow_def NatFlow_default_def subset_iff)

definition frames_ok :: "dpdk \<Rightarrow> Config \<Rightarrow> 'd dev \<Rightarrow> BackendInfo set \<Rightarrow> nat set \<Rightarrow> nat \<Rightarrow> ('d \<Rightarrow> bool) \<Rightarrow> 'd world \<Rightarrow> bool" where
  "frames_ok D cfg V B Z eg K w \<longleftrightarrow> env_ok D cfg V B Z eg K \<and> (\<forall>lb. w_lb w = Some lb \<longrightarrow> flows_all (flow_of B) (lb_nat lb))
     \<and> (\<forall>m \<in> set (w_sent w). sendable D cfg B Z m) \<and> (\<forall>(r, m) \<in> set (w_ringed w). ring_pt D cfg B Z eg r m) \<and> K (w_dev w)"

section \<open>The nodes meet their conditions\<close>

lemma Classify_typed:
  assumes "whole D Z m"
  shows "out_pt D cfg B Z eg Ip4ParseNode (snd (Classify D cfg m)) (fst (Classify D cfg m))"
  using assms
  by (simp add: Classify_def ClassifyIpv4_def Let_def kNextFwd_def kNextRev_def kNextDrop_ip_def kNextArp_ip_def
      parsed_def balanced_def is_arp_def whole_def long_header_def MacAddr_ok_def)

lemma Rewrite_id [simp]: "mb_id (Rewrite D cfg m) = mb_id m" "mb_id (EtherRewrite cfg m) = mb_id m"
  by (simp_all add: Rewrite_def EtherRewrite_def Let_def)

lemma send_out_typed:
  assumes env: "env_ok D cfg V B Z eg K" and m: "routed D B Z m"
  shows "sendable D cfg B Z (EtherRewrite cfg (Rewrite D cfg m))"
  unfolding sendable_def
proof
  assume "mb_id (EtherRewrite cfg (Rewrite D cfg m)) \<notin> Z"
  then have z: "mb_id m \<notin> Z" by simp
  let ?m = "mb_meta m" and ?d = "mb_data (EtherRewrite cfg (Rewrite D cfg m))"
  have D: "hdr_len_local D" and hl: "20 \<le> ipv4_hdr_len D (mb_data m) L3" and mac: "MacAddr_ok (self_mac cfg)"
    using env m z by (simp_all add: env_ok_def routed_def)
  have mac': "MacAddr_ok (if meta_dir ?m = kForward then meta_backend_mac ?m else meta_client_mac ?m)"
    using env m by (auto simp: env_ok_def routed_def names_backend_def)
  have so: "send_out D cfg m ?m = EtherRewrite cfg (Rewrite D cfg m)" by (simp add: send_out_def)
  note f = send_out_fields [OF D hl mac mac', unfolded so]
  have "balanced ?d" using m z f(7,8) by (simp add: routed_def balanced_def)
  with m z f show "wire_ok D cfg B (EtherRewrite cfg (Rewrite D cfg m))"
    by (auto simp: wire_ok_def routed_def to_backend_def to_client_def names_backend_def split: if_splits)
qed

lemma BuildReply_typed:
  assumes mac: "MacAddr_ok (self_mac cfg)" and arp: "is_arp m" and b: "BuildReply cfg m = (m', True)"
  shows "wire_ok D cfg B m'"
proof -
  have "rd16 (mb_data m') ETH_TYPE = rd16 (mb_data m) ETH_TYPE"
    using BuildReply_spec [OF mac, of m] b by (intro rd16_cong) (simp_all add: Let_def offsets)
  with BuildReply_spec [OF mac, of m] b arp show ?thesis
    by (auto simp: Let_def wire_ok_def arp_reply_def is_arp_def)
qed

lemma emit_at:
  assumes "emit ms nexts = Inr nexts'" and "out < length nexts" and "snd ` set ms \<subseteq> {..<length nexts}"
  shows "nexts' ! out = nexts ! out @ map fst (filter (\<lambda>e. snd e = out) ms)"
  using assms
proof (induction ms arbitrary: nexts)
  case Nil
  then show ?case by simp
next
  case (Cons e ms)
  obtain m k where e: "e = (m, k)" by fastforce
  have "emit ms (nexts[k := nexts ! k @ [m]]) = Inr nexts'"
    using Cons.prems(1) by (auto simp: e Push_def bind_r_def split: if_splits)
  with Cons.IH [of "nexts[k := nexts ! k @ [m]]"] Cons.prems(2,3) show ?case by (auto simp: e nth_list_update)
qed

lemma emit_typed:
  assumes "emit ms (replicate k []) = Inr nexts'" and "snd ` set ms \<subseteq> {..<k}" and "\<forall>e \<in> set ms. Q (snd e) (fst e)"
  shows "\<forall>out < k. \<forall>m \<in> set (nexts' ! out). Q out m"
  using emit_at [OF assms(1)] assms(2,3) by auto

definition typed_out :: "dpdk \<Rightarrow> Config \<Rightarrow> 'd dev \<Rightarrow> BackendInfo set \<Rightarrow> nat set \<Rightarrow> nat \<Rightarrow> ('d \<Rightarrow> bool) \<Rightarrow> node \<Rightarrow> 'd step_result \<Rightarrow> bool" where
  "typed_out D cfg V B Z eg K nd r \<longleftrightarrow> (\<forall>w' x' outs. r = Inr (w', x', outs) \<longrightarrow> frames_ok D cfg V B Z eg K w'
     \<and> (\<forall>out < NextCount nd. \<forall>m \<in> set (outs ! out). out_pt D cfg B Z eg nd out m))"

lemma route_typed:
  assumes "frames_ok D cfg V B Z eg K w" and "snd ` set outs \<subseteq> {..<NextCount nd}"
    and "\<forall>e \<in> set outs. out_pt D cfg B Z eg nd (snd e) (fst e)"
  shows "typed_out D cfg V B Z eg K nd (route w outs (replicate (NextCount nd) []))"
  unfolding typed_out_def
proof (intro allI impI)
  fix w' x' os
  assume "route w outs (replicate (NextCount nd) []) = Inr (w', x', os)"
  then have "emit outs (replicate (NextCount nd) []) = Inr os" "w' = w" by (auto simp: route_def bind_r_def split: sum.splits)
  with emit_typed [of outs "NextCount nd" os "out_pt D cfg B Z eg nd"] assms
  show "frames_ok D cfg V B Z eg K w' \<and> (\<forall>out < NextCount nd. \<forall>m \<in> set (os ! out). out_pt D cfg B Z eg nd out m)" by blast
qed

lemma source_typed:
  assumes "frames_ok D cfg V B Z eg K w" and "NextCount nd = 1" and "\<forall>m \<in> set ms. out_pt D cfg B Z eg nd 0 m"
  shows "typed_out D cfg V B Z eg K nd (bind_r (emit (map (\<lambda>m. (m, 0)) ms) (replicate (NextCount nd) [])) (\<lambda>nexts'. Inr (w, ms, nexts')))"
proof -
  have "snd ` set (map (\<lambda>m. (m, 0)) ms) \<subseteq> {..<NextCount nd}" using assms(2) by auto
  with assms(1,3) emit_typed [of "map (\<lambda>m. (m, 0)) ms" "NextCount nd" _ "out_pt D cfg B Z eg nd"] show ?thesis
    by (fastforce simp: typed_out_def bind_r_def split: sum.splits)
qed

lemma pipe_typed:
  assumes "frames_ok D cfg V B Z eg K w" and "NextCount nd = 1" and "\<forall>m \<in> set x. out_pt D cfg B Z eg nd 0 (f m)"
  shows "typed_out D cfg V B Z eg K nd (route w (map (\<lambda>m. (f m, 0)) x) (replicate (NextCount nd) []))"
  using assms by (intro route_typed) auto

lemma effects_frames [simp]:
  "frames_ok D cfg V B Z eg K (mbuf_free ms w) = frames_ok D cfg V B Z eg K w" "frames_ok D cfg V B Z eg K (add_dropped k w) = frames_ok D cfg V B Z eg K w"
  "frames_ok D cfg V B Z eg K (add_tx k w) = frames_ok D cfg V B Z eg K w" "frames_ok D cfg V B Z eg K (add_rx k w) = frames_ok D cfg V B Z eg K w"
  by (simp_all add: frames_ok_def mbuf_free_def add_dropped_def add_tx_def add_rx_def)

lemma Tx_typed:
  assumes fr: "frames_ok D cfg V B Z eg K w" and x: "\<forall>m \<in> set x. sendable D cfg B Z m"
  shows "typed_out D cfg V B Z eg K (TxNode p q) (Tx_Process V p q w x [])"
proof -
  obtain k d where tx: "eth_tx_burst V p q x (w_dev w) = (k, d)" by fastforce
  have "frames_ok D cfg V B Z eg K (w\<lparr>w_dev := d, w_sent := w_sent w @ take k x\<rparr>)"
    using fr x env_okD(4) [OF _ _ tx] by (auto simp: frames_ok_def dest: in_set_takeD)
  then show ?thesis by (auto simp: typed_out_def Tx_Process_def Let_def tx)
qed

lemma RingTx_typed:
  assumes fr: "frames_ok D cfg V B Z eg K w" and x: "\<forall>m \<in> set x. ring_pt D cfg B Z eg r m"
  shows "typed_out D cfg V B Z eg K (RingTxNode r) (RingTx_Process V r w x [])"
proof -
  obtain k d where tx: "ring_enqueue_burst V r x (w_dev w) = (k, d)" by fastforce
  have "frames_ok D cfg V B Z eg K (w\<lparr>w_dev := d, w_ringed := w_ringed w @ map (\<lambda>m. (r, m)) (take k x)\<rparr>)"
    using fr x env_okD(6) [OF _ _ tx] by (auto simp: frames_ok_def dest: in_set_takeD)
  then show ?thesis by (auto simp: typed_out_def RingTx_Process_def Let_def tx)
qed

lemma Steer_arp: "steer_cls (ClassifyForSteer I D cfg n m) = kArp \<Longrightarrow> is_arp m"
  by (auto simp: ClassifyForSteer_def Let_def is_arp_def split: if_splits)

lemma Steer_loop_typed:
  assumes "frames_ok D cfg V B Z eg K w" and "\<forall>m \<in> set x. node_pt D cfg B Z eg (SteerNode rs n) m" and "\<forall>m \<in> set f. is_arp m"
    and "Steer_loop I D cfg V rs n x w [f] = Inr (w', outs)"
  shows "frames_ok D cfg V B Z eg K w' \<and> (\<forall>m \<in> set (outs ! 0). is_arp m)"
  using assms
proof (induction x arbitrary: w f)
  case Nil
  then show ?case by auto
next
  case (Cons m ms)
  let ?res = "ClassifyForSteer I D cfg n m"
  have ms: "\<forall>m \<in> set ms. node_pt D cfg B Z eg (SteerNode rs n) m" and m: "whole D Z m" "eg \<notin> set rs" using Cons.prems(2) by auto
  show ?case
  proof (cases "steer_cls ?res")
    case kArp
    then have "Steer_loop I D cfg V rs n ms w [f @ [m]] = Inr (w', outs)"
      using Cons.prems(4) by (auto simp: kNextArp_steer_def Push_def bind_r_def split: if_splits)
    with Cons.IH [OF Cons.prems(1) ms, of "f @ [m]"] Cons.prems(3) Steer_arp [OF kArp] show ?thesis by simp
  next
    case kSteer
    let ?rg = "rs ! unat (steer_worker ?res)"
    obtain rc d where e: "ring_enqueue V ?rg m (w_dev w) = (rc, d)" by fastforce
    have lt: "unat (steer_worker ?res) < length rs" using Cons.prems(4) kSteer by (auto simp: Let_def split: if_splits)
    then have rg: "ring_pt D cfg B Z eg ?rg m" using m by (auto simp: ring_pt_def)
    let ?w = "if rc \<noteq> 0 then add_dropped 1 (mbuf_free [m] (w\<lparr>w_dev := d\<rparr>)) else w\<lparr>w_dev := d, w_ringed := w_ringed w @ [(?rg, m)]\<rparr>"
    have "frames_ok D cfg V B Z eg K (w\<lparr>w_dev := d, w_ringed := w_ringed w @ [(?rg, m)]\<rparr>)"
      "frames_ok D cfg V B Z eg K (w\<lparr>w_dev := d\<rparr>)" using Cons.prems(1) rg env_okD(7) [OF _ _ e rg] by (auto simp: frames_ok_def)
    then have fw: "frames_ok D cfg V B Z eg K ?w" by simp
    have "Steer_loop I D cfg V rs n ms ?w [f] = Inr (w', outs)"
      using Cons.prems(4) kSteer lt e by (simp add: Let_def split: if_splits)
    then show ?thesis by (rule Cons.IH [OF fw ms Cons.prems(3)])
  next
    case kDrop
    with Cons.IH [OF _ ms Cons.prems(3), of "mbuf_free [m] w"] Cons.prems(1,4) show ?thesis by simp
  qed
qed

lemma from_flow_routed:
  assumes "flow.from_flow B (mb_meta m) meta" and "parsed D Z m"
  shows "routed D B Z (m\<lparr>mb_meta := meta\<rparr>)"
  using assms by (auto simp: flow.from_flow_def routed_def parsed_def flow_of_def names_backend_def fwd_meta_def rev_meta_def)

lemma LbN_typed:
  assumes w: "world_ok I V s nodes w" and nd: "LbNode a b \<in> set nodes" and fr: "frames_ok D cfg V B Z eg K w"
    and x: "\<forall>m \<in> set x. parsed D Z m"
  shows "typed_out D cfg V B Z eg K (LbNode a b) (LbN_Process I V w x (replicate (NextCount (LbNode a b)) []))"
proof -
  obtain lb where lb: "w_lb w = Some lb" "lb_inv I (all_ports a b) lb" using w nd unfolding world_ok_def by blast
  obtain rcu d where rcu: "rcu_load V (w_dev w) = (rcu, d)" by fastforce
  have env: "env_ok D cfg V B Z eg K" "K (w_dev w)" using fr by (simp_all add: frames_ok_def)
  have "built_rcu rcu" using w rcu unfolding world_ok_def dev_ok_def by (metis fst_conv)
  note built = this env_okD(1) [OF env rcu]
  let ?lb = "lb\<lparr>lb_stats := w_stats w\<rparr>"
  have inv: "lb_inv I (all_ports a b) ?lb" using lb(2) by (simp add: lb_stats_inv)
  from Lb_Process_inv [OF this built(1)] obtain lb' outs where run:
    "Lb_Process I ?lb rcu (NowMs (timer_cycles V d) (timer_hz V)) (map mb_meta x) = Inr (lb', outs)"
    "length outs = length x" by (metis length_map)
  have "flows_all (flow_of B) (lb_nat ?lb)" using fr lb(1) by (simp add: frames_ok_def)
  moreover have "\<forall>m \<in> set (map mb_meta x). MacAddr_ok (meta_client_mac m)" using x by (simp add: parsed_def)
  ultimately have fact: "flows_all (flow_of B) (lb_nat lb')"
    "\<forall>k < length x. snd (outs ! k) = kNextDnat \<longrightarrow> flow.from_flow B (mb_meta (x ! k)) (fst (outs ! k))"
    using flow.Lb_Process_fact [OF inv built _ run(1)] by auto
  let ?w = "w\<lparr>w_dev := d, w_lb := Some lb', w_stats := lb_stats lb'\<rparr>"
  let ?outs = "map2 (\<lambda>m (meta, out). (m\<lparr>mb_meta := meta\<rparr>, out)) x outs"
  have "frames_ok D cfg V B Z eg K ?w" using fr fact(1) env_okD(2) [OF env rcu] by (simp add: frames_ok_def)
  moreover have "snd ` set ?outs \<subseteq> {..<NextCount (LbNode a b)}"
    using Lb_outputs [OF run(1)] by (force simp: kNextDnat_def kNextDrop_lb_def dest!: set_zip_rightD)
  moreover have "out_pt D cfg B Z eg (LbNode a b) (snd e) (fst e)" if mem: "e \<in> set ?outs" for e
  proof -
    obtain k where "k < length ?outs" "?outs ! k = e" using mem unfolding in_set_conv_nth by blast
    then have k: "k < length x" "e = ((x ! k)\<lparr>mb_meta := fst (outs ! k)\<rparr>, snd (outs ! k))"
      using run(2) by (auto simp: case_prod_beta)
    then show ?thesis using fact(2) x from_flow_routed [of B "x ! k" "fst (outs ! k)" D] by auto
  qed
  ultimately have "typed_out D cfg V B Z eg K (LbNode a b) (route ?w ?outs (replicate (NextCount (LbNode a b)) []))"
    by (intro route_typed) auto
  then show ?thesis using lb(1) rcu run(1) by (simp add: LbN_Process_def)
qed

lemma Process_typed:
  assumes w: "world_ok I V s nodes w" and nd: "nd \<in> set nodes" and fr: "frames_ok D cfg V B Z eg K w"
    and x: "\<forall>m \<in> set x. node_pt D cfg B Z eg nd m"
  shows "typed_out D cfg V B Z eg K nd (Process I D cfg V nd w x (replicate (NextCount nd) []))"
proof -
  have env: "env_ok D cfg V B Z eg K" and K: "K (w_dev w)" and mac: "MacAddr_ok (self_mac cfg)"
    using fr by (simp_all add: frames_ok_def env_ok_def)
  show ?thesis
  proof (cases nd)
    case (RxNode p q)
    obtain ms d where rx: "eth_rx_burst V p q kBurstSize (w_dev w) = (ms, d)" by fastforce
    have "\<forall>m \<in> set ms. out_pt D cfg B Z eg nd 0 m" using env_okD(3) [OF env K rx] RxNode by simp
    moreover have "frames_ok D cfg V B Z eg K (add_rx (length ms) (w\<lparr>w_dev := d, w_received := w_received w @ ms\<rparr>))"
      using fr env_okD(3) [OF env K rx] by (simp only: effects_frames) (simp add: frames_ok_def)
    ultimately show ?thesis using RxNode rx source_typed [of D cfg V B Z eg K _ nd ms] by (simp add: Rx_Process_def)
  next
    case (RingRxNode r)
    obtain ms d where rx: "ring_dequeue_burst V r kBurstSize (w_dev w) = (ms, d)" by fastforce
    have "\<forall>m \<in> set ms. out_pt D cfg B Z eg nd 0 m" using env_okD(5) [OF env K rx] RingRxNode by simp
    moreover have "frames_ok D cfg V B Z eg K (w\<lparr>w_dev := d, w_dequeued := w_dequeued w @ ms\<rparr>)"
      using fr env_okD(5) [OF env K rx] by (simp add: frames_ok_def)
    ultimately show ?thesis using RingRxNode rx source_typed [of D cfg V B Z eg K _ nd ms] by (simp add: RingRx_Process_def)
  next
    case Ip4ParseNode
    have "snd ` set (Ip4Parse_Process D cfg x) \<subseteq> {..<NextCount nd}" using Ip4ParseNode Classify_out by (auto simp: Ip4Parse_Process_def)
    moreover have "\<forall>e \<in> set (Ip4Parse_Process D cfg x). out_pt D cfg B Z eg nd (snd e) (fst e)"
      using Ip4ParseNode x Classify_typed by (auto simp: Ip4Parse_Process_def simp del: out_pt.simps)
    ultimately show ?thesis using Ip4ParseNode route_typed [OF fr, of "Ip4Parse_Process D cfg x" nd] by simp
  next
    case (LbNode a b)
    with w nd x fr show ?thesis using LbN_typed [of I V s nodes w a b] by simp
  next
    case DnatNode
    with x pipe_typed [OF fr, of nd x "Rewrite D cfg"] show ?thesis by (auto simp: Dnat_Process_def rewritten_def)
  next
    case EtherRewriteNode
    then have "\<forall>m \<in> set x. sendable D cfg B Z (EtherRewrite cfg m)" using x send_out_typed [OF env] by (auto simp: rewritten_def)
    with EtherRewriteNode pipe_typed [OF fr, of nd x "EtherRewrite cfg"] show ?thesis by (simp add: EtherRewrite_Process_def)
  next
    case (TxNode p q)
    with fr x show ?thesis by (simp add: Tx_typed)
  next
    case DropNode
    with fr show ?thesis by (simp add: Drop_Process_def typed_out_def)
  next
    case ArpNode
    have "snd ` set (Arp_Process cfg x) \<subseteq> {..<NextCount nd}"
      using ArpNode by (auto simp: Arp_Process_def kNextTx_def kNextDrop_arp_def split: prod.splits)
    moreover have "out_pt D cfg B Z eg nd (snd e) (fst e)" if "e \<in> set (Arp_Process cfg x)" for e
      using that ArpNode x BuildReply_typed [OF mac]
      by (auto simp: Arp_Process_def kNextTx_def kNextDrop_arp_def sendable_def split: prod.splits if_splits)
    ultimately show ?thesis using ArpNode route_typed [OF fr, of "Arp_Process cfg x" nd] by simp
  next
    case (SteerNode rs n)
    then show ?thesis
      using Steer_loop_typed [OF fr, of x rs n "[]" I] x
      by (auto simp: typed_out_def Steer_Process_def bind_r_def split: sum.splits)
  next
    case (RingTxNode r)
    with fr x show ?thesis by (simp add: RingTx_typed)
  qed
qed

section \<open>The graphs connect nodes that fit\<close>

definition edges_typed :: "dpdk \<Rightarrow> Config \<Rightarrow> BackendInfo set \<Rightarrow> nat set \<Rightarrow> nat \<Rightarrow> node Graph \<Rightarrow> bool" where
  "edges_typed D cfg B Z eg g \<longleftrightarrow> (\<forall>n < length (gr_nodes g). \<forall>out < Fanout g n. \<forall>m.
     out_pt D cfg B Z eg (gr_nodes g ! n) out m \<longrightarrow> node_pt D cfg B Z eg (gr_nodes g ! unat (Target g n out)) m)"

definition frames_in :: "dpdk \<Rightarrow> Config \<Rightarrow> 'd dev \<Rightarrow> BackendInfo set \<Rightarrow> nat set \<Rightarrow> nat \<Rightarrow> ('d \<Rightarrow> bool) \<Rightarrow> node Graph \<Rightarrow> 'd world \<Rightarrow> bool" where
  "frames_in D cfg V B Z eg K g w \<longleftrightarrow> edges_typed D cfg B Z eg g \<and> frames_ok D cfg V B Z eg K w"

lemma typed_net_of_nodes:
  assumes g: "graph_ok rank root g" and sub: "set (gr_nodes g) \<subseteq> set nodes"
    and only: "\<And>a b a' b'. LbNode a b \<in> set nodes \<Longrightarrow> LbNode a' b' \<in> set nodes \<Longrightarrow> a' = a \<and> b' = b"
  shows "typed_net (proc_of I D cfg V g) g root rank (world_ok I V s nodes) world_came world_gone mb_id
    (\<lambda>n. node_pt D cfg B Z eg (gr_nodes g ! n)) (frames_in D cfg V B Z eg K g)"
proof -
  have net: "node_net (proc_of I D cfg V g) g root rank (world_ok I V s nodes) world_came world_gone mb_id"
    using g sub only by (rule net_of_nodes)
  show ?thesis
  proof (rule typed_net.intro [OF net], rule typed_net_axioms.intro)
    fix w n x w' x' outs
    assume a: "world_ok I V s nodes w" "frames_in D cfg V B Z eg K g w" "n < length (gr_nodes g)"
      "\<forall>p \<in> set x. node_pt D cfg B Z eg (gr_nodes g ! n) p"
      and run: "proc_of I D cfg V g n w x (replicate (Fanout g n) []) = Inr (w', x', outs)"
    have f: "Fanout g n = NextCount (gr_nodes g ! n)" using g a(3) by (simp add: graph_ok_def)
    have "gr_nodes g ! n \<in> set nodes" using a(3) sub by auto
    then have "typed_out D cfg V B Z eg K (gr_nodes g ! n) (Process I D cfg V (gr_nodes g ! n) w x (replicate (NextCount (gr_nodes g ! n)) []))"
      using a by (intro Process_typed) (auto simp: frames_in_def)
    with run a(2,3) show "frames_in D cfg V B Z eg K g w' \<and>
        (\<forall>out < Fanout g n. \<forall>p \<in> set (outs ! out). node_pt D cfg B Z eg (gr_nodes g ! unat (Target g n out)) p)"
      unfolding typed_out_def proc_of_def f [symmetric] frames_in_def edges_typed_def by blast
  qed
qed

lemma mono_edges: "edges_typed D cfg B Z eg (mono_graph arg)"
  by (simp add: edges_typed_def mono_graph_def Fanout_def Target_def numeral_lists outs)

lemma worker_edges: "la_ingress arg \<noteq> la_egress arg \<Longrightarrow> edges_typed D cfg B Z (la_egress arg) (worker_graph arg)"
  by (simp add: edges_typed_def worker_graph_def Fanout_def Target_def numeral_lists outs ring_pt_def)

lemma rx_edges: "la_egress arg \<notin> set (la_worker_rings arg) \<Longrightarrow> edges_typed D cfg B Z (la_egress arg) (rx_graph arg)"
  by (simp add: edges_typed_def rx_graph_def Fanout_def Target_def numeral_lists outs ring_pt_def)

lemma tx_edges: "edges_typed D cfg B Z (la_egress arg) (tx_graph arg)"
  by (simp add: edges_typed_def tx_graph_def Fanout_def Target_def numeral_lists outs ring_pt_def)

lemma map_sum_Inr_iff: "map_sum id f z = Inr x \<longleftrightarrow> (\<exists>y. z = Inr y \<and> x = f y)"
  by (cases z) auto

text \<open>The rings of a core are different ones.\<close>

definition rings_apart :: "LcoreArg \<Rightarrow> bool" where
  "rings_apart arg \<longleftrightarrow> (la_role arg = kWorker \<longrightarrow> la_ingress arg \<noteq> la_egress arg)
     \<and> (la_role arg = kIo \<longrightarrow> la_egress arg \<notin> set (la_worker_rings arg))"

section \<open>Headers that are too short\<close>

text \<open>
  C35. No code checks the length of the IPv4 header. A TCP packet to the
  virtual address whose header length field is 0 has its total length read as its destination
  port: if that is the port of the service, the packet is classified as one for the service.
  Rewriting it towards the backend then overwrites the first four bytes of the IPv4 header, the version
  and the lengths, with the two ports, and the first two bytes of the destination address with the TCP checksum, computed over the frame with these two bytes
  zeroed; only the last two bytes of the backend's address remain.
\<close>

theorem short_header_overwritten:
  assumes hl: "ipv4_hdr_len D (mb_data mb) L3 = 0" and ip: "rd16 (mb_data mb) ETH_TYPE = RTE_ETHER_TYPE_IPV4"
    and tcp: "mb_data mb IP_PROTO = IPPROTO_TCP" and dst: "rd32 (mb_data mb) IP_DST = ip_value (vip cfg)"
    and len: "rd16 (mb_data mb) (L3 + 2) = vip_port cfg"
  shows "\<exists>mb'. Classify D cfg mb = (mb', kNextFwd)
    \<and> (\<forall>m. meta_dir m = kForward \<and> meta_proto m = meta_proto (mb_meta mb') \<longrightarrow>
        (let d' = mb_data (Rewrite D cfg (mb'\<lparr>mb_meta := m\<rparr>)) in
          rd16 d' L3 = meta_snat_port m \<and> rd16 d' (L3 + 2) = meta_backend_port m
          \<and> rd_bytes d' IP_DST 2 = le16 (udptcp_cksum D (wr16_raw d' IP_DST 0) L3 L3)
          \<and> rd16 d' (IP_DST + 2) = ucast (ip_value (meta_backend_ip m))))"
proof -
  have "RTE_ETHER_TYPE_IPV4 \<noteq> RTE_ETHER_TYPE_ARP" by (simp add: RTE_ETHER_TYPE_IPV4_def RTE_ETHER_TYPE_ARP_def)
  then obtain mb' where c: "Classify D cfg mb = (mb', kNextFwd)" "meta_proto (mb_meta mb') = IPPROTO_TCP"
    using assms by (simp add: Classify_def ClassifyIpv4_def Let_def ReadPorts_def)
  have data: "mb_data mb' = mb_data mb" using Classify_fwd(1) [OF c(1)] .
  have "rd16 d' L3 = meta_snat_port m \<and> rd16 d' (L3 + 2) = meta_backend_port m
      \<and> rd_bytes d' IP_DST 2 = le16 (udptcp_cksum D (wr16_raw d' IP_DST 0) L3 L3) \<and> rd16 d' (IP_DST + 2) = ucast (ip_value (meta_backend_ip m))"
    if m: "meta_dir m = kForward" "meta_proto m = IPPROTO_TCP" and d': "d' = mb_data (Rewrite D cfg (mb'\<lparr>mb_meta := m\<rparr>))" for m d'
  proof -
    let ?e = "wr16 (wr16 (wr32 (wr32 (mb_data mb) IP_SRC (ip_value (self_ip cfg))) IP_DST (ip_value (meta_backend_ip m))) L3 (meta_snat_port m))
      (L3 + 2) (meta_backend_port m)"
    have eq: "d' = FixChecksums D ?e IPPROTO_TCP L3"
      using hl m by (simp add: d' Rewrite_def Let_def data SetPorts_eq)
    have low: "d' x = ?e x" if "L3 \<le> x" "x < L3 + 4" for x
      unfolding eq using that by (intro FixChecksums_other) (auto simp: offsets l4_cksum_off_def)
    have "rd16 d' (L3 + 2) = rd16 ?e (L3 + 2)" by (intro rd16_cong low) simp_all
    moreover have "rd16 d' L3 = rd16 ?e L3" by (intro rd16_cong low) simp_all
    moreover have "rd16 ?e L3 = meta_snat_port m"
    proof -
      have "rd16 ?e L3 = rd16 (wr16 (wr32 (wr32 (mb_data mb) IP_SRC (ip_value (self_ip cfg))) IP_DST (ip_value (meta_backend_ip m))) L3
          (meta_snat_port m)) L3" by (intro rd16_cong wr16_other) simp_all
      then show ?thesis by simp
    qed
    moreover have "rd_bytes d' IP_DST 2 = le16 (udptcp_cksum D (wr16_raw d' IP_DST 0) L3 L3)"
    proof -
      obtain e where e: "d' = wr16_raw (wr16_raw e IP_DST 0) IP_DST (udptcp_cksum D (wr16_raw e IP_DST 0) L3 L3)"
        unfolding eq FixChecksums_def Let_def by (auto simp: offsets)
      have "wr16_raw d' IP_DST 0 = wr16_raw e IP_DST 0" unfolding e by (rule ext) (simp add: wr16_raw_def wr_bytes_def le16_def)
      then show ?thesis by (subst e) (simp add: wr16_raw_def le16_def)
    qed
    moreover have "rd16 d' (IP_DST + 2) = ucast (ip_value (meta_backend_ip m))"
    proof -
      have "d' x = ?e x" if "IP_DST + 2 \<le> x" for x
        unfolding eq using that by (intro FixChecksums_other) (auto simp: offsets l4_cksum_off_def)
      then have "d' x = wr32 (wr32 (mb_data mb) IP_SRC (ip_value (self_ip cfg))) IP_DST (ip_value (meta_backend_ip m)) x" if "IP_DST + 2 \<le> x" for x
        using that by (simp add: wr16_other offsets)
      then have "rd16 d' (IP_DST + 2) = rd16 (wr32 (wr32 (mb_data mb) IP_SRC (ip_value (self_ip cfg))) IP_DST (ip_value (meta_backend_ip m))) (IP_DST + 2)"
        by (intro rd16_cong) simp_all
      also have "\<dots> = ucast (ip_value (meta_backend_ip m))"
        by (rule bit_word_eqI) (auto simp: rd16_def wr32_def wr_bytes_def bit_simps)
      finally show ?thesis .
    qed
    ultimately show ?thesis by simp
  qed
  with c show ?thesis by (auto simp: Let_def)
qed

text \<open>The example packet with 0x40 for 0x45, and 80 bytes of total length.\<close>

definition ex_short :: mbuf where
  "ex_short = ex_mbuf\<lparr>mb_data := bytes_of ([2,0,0,0,0,1, 2,0,0,0,0,9, 8,0]
     @ [0x40,0,0,80, 0,0,0,0, 64,6,0,0, 192,168,0,5, 10,0,0,1])\<rparr>"

theorem short_header_overwritten_witness:
  "\<exists>mb'. Classify ex_dpdk ex_cfg ex_short = (mb', kNextFwd)
    \<and> (let d' = mb_data (Rewrite ex_dpdk ex_cfg (mb'\<lparr>mb_meta := (mb_meta mb')\<lparr>meta_dir := kForward, meta_snat_port := 50000,
          meta_backend_ip := \<lparr>ip_value = 0x0A000101\<rparr>\<rparr>\<rparr>)) in
        rd16 d' L3 = 50000 \<and> rd_bytes d' IP_DST 2 = le16 (udptcp_cksum ex_dpdk (wr16_raw d' IP_DST 0) L3 L3) \<and> rd16 d' (IP_DST + 2) = 0x0101)"
proof -
  have h: "ipv4_hdr_len ex_dpdk (mb_data ex_short) L3 = 0" "rd16 (mb_data ex_short) ETH_TYPE = RTE_ETHER_TYPE_IPV4"
    "mb_data ex_short IP_PROTO = IPPROTO_TCP" "rd32 (mb_data ex_short) IP_DST = ip_value (vip ex_cfg)"
    "rd16 (mb_data ex_short) (L3 + 2) = vip_port ex_cfg" by code_simp+
  from short_header_overwritten [OF this] obtain mb' where m: "Classify ex_dpdk ex_cfg ex_short = (mb', kNextFwd)"
    "\<forall>m. meta_dir m = kForward \<and> meta_proto m = meta_proto (mb_meta mb') \<longrightarrow>
        (let d' = mb_data (Rewrite ex_dpdk ex_cfg (mb'\<lparr>mb_meta := m\<rparr>)) in
          rd16 d' L3 = meta_snat_port m \<and> rd16 d' (L3 + 2) = meta_backend_port m
          \<and> rd_bytes d' IP_DST 2 = le16 (udptcp_cksum ex_dpdk (wr16_raw d' IP_DST 0) L3 L3)
          \<and> rd16 d' (IP_DST + 2) = ucast (ip_value (meta_backend_ip m)))" by blast
  have "ucast (0x0A000101 :: u32) = (0x0101 :: u16)" by simp
  with m(2) [rule_format, of "(mb_meta mb')\<lparr>meta_dir := kForward, meta_snat_port := 50000, meta_backend_ip := \<lparr>ip_value = 0x0A000101\<rparr>\<rparr>"] m(1)
  show ?thesis by (simp add: Let_def)
qed

end
