(* ===== verification/Core_Steps.thy ===== *)
theory Core_Steps
  imports Wire_Frames
begin

text \<open>
  The cores of \<open>dataplane/src/main.cpp\<close> as step machines, so that several of them can be interleaved: a step
  is a test of a loop, the taking of a node off the dispatcher's queue, or one call of a node's
  \<open>Process\<close> with the routing of its outputs. Run alone, the machine computes what \<open>LcoreMain\<close> does.
\<close>

section \<open>A pass in steps\<close>

definition released :: "nat \<Rightarrow> 'p Dispatcher \<Rightarrow> 'p Dispatcher" where
  "released f st = st\<lparr>dp_pool := FP_Release f (dp_pool st)\<rparr>"

text \<open>The packets at the nodes and in the frames being drained.\<close>

definition flight :: "nat list \<Rightarrow> 'p Dispatcher \<Rightarrow> 'p multiset" where
  "flight fs st = waiting st + load (fp_storage (dp_pool st)) (mset fs)"

context node_net
begin

text \<open>The dispatcher between two frames of the node it drains.\<close>

definition draining :: "nat \<Rightarrow> nat list \<Rightarrow> 'w \<Rightarrow> 'p Dispatcher \<Rightarrow> bool" where
  "draining n fs w st \<longleftrightarrow> okw w \<and> n < length (gr_nodes g) \<and> disp_ok (length (gr_nodes g)) fs st \<and> all_queued st
     \<and> (n = root \<longrightarrow> (\<forall>f \<in> set fs. frame_at st f = [])) \<and> root \<notin> set (dp_queue st)"

lemma claim_draining:
  assumes r: "ready w st" and ne: "dp_queue st \<noteq> []"
  shows "draining (last (dp_queue st)) (dp_pending st ! last (dp_queue st)) w (claimed st)"
    and "flight (dp_pending st ! last (dp_queue st)) (claimed st) = waiting st"
    and "set (dp_queue (claimed st)) = set (dp_queue st) - {last (dp_queue st)}"
proof -
  let ?n = "last (dp_queue st)"
  have rd: "okw w" "disp_ok (length (gr_nodes g)) [] st" "all_queued st" using r by (simp_all add: ready_def)
  note cl = claimed_ok [OF rd(2,3) ne]
  have sel: "dp_pool (claimed st) = dp_pool st" "dp_pending (claimed st) = (dp_pending st)[?n := []]"
    by (simp_all add: claimed_def popped_def)
  have root: "?n = root \<longrightarrow> (\<forall>f \<in> set (dp_pending st ! ?n). frame_at (claimed st) f = [])"
    using r ne unfolding ready_def sel by (metis last_in_set)
  have "root \<notin> set (dp_queue (claimed st))" using r cl(4) unfolding ready_def by (auto split: if_splits)
  with rd(1) cl(1-3) root show "draining ?n (dp_pending st ! ?n) w (claimed st)" by (simp add: draining_def)
  show "flight (dp_pending st ! ?n) (claimed st) = waiting st"
    unfolding flight_def waiting_def sel cl(5) [symmetric] by simp
  show "set (dp_queue (claimed st)) = set (dp_queue st) - {?n}" by (rule cl(4))
qed

lemma drained_ready: "draining n [] w st \<Longrightarrow> ready w st" "flight [] st = waiting st"
  by (simp_all add: draining_def ready_def flight_def)

lemma ready_empty:
  assumes "ready w st" and "dp_queue st = []"
  shows "waiting st = {#}" and "disp_ok (length (gr_nodes g)) [] st"
proof -
  have "\<forall>n < length (gr_nodes g). dp_pending st ! n = []" using assms by (auto simp: ready_def disp_ok_def all_queued_def)
  then have "concat (dp_pending st) = []" using assms by (auto simp: ready_def disp_ok_def in_set_conv_nth)
  then show "waiting st = {#}" by (simp only: waiting_def mset.simps load_add)
  show "disp_ok (length (gr_nodes g)) [] st" using assms by (simp add: ready_def)
qed

lemma frame_step:
  assumes d: "draining n (f # fs) w st"
  obtains w' st' where "RunNode proc g n f w st = Inr (w', st')" "draining n fs w' (released f st')"
    "came w + gone w' + image_mset ident (flight fs (released f st')) = came w' + gone w + image_mset ident (flight (f # fs) st)"
    "set (dp_queue (released f st')) \<subseteq> set (dp_queue st) \<union> targets n"
proof -
  have dr: "okw w" "n < length (gr_nodes g)" "disp_ok (length (gr_nodes g)) (f # fs) st" "all_queued st"
    "n = root \<Longrightarrow> \<forall>f \<in> set (f # fs). frame_at st f = []" "root \<notin> set (dp_queue st)" using d by (simp_all add: draining_def)
  from RunNode_ok [OF dr(1-4)] dr(5) obtain w' st' where h: "RunNode proc g n f w st = Inr (w', st')" "okw w'"
    "disp_ok (length (gr_nodes g)) (f # fs) st'" "all_queued st'"
    "came w + gone w' + image_mset ident (waiting st') = came w' + gone w + image_mset ident (waiting st + mset (frame_at st f))"
    "\<forall>h \<in> set fs. frame_at st' h = frame_at st h" "set (dp_queue st') \<subseteq> set (dp_queue st) \<union> targets n" by auto
  note rd = release_drained [OF h(3), folded released_def]
  have same: "frame_at (released f st') h = frame_at st h" if "h \<in> set fs" for h using rd(3) [OF that] h(6) that by simp
  have q: "dp_queue (released f st') = dp_queue st'" by (simp add: released_def)
  have "root \<notin> targets n" using wired [OF dr(2)] by (auto simp: targets_def)
  then have "root \<notin> set (dp_queue (released f st'))" using h(7) dr(6) q by auto
  moreover have "all_queued (released f st')" using h(4) by (simp add: all_queued_def released_def)
  ultimately have "draining n fs w' (released f st')"
    using h(2) dr(2,5) rd(1) same by (simp add: draining_def)
  moreover have "load (fp_storage (dp_pool (released f st'))) (mset fs) = load (fp_storage (dp_pool st)) (mset fs)"
    by (rule load_cong) (simp add: same)
  then have "came w + gone w' + image_mset ident (flight fs (released f st')) = came w' + gone w + image_mset ident (flight (f # fs) st)"
    using h(5) rd(2) by (simp add: flight_def ac_simps)
  ultimately show ?thesis using that h(1,7) q by simp
qed

end

context typed_net
begin

definition draining_typed :: "nat \<Rightarrow> nat list \<Rightarrow> 'b Dispatcher \<Rightarrow> bool" where
  "draining_typed n fs st \<longleftrightarrow> pend_typed pt st \<and> (\<forall>f \<in> set fs. \<forall>p \<in> set (frame_at st f). pt n p)"

lemma seeded_typed:
  assumes "okw w" and "disp_ok (length (gr_nodes g)) [] st"
  shows "pend_typed pt (seeded root st)"
proof -
  note sr = seeded_ready [OF assms]
  have "length (dp_pending (seeded root st)) = length (gr_nodes g)" using sr(1) by (simp add: ready_def disp_ok_def)
  with sr(4) show ?thesis by (simp add: pend_typed_def)
qed

lemma claim_typed:
  assumes r: "ready w st" and t: "pend_typed pt st" and ne: "dp_queue st \<noteq> []"
  shows "draining_typed (last (dp_queue st)) (dp_pending st ! last (dp_queue st)) (claimed st)"
proof -
  have rd: "disp_ok (length (gr_nodes g)) [] st" "all_queued st" using r by (simp_all add: ready_def)
  have n: "last (dp_queue st) < length (dp_pending st)" using claimed_ok(1) [OF rd ne] rd(1) by (simp add: disp_ok_def)
  have sel: "dp_pool (claimed st) = dp_pool st" "dp_pending (claimed st) = (dp_pending st)[last (dp_queue st) := []]"
    by (simp_all add: claimed_def popped_def)
  have "pend_typed pt (claimed st)" using t unfolding pend_typed_def sel
    by (metis length_list_update nth_list_update_eq nth_list_update_neq list.set(1) emptyE)
  with t n show ?thesis unfolding draining_typed_def pend_typed_def sel by simp
qed

lemma frame_typed:
  assumes d: "draining n (f # fs) w st" and g: "good w" and t: "draining_typed n (f # fs) st"
    and run: "RunNode proc g n f w st = Inr (w', st')"
  shows "good w'" and "draining_typed n fs (released f st')"
proof -
  have dr: "okw w" "n < length (gr_nodes g)" "disp_ok (length (gr_nodes g)) (f # fs) st" "all_queued st"
    "n = root \<Longrightarrow> frame_at st f = []" using d by (simp_all add: draining_def)
  have p: "pend_typed pt st" "\<forall>p \<in> set (frame_at st f). pt n p" using t by (simp_all add: draining_typed_def)
  note rt = RunNode_typed [OF dr(1) g dr(2,3,5) p run]
  from RunNode_ok [OF dr(1-5)] run have h: "disp_ok (length (gr_nodes g)) (f # fs) st'" "\<forall>h \<in> set fs. frame_at st' h = frame_at st h"
    by auto
  note rd = release_drained(3) [OF h(1), folded released_def]
  show "good w'" using rt by simp
  show "draining_typed n fs (released f st')"
    using release_drained_typed [OF h(1)] rt rd h(2) t by (simp add: draining_typed_def released_def)
qed

end

section \<open>The machine\<close>

text \<open>Where a core is: at the test of its loop; in the pass of one of its graphs, at the test of the
  dispatcher's loop or with frames of a node left to drain; or it has returned.\<close>

datatype core_pc = kLoop | kPass nat "(nat \<times> nat list) option" | kExit

record 'd core =
  co_arg :: LcoreArg
  co_graphs :: "(u16 \<times> node Graph) list"
  co_disps :: "mbuf Dispatcher list"
  co_world :: "'d world"
  co_pc :: core_pc

definition core_graph :: "'d core \<Rightarrow> nat \<Rightarrow> node Graph" where
  "core_graph c k = snd (co_graphs c ! k)"

definition begin_pass :: "nat \<Rightarrow> 'd core \<Rightarrow> 'd core" where
  "begin_pass k c = c\<lparr>co_disps := (co_disps c)[k := seeded (unat (fst (co_graphs c ! k))) (co_disps c ! k)], co_pc := kPass k None\<rparr>"

text \<open>The device state is shared by the cores: a step takes it and gives it back.\<close>

definition core_step :: "isa \<Rightarrow> dpdk \<Rightarrow> 'd dev \<Rightarrow> bool \<Rightarrow> 'd core \<Rightarrow> 'd \<Rightarrow> ('d core \<times> 'd) result" where
  "core_step I D V running c d =
     (case co_pc c of
        kLoop \<Rightarrow> Inr (if running then begin_pass 0 c else c\<lparr>co_pc := kExit\<rparr>, d)
      | kPass k None \<Rightarrow>
          let st = co_disps c ! k in
          if dp_queue st = []
          then Inr (if Suc k < length (co_graphs c) then begin_pass (Suc k) c else c\<lparr>co_pc := kLoop\<rparr>, d)
          else let n = last (dp_queue st)
               in Inr (c\<lparr>co_disps := (co_disps c)[k := claimed st], co_pc := kPass k (Some (n, dp_pending st ! n))\<rparr>, d)
      | kPass k (Some (n, [])) \<Rightarrow> Inr (c\<lparr>co_pc := kPass k None\<rparr>, d)
      | kPass k (Some (n, f # fs)) \<Rightarrow>
          bind_r (RunNode (proc_of I D (la_cfg (co_arg c)) V (core_graph c k)) (core_graph c k) n f
                    ((co_world c)\<lparr>w_dev := d\<rparr>) (co_disps c ! k)) (\<lambda>(w', st').
            Inr (c\<lparr>co_world := w', co_disps := (co_disps c)[k := released f st'], co_pc := kPass k (Some (n, fs))\<rparr>, w_dev w'))
      | kExit \<Rightarrow> Inr (c, d))"

definition core_of :: "LcoreArg \<Rightarrow> (u16 \<times> node Graph) list \<Rightarrow> 'd world \<Rightarrow> 'd core" where
  "core_of arg rgs w = \<lparr>co_arg = arg, co_graphs = rgs, co_disps = map (\<lambda>rg. Dispatcher_new (snd rg)) rgs, co_world = w, co_pc = kLoop\<rparr>"

text \<open>\<open>LcoreMain\<close> up to its loop.\<close>

definition Core_new :: "LcoreArg \<Rightarrow> 'd world \<Rightarrow> 'd core result option" where
  "Core_new arg w =
     (case la_role arg of
        kMono \<Rightarrow>
          (case BuildMonolithicGraph arg Graph_empty of
             Inl e \<Rightarrow> Some (Inl e)
           | Inr rg \<Rightarrow> with_lb (la_cfg arg) 0 1 w (\<lambda>w. Some (Inr (core_of arg [rg] w))))
      | kIo \<Rightarrow>
          (case bind_r (BuildRxGraph arg Graph_empty) (\<lambda>rx. bind_r (BuildTxGraph arg Graph_empty) (\<lambda>tx. Inr [rx, tx])) of
             Inl e \<Rightarrow> Some (Inl e)
           | Inr rgs \<Rightarrow> Some (Inr (core_of arg rgs w)))
      | kWorker \<Rightarrow>
          (case BuildWorkerGraph arg Graph_empty of
             Inl e \<Rightarrow> Some (Inl e)
           | Inr rg \<Rightarrow> with_lb (la_cfg arg) (la_worker_id arg) (ucast (la_n_workers arg)) w (\<lambda>w. Some (Inr (core_of arg [rg] w)))))"

section \<open>Run alone, the machine is \<open>LcoreMain\<close>\<close>

text \<open>A core alone on the device, with \<open>g_running\<close> true for \<open>rounds\<close> tests of its loop.\<close>

partial_function (option) run_core :: "isa \<Rightarrow> dpdk \<Rightarrow> 'd dev \<Rightarrow> nat \<Rightarrow> 'd core \<Rightarrow> 'd \<Rightarrow> ('d core \<times> 'd) result option" where
  "run_core I D V rounds c d =
     (if co_pc c = kExit then Some (Inr (c, d))
      else case core_step I D V (co_pc c \<noteq> kLoop \<or> 0 < rounds) c d of
        Inl e \<Rightarrow> Some (Inl e)
      | Inr (c', d') \<Rightarrow> run_core I D V (if co_pc c = kLoop then rounds - 1 else rounds) c' d')"

text \<open>The core with the given world, dispatcher and position.\<close>

definition core_at :: "'d core \<Rightarrow> nat \<Rightarrow> 'd world \<Rightarrow> mbuf Dispatcher \<Rightarrow> core_pc \<Rightarrow> 'd core" where
  "core_at c k w st pc = c\<lparr>co_world := w, co_disps := (co_disps c)[k := st], co_pc := pc\<rparr>"

lemma core_at_sel [simp]:
  "co_pc (core_at c k w st pc) = pc" "co_world (core_at c k w st pc) = w" "co_arg (core_at c k w st pc) = co_arg c"
  "co_graphs (core_at c k w st pc) = co_graphs c" "length (co_disps (core_at c k w st pc)) = length (co_disps c)"
  "core_graph (core_at c k w st pc) j = core_graph c j"
  "k < length (co_disps c) \<Longrightarrow> co_disps (core_at c k w st pc) ! k = st"
  "core_at (core_at c k w st pc) k w' st' pc' = core_at c k w' st' pc'"
  by (simp_all add: core_at_def core_graph_def)

lemma run_drain:
  assumes "drain_loop (proc_of I D (la_cfg (co_arg c)) V (core_graph c k)) (core_graph c k) n fs w st = Inr (w', st')"
    and "k < length (co_disps c)"
  shows "run_core I D V r (core_at c k w st (kPass k (Some (n, fs)))) (w_dev w) = run_core I D V r (core_at c k w' st' (kPass k None)) (w_dev w')"
  using assms(1)
proof (induction fs arbitrary: w st)
  case Nil
  then show ?case by (subst run_core.simps) (simp add: core_step_def core_at_def)
next
  case (Cons f fs)
  obtain w1 st1 where h: "RunNode (proc_of I D (la_cfg (co_arg c)) V (core_graph c k)) (core_graph c k) n f w st = Inr (w1, st1)"
    "drain_loop (proc_of I D (la_cfg (co_arg c)) V (core_graph c k)) (core_graph c k) n fs w1 (released f st1) = Inr (w', st')"
    using Cons.prems by (auto simp: bind_r_def released_def split: sum.splits)
  have "run_core I D V r (core_at c k w st (kPass k (Some (n, f # fs)))) (w_dev w)
      = run_core I D V r (core_at c k w1 (released f st1) (kPass k (Some (n, fs)))) (w_dev w1)"
    using h(1) assms(2) by (subst run_core.simps) (simp add: core_step_def, simp add: core_at_def)
  with Cons.IH [OF h(2)] show ?case by simp
qed

lemma run_dispatch:
  assumes loop: "dispatch_loop (proc_of I D (la_cfg (co_arg c)) V (core_graph c k)) (core_graph c k) w st = Some (Inr (w', st'))"
    and k: "k < length (co_disps c)"
  shows "run_core I D V r (core_at c k w st (kPass k None)) (w_dev w) = run_core I D V r (core_at c k w' st' (kPass k None)) (w_dev w')
    \<and> dp_queue st' = []"
proof -
  let ?proc = "proc_of I D (la_cfg (co_arg c)) V (core_graph c k)" and ?g = "core_graph c k"
  let ?P = "\<lambda>proc g w st (y :: (_ \<times> _) result). proc = ?proc \<and> g = ?g \<and> y = Inr (w', st') \<longrightarrow>
    run_core I D V r (core_at c k w st (kPass k None)) (w_dev w) = run_core I D V r (core_at c k w' st' (kPass k None)) (w_dev w')
    \<and> dp_queue st' = []"
  have "?P ?proc ?g w st (Inr (w', st'))"
  proof (rule dispatch_loop.raw_induct [where P = ?P, OF _ loop], intro impI)
    fix dl proc g w st y
    assume IH: "\<And>proc g w st y. dl proc g w st = Some y \<Longrightarrow> ?P proc g w st y"
      and body: "(if dp_queue st = [] then Some (Inr (w, st))
        else let n = last (dp_queue st); st1 = st\<lparr>dp_queue := butlast (dp_queue st), dp_scheduled := (dp_scheduled st)[n := 0]\<rparr>
             in case DrainNode proc g n w st1 of Inl e \<Rightarrow> Some (Inl e) | Inr (w', st') \<Rightarrow> dl proc g w' st') = Some y"
      and a: "proc = ?proc \<and> g = ?g \<and> y = Inr (w', st')"
    let ?n = "last (dp_queue st)"
    show "run_core I D V r (core_at c k w st (kPass k None)) (w_dev w) = run_core I D V r (core_at c k w' st' (kPass k None)) (w_dev w')
        \<and> dp_queue st' = []"
    proof (cases "dp_queue st = []")
      case True
      with body a show ?thesis by simp
    next
      case False
      obtain w1 st1 where h: "DrainNode ?proc ?g ?n w (popped st) = Inr (w1, st1)" "dl ?proc ?g w1 st1 = Some (Inr (w', st'))"
        using body False a by (auto simp: Let_def popped_def split: sum.splits)
      have "run_core I D V r (core_at c k w st (kPass k None)) (w_dev w)
          = run_core I D V r (core_at c k w (claimed st) (kPass k (Some (?n, dp_pending st ! ?n)))) (w_dev w)"
        using False k by (subst run_core.simps) (simp add: core_step_def Let_def, simp add: core_at_def)
      also have "\<dots> = run_core I D V r (core_at c k w1 st1 (kPass k None)) (w_dev w1)"
        using h(1) k by (intro run_drain) (simp_all add: DrainNode_popped)
      finally show ?thesis using IH [OF h(2)] by simp
    qed
  qed
  then show ?thesis by simp
qed

lemma run_pass:
  assumes "pass I D (la_cfg (co_arg c)) V (co_graphs c ! k) (w, st) = Some (Inr (w', st'))" and "k < length (co_disps c)"
  shows "run_core I D V r (begin_pass k (core_at c k w st pc)) (w_dev w) = run_core I D V r (core_at c k w' st' (kPass k None)) (w_dev w')"
    and "dp_queue st' = []"
proof -
  have "begin_pass k (core_at c k w st pc) = core_at c k w (seeded (unat (fst (co_graphs c ! k))) st) (kPass k None)"
    using assms(2) by (simp add: begin_pass_def core_at_def)
  with run_dispatch [of I D c V k w "seeded (unat (fst (co_graphs c ! k))) st" w' st' r] assms
  show "run_core I D V r (begin_pass k (core_at c k w st pc)) (w_dev w) = run_core I D V r (core_at c k w' st' (kPass k None)) (w_dev w')"
    and "dp_queue st' = []" by (simp_all add: pass_def RunOnce_seeded core_graph_def)
qed

abbreviation core_with :: "LcoreArg \<Rightarrow> (u16 \<times> node Graph) list \<Rightarrow> mbuf Dispatcher list \<Rightarrow> 'd world \<Rightarrow> core_pc \<Rightarrow> 'd core" where
  "core_with arg rgs ds w pc \<equiv> \<lparr>co_arg = arg, co_graphs = rgs, co_disps = ds, co_world = w, co_pc = pc\<rparr>"

lemma run_exit: "run_core I D V 0 (core_with arg rgs ds w kLoop) d = Some (Inr (core_with arg rgs ds w kExit, d))"
  by (subst run_core.simps, simp add: core_step_def) (subst run_core.simps, simp)

lemma run_single_round:
  assumes p: "pass I D (la_cfg arg) V rg (w, st) = Some (Inr (w', st'))"
  shows "run_core I D V (Suc r) (core_with arg [rg] [st] w kLoop) (w_dev w) = run_core I D V r (core_with arg [rg] [st'] w' kLoop) (w_dev w')"
proof -
  let ?c = "core_with arg [rg] [st] w kLoop"
  have at: "core_at ?c 0 w1 st1 pc = core_with arg [rg] [st1] w1 pc" for w1 st1 pc by (simp add: core_at_def)
  have r1: "run_core I D V r (begin_pass 0 ?c) (w_dev w) = run_core I D V r (core_with arg [rg] [st'] w' (kPass 0 None)) (w_dev w')" "dp_queue st' = []"
    using run_pass(1) [of I D ?c V 0 w st w' st' r kLoop] run_pass(2) [of I D ?c V 0 w st w' st'] p unfolding at by simp_all
  have "run_core I D V (Suc r) ?c (w_dev w) = run_core I D V r (begin_pass 0 ?c) (w_dev w)"
    by (subst run_core.simps) (simp add: core_step_def)
  also note r1(1)
  also have "run_core I D V r (core_with arg [rg] [st'] w' (kPass 0 None)) (w_dev w') = run_core I D V r (core_with arg [rg] [st'] w' kLoop) (w_dev w')"
    using r1(2) by (subst run_core.simps) (simp add: core_step_def Let_def)
  finally show ?thesis .
qed

lemma run_single:
  assumes "passes (pass I D (la_cfg arg) V rg) r (w, st) = Some (Inr (w', st'))"
  shows "run_core I D V r (core_with arg [rg] [st] w kLoop) (w_dev w) = Some (Inr (core_with arg [rg] [st'] w' kExit, w_dev w'))"
  using assms
proof (induction r arbitrary: w st)
  case 0
  then show ?case by (simp add: run_exit)
next
  case (Suc r)
  obtain w1 st1 where "pass I D (la_cfg arg) V rg (w, st) = Some (Inr (w1, st1))" "passes (pass I D (la_cfg arg) V rg) r (w1, st1) = Some (Inr (w', st'))"
    using Suc.prems by (auto split: option.splits sum.splits)
  with run_single_round [of I D arg V rg w st w1 st1 r] Suc.IH show ?case by simp
qed

lemma run_double_round:
  assumes p: "pass I D (la_cfg arg) V rx (w, s1) = Some (Inr (w1, s1'))" "pass I D (la_cfg arg) V tx (w1, s2) = Some (Inr (w2, s2'))"
  shows "run_core I D V (Suc r) (core_with arg [rx, tx] [s1, s2] w kLoop) (w_dev w) = run_core I D V r (core_with arg [rx, tx] [s1', s2'] w2 kLoop) (w_dev w2)"
proof -
  let ?c = "core_with arg [rx, tx] [s1, s2] w kLoop" and ?c1 = "core_with arg [rx, tx] [s1', s2] w1 (kPass 0 None)"
  have at: "core_at ?c 0 v st pc = core_with arg [rx, tx] [st, s2] v pc" "core_at ?c1 1 v st pc = core_with arg [rx, tx] [s1', st] v pc" for v st pc
    by (simp_all add: core_at_def)
  have r1: "run_core I D V r (begin_pass 0 ?c) (w_dev w) = run_core I D V r ?c1 (w_dev w1)" "dp_queue s1' = []"
    using run_pass(1) [of I D ?c V 0 w s1 w1 s1' r kLoop] run_pass(2) [of I D ?c V 0 w s1 w1 s1'] p(1) unfolding at by simp_all
  have r2: "run_core I D V r (begin_pass 1 ?c1) (w_dev w1) = run_core I D V r (core_with arg [rx, tx] [s1', s2'] w2 (kPass 1 None)) (w_dev w2)" "dp_queue s2' = []"
    using run_pass(1) [of I D ?c1 V 1 w1 s2 w2 s2' r "kPass 0 None"] run_pass(2) [of I D ?c1 V 1 w1 s2 w2 s2'] p(2) unfolding at by simp_all
  have "run_core I D V (Suc r) ?c (w_dev w) = run_core I D V r (begin_pass 0 ?c) (w_dev w)"
    by (subst run_core.simps) (simp add: core_step_def)
  also note r1(1)
  also have "run_core I D V r ?c1 (w_dev w1) = run_core I D V r (begin_pass 1 ?c1) (w_dev w1)"
    using r1(2) by (subst run_core.simps) (simp add: core_step_def Let_def)
  also note r2(1)
  also have "run_core I D V r (core_with arg [rx, tx] [s1', s2'] w2 (kPass 1 None)) (w_dev w2) = run_core I D V r (core_with arg [rx, tx] [s1', s2'] w2 kLoop) (w_dev w2)"
    using r2(2) by (subst run_core.simps) (simp add: core_step_def Let_def)
  finally show ?thesis .
qed

lemma run_double:
  assumes "passes (io_pass I D (la_cfg arg) V rx tx) r (w, s1, s2) = Some (Inr (w', s1', s2'))"
  shows "run_core I D V r (core_with arg [rx, tx] [s1, s2] w kLoop) (w_dev w) = Some (Inr (core_with arg [rx, tx] [s1', s2'] w' kExit, w_dev w'))"
  using assms
proof (induction r arbitrary: w s1 s2)
  case 0
  then show ?case by (simp add: run_exit)
next
  case (Suc r)
  obtain w1 t1 t2 where i: "io_pass I D (la_cfg arg) V rx tx (w, s1, s2) = Some (Inr (w1, t1, t2))"
    and rest: "passes (io_pass I D (la_cfg arg) V rx tx) r (w1, t1, t2) = Some (Inr (w', s1', s2'))"
    using Suc.prems by (auto split: option.splits sum.splits)
  obtain w0 where "pass I D (la_cfg arg) V rx (w, s1) = Some (Inr (w0, t1))" "pass I D (la_cfg arg) V tx (w0, s2) = Some (Inr (w1, t2))"
    using i by (auto simp: io_pass_def map_sum_Inr_iff split: option.splits sum.splits)
  from run_double_round [OF this, of r] Suc.IH [OF rest] show ?case by simp
qed

text \<open>
  C9. The step machine refines \<open>LcoreMain\<close>. Whatever its role, the core that is set up for an
  argument, run alone with as many rounds, returns, and its world is the one \<open>LcoreMain\<close> returns.
\<close>

theorem core_refines_main:
  assumes "dev_ok V" and "fresh w" and "arg_ok arg"
  shows "\<exists>c c' w'. Core_new arg w = Some (Inr c) \<and> run_core I D V rounds c (w_dev w) = Some (Inr (c', w_dev w'))
    \<and> co_pc c' = kExit \<and> co_world c' = w' \<and> LcoreMain I D V arg rounds w = Some (Inr w')"
proof -
  obtain w' where run: "LcoreMain I D V arg rounds w = Some (Inr w')" using LcoreMain_runs [OF assms] by blast
  have lb: "\<exists>c c'. with_lb cfg a b w (\<lambda>w. Some (Inr (core_of arg [rg] w))) = Some (Inr c)
      \<and> run_core I D V rounds c (w_dev w) = Some (Inr (c', w_dev w')) \<and> co_pc c' = kExit \<and> co_world c' = w'"
    if lbrun: "with_lb cfg a b w (\<lambda>w. map_option (map_sum id fst) (passes (pass I D (la_cfg arg) V rg) rounds (w, Dispatcher_new (snd rg)))) = Some (Inr w')"
    for cfg a b rg
  proof -
    obtain lb where new: "LbNode_new kNatDefaultCapacity cfg (w_stats w) a b = Some (Inr lb)" by (rule with_lb_eq)
    then obtain st' where "passes (pass I D (la_cfg arg) V rg) rounds (w\<lparr>w_lb := Some lb\<rparr>, Dispatcher_new (snd rg)) = Some (Inr (w', st'))"
      using lbrun by (auto simp: with_lb_def map_sum_Inr_iff)
    from run_single [OF this] new show ?thesis by (simp add: with_lb_def core_of_def)
  qed
  show ?thesis
  proof (cases "la_role arg")
    case kMono
    then show ?thesis using lb [of "la_cfg arg" 0 1 "(0, mono_graph arg)"] run
      by (auto simp: Core_new_def LcoreMain_def RunMono_def BuildMonolithicGraph_eq)
  next
    case kIo
    then obtain s1 s2 where "passes (io_pass I D (la_cfg arg) V (0, rx_graph arg) (0, tx_graph arg)) rounds
        (w, Dispatcher_new (rx_graph arg), Dispatcher_new (tx_graph arg)) = Some (Inr (w', s1, s2))"
      using run by (auto simp: LcoreMain_def RunIo_def BuildRxGraph_eq BuildTxGraph_eq map_sum_Inr_iff)
    from run_double [OF this] kIo run show ?thesis
      by (simp add: Core_new_def BuildRxGraph_eq BuildTxGraph_eq core_of_def)
  next
    case kWorker
    then show ?thesis using lb [of "la_cfg arg" "la_worker_id arg" "ucast (la_n_workers arg)" "(0, worker_graph arg)"] run
      by (auto simp: Core_new_def LcoreMain_def RunWorker_def BuildWorkerGraph_eq)
  qed
qed

theorem core_refines_main_witness:
  "\<exists>c c' w'. Core_new ex_arg ex_world = Some (Inr c) \<and> run_core Generic ex_dpdk ex_dev 3 c [ex_mbuf] = Some (Inr (c', w_dev w'))
    \<and> co_world c' = w' \<and> LcoreMain Generic ex_dpdk ex_dev ex_arg 3 ex_world = Some (Inr w')"
proof -
  have "fresh ex_world" "arg_ok ex_arg" "w_dev ex_world = [ex_mbuf]" by (simp_all add: fresh_def ex_world_def arg_ok_def ex_arg_def)
  with core_refines_main [OF ex_dev_ok, of ex_world ex_arg Generic ex_dpdk 3] show ?thesis by auto
qed

end
