(* ===== verification/Core_Inv.thy ===== *)
theory Core_Inv
  imports Core_Steps
begin

text \<open>
  The invariant of a core between any two of its steps, on a device state that others may change in
  the meantime as long as they keep what the core relies on. Every step keeps it, never fails, and once
  the program has been told to stop leaves less work.
\<close>

section \<open>The graphs of a core\<close>

definition n_graphs :: "LcoreArg \<Rightarrow> nat" where
  "n_graphs arg = (if la_role arg = kIo then 2 else 1)"

definition arg_graph :: "LcoreArg \<Rightarrow> nat \<Rightarrow> node Graph" where
  "arg_graph arg k =
     (case la_role arg of
        kMono \<Rightarrow> mono_graph arg
      | kIo \<Rightarrow> if k = 0 then rx_graph arg else tx_graph arg
      | kWorker \<Rightarrow> worker_graph arg)"

definition arg_nodes :: "LcoreArg \<Rightarrow> node list" where
  "arg_nodes arg = concat (map (\<lambda>k. gr_nodes (arg_graph arg k)) [0..<2])"

definition arg_rank :: "LcoreArg \<Rightarrow> nat \<Rightarrow> nat" where
  "arg_rank arg = (if la_role arg = kMono then mono_rank else id)"

lemma two_upt: "[0..<2] = [0, 1 :: nat]"
  by (simp add: upt_rec)

lemma arg_graph_ok: "graph_ok (arg_rank arg) 0 (arg_graph arg k)"
  by (cases "la_role arg") (simp_all add: arg_graph_def arg_rank_def mono_graph_ok rx_graph_ok tx_graph_ok worker_graph_ok)

lemma arg_nodes_sub: "set (gr_nodes (arg_graph arg k)) \<subseteq> set (arg_nodes arg)"
  by (cases "la_role arg") (auto simp: arg_graph_def arg_nodes_def two_upt)

lemma arg_nodes_lb: "LbNode a b \<in> set (arg_nodes arg) \<Longrightarrow> LbNode a' b' \<in> set (arg_nodes arg) \<Longrightarrow> a' = a \<and> b' = b"
  by (cases "la_role arg") (auto simp: arg_nodes_def arg_graph_def two_upt mono_graph_def rx_graph_def tx_graph_def worker_graph_def)

lemma arg_edges:
  assumes "rings_apart arg"
  shows "edges_typed D cfg B Z (la_egress arg) (arg_graph arg k)"
  using assms mono_edges [of D cfg B Z "la_egress arg" arg] worker_edges [of arg D cfg B Z] rx_edges [of arg D cfg B Z] tx_edges [of D cfg B Z arg]
  by (cases "la_role arg") (simp_all add: arg_graph_def rings_apart_def)

interpretation net: typed_net "proc_of I D cfg V (arg_graph arg k)" "arg_graph arg k" 0 "arg_rank arg"
    "world_ok I V s (arg_nodes arg)" world_came world_gone mb_id
    "\<lambda>n. node_pt D cfg B Z eg (gr_nodes (arg_graph arg k) ! n)" "frames_in D cfg V B Z eg K (arg_graph arg k)"
  for I D cfg V s arg k B Z eg K by (rule typed_net_of_nodes [OF arg_graph_ok arg_nodes_sub]) (rule arg_nodes_lb)

section \<open>A core between two steps\<close>

abbreviation core_ready :: "isa \<Rightarrow> 'd dev \<Rightarrow> LcoreStats \<Rightarrow> LcoreArg \<Rightarrow> nat \<Rightarrow> 'd world \<Rightarrow> mbuf Dispatcher \<Rightarrow> bool" where
  "core_ready I V s arg k \<equiv> node_net.ready (arg_graph arg k) 0 (world_ok I V s (arg_nodes arg))"

abbreviation core_draining :: "isa \<Rightarrow> 'd dev \<Rightarrow> LcoreStats \<Rightarrow> LcoreArg \<Rightarrow> nat \<Rightarrow> nat \<Rightarrow> nat list \<Rightarrow> 'd world \<Rightarrow> mbuf Dispatcher \<Rightarrow> bool" where
  "core_draining I V s arg k \<equiv> node_net.draining (arg_graph arg k) 0 (world_ok I V s (arg_nodes arg))"

abbreviation core_pt :: "dpdk \<Rightarrow> BackendInfo set \<Rightarrow> nat set \<Rightarrow> LcoreArg \<Rightarrow> nat \<Rightarrow> nat \<Rightarrow> mbuf \<Rightarrow> bool" where
  "core_pt D B Z arg k \<equiv> \<lambda>n. node_pt D (la_cfg arg) B Z (la_egress arg) (gr_nodes (arg_graph arg k) ! n)"

fun disp_at :: "isa \<Rightarrow> dpdk \<Rightarrow> 'd dev \<Rightarrow> BackendInfo set \<Rightarrow> nat set \<Rightarrow> LcoreStats \<Rightarrow> LcoreArg \<Rightarrow> nat \<Rightarrow> 'd world \<Rightarrow> mbuf Dispatcher
    \<Rightarrow> (nat \<times> nat list) option \<Rightarrow> bool" where
  "disp_at I D V B Z s arg k w st None \<longleftrightarrow> core_ready I V s arg k w st \<and> pend_typed (core_pt D B Z arg k) st"
| "disp_at I D V B Z s arg k w st (Some (n, fs)) \<longleftrightarrow>
     core_draining I V s arg k n fs w st \<and> typed_net.draining_typed (core_pt D B Z arg k) n fs st"

definition pc_ok :: "isa \<Rightarrow> dpdk \<Rightarrow> 'd dev \<Rightarrow> BackendInfo set \<Rightarrow> nat set \<Rightarrow> LcoreStats \<Rightarrow> 'd core \<Rightarrow> bool" where
  "pc_ok I D V B Z s c \<longleftrightarrow> (case co_pc c of
       kPass k x \<Rightarrow> k < n_graphs (co_arg c) \<and> disp_at I D V B Z s (co_arg c) k (co_world c) (co_disps c ! k) x
         \<and> (\<forall>j < n_graphs (co_arg c). j \<noteq> k \<longrightarrow> disp_ok (length (gr_nodes (arg_graph (co_arg c) j))) [] (co_disps c ! j))
     | _ \<Rightarrow> \<forall>j < n_graphs (co_arg c). disp_ok (length (gr_nodes (arg_graph (co_arg c) j))) [] (co_disps c ! j))"

text \<open>The packets a core holds.\<close>

definition core_flight :: "'d core \<Rightarrow> mbuf multiset" where
  "core_flight c = (case co_pc c of
       kPass k None \<Rightarrow> flight [] (co_disps c ! k)
     | kPass k (Some (n, fs)) \<Rightarrow> flight fs (co_disps c ! k)
     | _ \<Rightarrow> {#})"

definition local_frames :: "dpdk \<Rightarrow> Config \<Rightarrow> BackendInfo set \<Rightarrow> nat set \<Rightarrow> nat \<Rightarrow> 'd world \<Rightarrow> bool" where
  "local_frames D cfg B Z eg w \<longleftrightarrow> (\<forall>lb. w_lb w = Some lb \<longrightarrow> flows_all (flow_of B) (lb_nat lb))
     \<and> (\<forall>m \<in> set (w_sent w). sendable D cfg B Z m) \<and> (\<forall>(r, m) \<in> set (w_ringed w). ring_pt D cfg B Z eg r m)"

definition core_ok :: "isa \<Rightarrow> dpdk \<Rightarrow> 'd dev \<Rightarrow> BackendInfo set \<Rightarrow> nat set \<Rightarrow> LcoreStats \<Rightarrow> 'd core \<Rightarrow> bool" where
  "core_ok I D V B Z s c \<longleftrightarrow>
     co_graphs c = map (\<lambda>k. (0, arg_graph (co_arg c) k)) [0..<n_graphs (co_arg c)] \<and> length (co_disps c) = n_graphs (co_arg c)
     \<and> world_ok I V s (arg_nodes (co_arg c)) (co_world c) \<and> rings_apart (co_arg c)
     \<and> local_frames D (la_cfg (co_arg c)) B Z (la_egress (co_arg c)) (co_world c) \<and> pc_ok I D V B Z s c
     \<and> world_gone (co_world c) + image_mset mb_id (core_flight c) = world_came (co_world c)"

lemma frames_ok_local: "frames_ok D cfg V B Z eg K w \<longleftrightarrow> env_ok D cfg V B Z eg K \<and> local_frames D cfg B Z eg w \<and> K (w_dev w)"
  by (auto simp: frames_ok_def local_frames_def)

lemma world_dev [simp]:
  "world_ok I V s nodes (w\<lparr>w_dev := d\<rparr>) = world_ok I V s nodes w" "local_frames D cfg B Z eg (w\<lparr>w_dev := d\<rparr>) = local_frames D cfg B Z eg w"
  "world_came (w\<lparr>w_dev := d\<rparr>) = world_came w" "world_gone (w\<lparr>w_dev := d\<rparr>) = world_gone w"
  by (simp_all add: world_ok_def counted_def local_frames_def world_came_def world_gone_def)

lemma n_graphs_pos: "0 < n_graphs arg"
  by (simp add: n_graphs_def)

lemma core_graph_eq: "core_ok I D V B Z s c \<Longrightarrow> k < n_graphs (co_arg c) \<Longrightarrow> core_graph c k = arg_graph (co_arg c) k \<and> unat (fst (co_graphs c ! k)) = 0"
  by (simp add: core_ok_def core_graph_def)

text \<open>Beginning a pass, and ending one.\<close>

lemma begin_ok:
  assumes ok: "core_ok I D V B Z s c" and pc: "co_pc c = kLoop" and k: "k < n_graphs (co_arg c)"
  shows "core_ok I D V B Z s (begin_pass k c)"
proof -
  let ?arg = "co_arg c" and ?st = "seeded 0 (co_disps c ! k)"
  have w: "world_ok I V s (arg_nodes ?arg) (co_world c)" and len: "length (co_disps c) = n_graphs ?arg" using ok by (simp_all add: core_ok_def)
  have d: "disp_ok (length (gr_nodes (arg_graph ?arg j))) [] (co_disps c ! j)" if "j < n_graphs ?arg" for j
    using ok pc that by (simp add: core_ok_def pc_ok_def)
  have c': "begin_pass k c = c\<lparr>co_disps := (co_disps c)[k := ?st], co_pc := kPass k None\<rparr>"
    using core_graph_eq [OF ok k] by (simp add: begin_pass_def)
  note sr = net.seeded_ready [OF w d [OF k]] and ty = net.seeded_typed [OF w d [OF k]]
  have "pc_ok I D V B Z s (begin_pass k c)"
    using sr(1) ty d k len by (simp add: pc_ok_def c')
  moreover have "core_flight (begin_pass k c) = {#}" "core_flight c = {#}"
    using sr(2) k len pc by (simp_all add: core_flight_def c' flight_def)
  ultimately show ?thesis using ok by (simp add: core_ok_def c')
qed

lemma end_ok:
  assumes ok: "core_ok I D V B Z s c" and pc: "co_pc c = kPass k None" and q: "dp_queue (co_disps c ! k) = []"
  shows "core_ok I D V B Z s (c\<lparr>co_pc := kLoop\<rparr>)"
proof -
  have k: "k < n_graphs (co_arg c)" "core_ready I V s (co_arg c) k (co_world c) (co_disps c ! k)"
    "\<forall>j < n_graphs (co_arg c). j \<noteq> k \<longrightarrow> disp_ok (length (gr_nodes (arg_graph (co_arg c) j))) [] (co_disps c ! j)"
    using ok pc by (simp_all add: core_ok_def pc_ok_def)
  note re = net.ready_empty [OF k(2) q]
  have "pc_ok I D V B Z s (c\<lparr>co_pc := kLoop\<rparr>)" using k(3) re(2) by (simp add: pc_ok_def) metis
  moreover have "core_flight c = {#}" "core_flight (c\<lparr>co_pc := kLoop\<rparr>) = {#}" using pc re(1) by (simp_all add: core_flight_def flight_def)
  ultimately show ?thesis using ok by (simp add: core_ok_def)
qed

lemma claim_ok:
  assumes ok: "core_ok I D V B Z s c" and pc: "co_pc c = kPass k None" and q: "dp_queue (co_disps c ! k) \<noteq> []"
  defines "st \<equiv> co_disps c ! k"
  shows "core_ok I D V B Z s (c\<lparr>co_disps := (co_disps c)[k := claimed st], co_pc := kPass k (Some (last (dp_queue st), dp_pending st ! last (dp_queue st)))\<rparr>)"
    (is "core_ok _ _ _ _ _ _ ?c")
proof -
  have k: "k < n_graphs (co_arg c)" "core_ready I V s (co_arg c) k (co_world c) st" "pend_typed (core_pt D B Z (co_arg c) k) st"
    "\<forall>j < n_graphs (co_arg c). j \<noteq> k \<longrightarrow> disp_ok (length (gr_nodes (arg_graph (co_arg c) j))) [] (co_disps c ! j)"
    using ok pc by (simp_all add: core_ok_def pc_ok_def st_def)
  have kl: "k < length (co_disps c)" using ok k(1) by (simp add: core_ok_def)
  note cl = net.claim_draining [OF k(2) q [folded st_def]] and ty = net.claim_typed [OF k(2,3) q [folded st_def]]
  have "pc_ok I D V B Z s ?c" using k(1,4) cl(1) ty kl by (simp add: pc_ok_def)
  moreover have "core_flight ?c = core_flight c" using pc cl(2) kl by (simp add: core_flight_def flight_def [of "[]"] st_def)
  ultimately show ?thesis using ok by (simp add: core_ok_def)
qed

lemma drained_ok:
  assumes ok: "core_ok I D V B Z s c" and pc: "co_pc c = kPass k (Some (n, []))"
  shows "core_ok I D V B Z s (c\<lparr>co_pc := kPass k None\<rparr>)"
proof -
  have "core_draining I V s (co_arg c) k n [] (co_world c) (co_disps c ! k)"
    "typed_net.draining_typed (core_pt D B Z (co_arg c) k) n [] (co_disps c ! k)" using ok pc by (simp_all add: core_ok_def pc_ok_def)
  then have "disp_at I D V B Z s (co_arg c) k (co_world c) (co_disps c ! k) None"
    by (simp add: net.drained_ready(1) net.draining_typed_def)
  then have "pc_ok I D V B Z s (c\<lparr>co_pc := kPass k None\<rparr>)" using ok pc by (simp add: core_ok_def pc_ok_def)
  moreover have "core_flight (c\<lparr>co_pc := kPass k None\<rparr>) = core_flight c" using pc by (simp add: core_flight_def)
  ultimately show ?thesis using ok by (simp add: core_ok_def)
qed

lemma disp_at_dev: "disp_at I D V B Z s arg k (w\<lparr>w_dev := d\<rparr>) st x = disp_at I D V B Z s arg k w st x"
  by (cases x) (auto simp: net.ready_def net.draining_def)

lemma frame_ok:
  assumes ok: "core_ok I D V B Z s c" and pc: "co_pc c = kPass k (Some (n, f # fs))"
    and env: "env_ok D (la_cfg (co_arg c)) V B Z (la_egress (co_arg c)) K" "K d"
  defines "w \<equiv> (co_world c)\<lparr>w_dev := d\<rparr>" and "st \<equiv> co_disps c ! k"
  obtains w' st' where "RunNode (proc_of I D (la_cfg (co_arg c)) V (core_graph c k)) (core_graph c k) n f w st = Inr (w', st')"
    "core_ok I D V B Z s (c\<lparr>co_world := w', co_disps := (co_disps c)[k := released f st'], co_pc := kPass k (Some (n, fs))\<rparr>)"
    "K (w_dev w')" "set (dp_queue (released f st')) \<subseteq> set (dp_queue st) \<union> node_net.targets (arg_graph (co_arg c) k) n"
proof -
  let ?arg = "co_arg c" and ?eg = "la_egress (co_arg c)" and ?cfg = "la_cfg (co_arg c)"
  have k: "k < n_graphs ?arg" "disp_at I D V B Z s ?arg k (co_world c) st (Some (n, f # fs))"
    "\<forall>j < n_graphs ?arg. j \<noteq> k \<longrightarrow> disp_ok (length (gr_nodes (arg_graph ?arg j))) [] (co_disps c ! j)"
    using ok pc by (simp_all add: core_ok_def pc_ok_def st_def)
  have kl: "k < length (co_disps c)" using ok k(1) by (simp add: core_ok_def)
  have g: "core_graph c k = arg_graph ?arg k" using core_graph_eq [OF ok k(1)] by simp
  have dr: "core_draining I V s ?arg k n (f # fs) w st" "typed_net.draining_typed (core_pt D B Z ?arg k) n (f # fs) st"
    using k(2) disp_at_dev [of I D V B Z s ?arg k d "co_world c" st "Some (n, f # fs)"] by (simp_all add: w_def)
  have fr: "frames_in D ?cfg V B Z ?eg K (arg_graph ?arg k) w"
    using ok env arg_edges [of ?arg D ?cfg B Z k] by (simp add: frames_in_def frames_ok_local w_def core_ok_def)
  obtain w' st' where h: "RunNode (proc_of I D ?cfg V (arg_graph ?arg k)) (arg_graph ?arg k) n f w st = Inr (w', st')"
    "core_draining I V s ?arg k n fs w' (released f st')"
    "world_came w + world_gone w' + image_mset mb_id (flight fs (released f st')) = world_came w' + world_gone w + image_mset mb_id (flight (f # fs) st)"
    "set (dp_queue (released f st')) \<subseteq> set (dp_queue st) \<union> node_net.targets (arg_graph ?arg k) n"
    by (rule net.frame_step [OF dr(1)])
  note ty = net.frame_typed [OF dr(1) fr dr(2) h(1)]
  let ?c = "c\<lparr>co_world := w', co_disps := (co_disps c)[k := released f st'], co_pc := kPass k (Some (n, fs))\<rparr>"
  have fo: "local_frames D ?cfg B Z ?eg w'" "K (w_dev w')" using ty(1) by (simp_all add: frames_in_def frames_ok_local)
  have "world_gone (co_world c) + image_mset mb_id (flight (f # fs) st) = world_came (co_world c)"
    using ok pc by (simp add: core_ok_def core_flight_def st_def)
  then have "world_gone w' + image_mset mb_id (flight fs (released f st')) = world_came w'"
    using h(3) by (simp add: w_def) (metis (no_types, lifting) add.assoc add.commute add_left_cancel)
  moreover have "pc_ok I D V B Z s ?c" using k(1,3) kl h(2) ty(2) by (simp add: pc_ok_def)
  moreover have "world_ok I V s (arg_nodes ?arg) w'" using h(2) by (simp add: net.draining_def)
  ultimately have "core_ok I D V B Z s ?c" using ok fo(1) kl by (simp add: core_ok_def core_flight_def)
  with that h(1,4) fo(2) g show ?thesis by simp
qed

text \<open>What is left of a core's work once the signal has come: passes of this round, nodes of the pass, frames of the node.\<close>

definition core_weight :: "LcoreArg \<Rightarrow> nat \<Rightarrow> nat set \<Rightarrow> nat" where
  "core_weight arg k = node_net.weight (arg_graph arg k) (arg_rank arg)"

definition core_targets :: "LcoreArg \<Rightarrow> nat \<Rightarrow> nat \<Rightarrow> nat set" where
  "core_targets arg k n = node_net.targets (arg_graph arg k) n"

fun work_left :: "LcoreArg \<Rightarrow> mbuf Dispatcher list \<Rightarrow> core_pc \<Rightarrow> nat \<times> nat \<times> nat" where
  "work_left arg ds kExit = (0, 0, 0)"
| "work_left arg ds kLoop = (1, 0, 0)"
| "work_left arg ds (kPass k None) = (2 + (n_graphs arg - k), core_weight arg k (set (dp_queue (ds ! k))), 0)"
| "work_left arg ds (kPass k (Some (n, fs))) =
     (2 + (n_graphs arg - k), core_weight arg k (set (dp_queue (ds ! k)) \<union> core_targets arg k n), Suc (length fs))"

definition work_less :: "((nat \<times> nat \<times> nat) \<times> (nat \<times> nat \<times> nat)) set" where
  "work_less = less_than <*lex*> less_than <*lex*> less_than"

lemma wf_work_less: "wf work_less"
  unfolding work_less_def by (intro wf_lex_prod wf_less_than)

lemma core_weight_mono: "finite Q \<Longrightarrow> Q' \<subseteq> Q \<Longrightarrow> core_weight arg k Q' \<le> core_weight arg k Q"
  unfolding core_weight_def net.weight_def by (rule sum_mono2) auto

lemma core_step_ok:
  assumes ok: "core_ok I D V B Z s c" and env: "env_ok D (la_cfg (co_arg c)) V B Z (la_egress (co_arg c)) K" "K d"
  shows "\<exists>c' d'. core_step I D V running c d = Inr (c', d') \<and> core_ok I D V B Z s c' \<and> K d' \<and> co_arg c' = co_arg c
    \<and> (co_pc c \<noteq> kExit \<and> (co_pc c = kLoop \<longrightarrow> \<not> running) \<longrightarrow>
        (work_left (co_arg c) (co_disps c') (co_pc c'), work_left (co_arg c) (co_disps c) (co_pc c)) \<in> work_less)"
proof (cases "co_pc c")
  case kLoop
  have "core_ok I D V B Z s (c\<lparr>co_pc := kExit\<rparr>)" using ok kLoop by (simp add: core_ok_def pc_ok_def core_flight_def)
  moreover have "co_arg (begin_pass 0 c) = co_arg c" by (simp add: begin_pass_def)
  ultimately show ?thesis
    using begin_ok [OF ok kLoop n_graphs_pos] kLoop env(2) by (cases running) (simp_all add: core_step_def work_less_def)
next
  case kExit
  with ok env(2) show ?thesis by (simp add: core_step_def)
next
  case (kPass k x)
  let ?st = "co_disps c ! k"
  have k: "k < n_graphs (co_arg c)" "length (co_graphs c) = n_graphs (co_arg c)" "k < length (co_disps c)"
    using ok kPass by (auto simp: core_ok_def pc_ok_def)
  show ?thesis
  proof (cases x)
    case None
    show ?thesis
    proof (cases "dp_queue ?st = []")
      case True
      note en = end_ok [OF ok kPass [unfolded None] True]
      have b: "begin_pass (Suc k) c = begin_pass (Suc k) (c\<lparr>co_pc := kLoop\<rparr>)" by (simp add: begin_pass_def)
      have "core_ok I D V B Z s (begin_pass (Suc k) c)" if "Suc k < n_graphs (co_arg c)"
        unfolding b using that by (intro begin_ok [OF en]) simp_all
      moreover have "n_graphs (co_arg c) - Suc k < n_graphs (co_arg c) - k" using k(1) by linarith
      ultimately show ?thesis using en True kPass None env(2) k(2)
        by (auto simp: core_step_def Let_def work_less_def) (simp_all add: begin_pass_def)
    next
      case False
      have r: "core_ready I V s (co_arg c) k (co_world c) ?st" using ok kPass None by (simp add: core_ok_def pc_ok_def)
      have Q: "set (dp_queue ?st) \<subseteq> {..<length (gr_nodes (arg_graph (co_arg c) k))}" using r by (simp add: net.ready_def disp_ok_def)
      note cl = net.claim_draining(3) [OF r False]
      have "core_weight (co_arg c) k (set (dp_queue (claimed ?st)) \<union> core_targets (co_arg c) k (last (dp_queue ?st)))
          < core_weight (co_arg c) k (set (dp_queue ?st))"
        unfolding core_weight_def core_targets_def cl using False by (intro net.weight_decreases [OF Q]) auto
      with claim_ok [OF ok kPass [unfolded None] False] kPass None False env(2) k show ?thesis
        by (simp add: core_step_def Let_def work_less_def)
    qed
  next
    case (Some y)
    obtain n fs where y: "y = (n, fs)" by fastforce
    show ?thesis
    proof (cases fs)
      case Nil
      have "core_weight (co_arg c) k (set (dp_queue ?st)) \<le> core_weight (co_arg c) k (set (dp_queue ?st) \<union> core_targets (co_arg c) k n)"
        by (rule core_weight_mono) (auto simp: core_targets_def net.targets_def)
      with drained_ok [OF ok, of k n] kPass Some y Nil env(2) show ?thesis by (auto simp: core_step_def work_less_def)
    next
      case (Cons f fs')
      have pc: "co_pc c = kPass k (Some (n, f # fs'))" using kPass Some y Cons by simp
      obtain w' st' where h: "RunNode (proc_of I D (la_cfg (co_arg c)) V (core_graph c k)) (core_graph c k) n f ((co_world c)\<lparr>w_dev := d\<rparr>) ?st = Inr (w', st')"
        "core_ok I D V B Z s (c\<lparr>co_world := w', co_disps := (co_disps c)[k := released f st'], co_pc := kPass k (Some (n, fs'))\<rparr>)"
        "K (w_dev w')" "set (dp_queue (released f st')) \<subseteq> set (dp_queue ?st) \<union> node_net.targets (arg_graph (co_arg c) k) n"
        by (rule frame_ok [OF ok pc env])
      have "core_weight (co_arg c) k (set (dp_queue (released f st')) \<union> core_targets (co_arg c) k n)
          \<le> core_weight (co_arg c) k (set (dp_queue ?st) \<union> core_targets (co_arg c) k n)"
        using h(4) by (intro core_weight_mono) (auto simp: core_targets_def net.targets_def)
      with h(1-3) pc k(3) show ?thesis by (auto simp: core_step_def work_less_def)
    qed
  qed
qed

section \<open>A core at its start\<close>

lemma core_of_ok:
  assumes w: "world_ok I V s (arg_nodes arg) w" "fresh w" "local_frames D (la_cfg arg) B Z (la_egress arg) w" and arg: "rings_apart arg"
    and gs: "gs = map (\<lambda>k. (0, arg_graph arg k)) [0..<n_graphs arg]"
  shows "core_ok I D V B Z s (core_of arg gs w)"
proof -
  have "disp_ok (length (gr_nodes (arg_graph arg k))) [] (Dispatcher_new (arg_graph arg k) :: mbuf Dispatcher)" for k
    using Dispatcher_new_ok [of "arg_graph arg k"] arg_graph_ok [of arg k] by (simp add: graph_ok_def)
  then show ?thesis using w arg fresh_start(1) [OF w(2)] by (simp add: core_ok_def core_of_def gs pc_ok_def core_flight_def)
qed

lemma Core_new_ok:
  assumes V: "dev_ok V" and w: "fresh w" "w_lb w = None" and arg: "arg_ok arg" "rings_apart arg"
  shows "\<exists>c. Core_new arg w = Some (Inr c) \<and> core_ok I D V B Z (w_stats w) c \<and> co_arg c = arg \<and> co_pc c = kLoop \<and> fresh (co_world c)"
proof -
  have lb: "\<exists>c. with_lb (la_cfg arg) a b w (\<lambda>w. Some (Inr (core_of arg gs w))) = Some (Inr c) \<and> core_ok I D V B Z (w_stats w) c
      \<and> co_arg c = arg \<and> co_pc c = kLoop \<and> fresh (co_world c)"
    if nodes: "\<And>a' b'. LbNode a' b' \<in> set (arg_nodes arg) \<Longrightarrow> a' = a \<and> b' = b" "\<And>rs n. SteerNode rs n \<notin> set (arg_nodes arg)"
      and gs: "gs = map (\<lambda>k. (0, arg_graph arg k)) [0..<n_graphs arg]" for a b gs
  proof -
    obtain lb where new: "LbNode_new kNatDefaultCapacity (la_cfg arg) (w_stats w) a b = Some (Inr lb)" by (rule with_lb_eq)
    let ?w = "w\<lparr>w_lb := Some lb\<rparr>"
    have f: "fresh ?w" using w by (simp add: fresh_def)
    have "lb_inv I (all_ports a b) lb" by (rule LbNode_new_inv [OF kNatDefaultCapacity_pow2 new])
    then have "world_ok I V (w_stats w) (arg_nodes arg) ?w" using V nodes fresh_start(2) [OF f] unfolding world_ok_def by simp blast
    moreover have "flows_all (flow_of B) (lb_nat lb)" using new
      by (cases "the (ForWorker a b kEphemeralLow kEphemeralHigh)") (auto simp: LbNode_new_def flows_all_new)
    then have "local_frames D (la_cfg arg) B Z (la_egress arg) ?w" using w by (simp add: local_frames_def fresh_def)
    ultimately show ?thesis using core_of_ok [OF _ f _ arg(2) gs] new f by (simp add: with_lb_def core_of_def)
  qed
  show ?thesis
  proof (cases "la_role arg")
    case kMono
    then show ?thesis using lb [of 0 1 "[(0, mono_graph arg)]"]
      by (simp add: Core_new_def BuildMonolithicGraph_eq arg_nodes_def two_upt arg_graph_def n_graphs_def mono_graph_def)
  next
    case kWorker
    then show ?thesis using lb [of "la_worker_id arg" "ucast (la_n_workers arg)" "[(0, worker_graph arg)]"]
      by (simp add: Core_new_def BuildWorkerGraph_eq arg_nodes_def two_upt arg_graph_def n_graphs_def worker_graph_def)
  next
    case kIo
    have "world_ok I V (w_stats w) (arg_nodes arg) w"
      using V fresh_start(2) [OF w(1)] kIo arg(1) unfolding world_ok_def arg_ok_def
      by (auto simp: arg_nodes_def two_upt arg_graph_def rx_graph_def tx_graph_def)
    moreover have "local_frames D (la_cfg arg) B Z (la_egress arg) w" using w by (simp add: local_frames_def fresh_def)
    ultimately have "core_ok I D V B Z (w_stats w) (core_of arg [(0, rx_graph arg), (0, tx_graph arg)] w)"
      using kIo by (intro core_of_ok [OF _ w(1) _ arg(2)]) (simp_all add: n_graphs_def two_upt arg_graph_def)
    with kIo w(1) show ?thesis by (simp add: Core_new_def BuildRxGraph_eq BuildTxGraph_eq) (simp add: core_of_def)
  qed
qed

end
