(* ===== verification/Ring_Ledger.thy ===== *)
theory Ring_Ledger
  imports Core_Inv "HOL-Library.Sublist"
begin

text \<open>
  The rings between the cores. What the documentation of DPDK promises of a ring (first in first out, and
  that an operation changes no other ring) is a hypothesis on the devices, with \<open>rq d r\<close> the contents
  of the ring with handle \<open>r\<close>. From it follows what a call of a node's \<open>Process\<close>, and so a step of a
  core, moves from and to the rings.
\<close>

section \<open>What DPDK promises\<close>

definition ring_laws :: "'d dev \<Rightarrow> ('d \<Rightarrow> nat \<Rightarrow> mbuf list) \<Rightarrow> bool" where
  "ring_laws V rq \<longleftrightarrow>
     (\<forall>r n d. rq d = (rq (snd (ring_dequeue_burst V r n d)))
        (r := fst (ring_dequeue_burst V r n d) @ rq (snd (ring_dequeue_burst V r n d)) r))
     \<and> (\<forall>r ms d. rq (snd (ring_enqueue_burst V r ms d)) = (rq d)(r := rq d r @ take (fst (ring_enqueue_burst V r ms d)) ms))
     \<and> (\<forall>r m d. rq (snd (ring_enqueue V r m d)) = (rq d)(r := rq d r @ (if fst (ring_enqueue V r m d) = 0 then [m] else [])))
     \<and> (\<forall>p q n d. rq (snd (eth_rx_burst V p q n d)) = rq d) \<and> (\<forall>p q ms d. rq (snd (eth_tx_burst V p q ms d)) = rq d)
     \<and> (\<forall>d. rq (snd (rcu_load V d)) = rq d)"

lemma ring_lawsD:
  assumes "ring_laws V rq"
  shows "ring_dequeue_burst V r n d = (ms, d') \<Longrightarrow> rq d = (rq d')(r := ms @ rq d' r)"
    and "ring_enqueue_burst V r ms d = (k, d') \<Longrightarrow> rq d' = (rq d)(r := rq d r @ take k ms)"
    and "ring_enqueue V r m d = (rc, d') \<Longrightarrow> rq d' = (rq d)(r := rq d r @ (if rc = 0 then [m] else []))"
    and "eth_rx_burst V p q n d = (ms, d') \<Longrightarrow> rq d' = rq d" and "eth_tx_burst V p q ms d = (k, d') \<Longrightarrow> rq d' = rq d"
    and "rcu_load V d = (rcu, d') \<Longrightarrow> rq d' = rq d"
  using assms unfolding ring_laws_def by (metis fst_conv snd_conv)+

text \<open>The rest of the environment: how DPDK finds the length of a header, and which backends the published pools hold, in
  states \<open>K\<close> of the devices that no operation leaves. Nothing is said of the packets the port delivers, nor of what is on the rings.\<close>

definition nic_ok :: "dpdk \<Rightarrow> Config \<Rightarrow> 'd dev \<Rightarrow> BackendInfo set \<Rightarrow> ('d \<Rightarrow> bool) \<Rightarrow> bool" where
  "nic_ok D cfg V B K \<longleftrightarrow> hdr_len_local D \<and> MacAddr_ok (self_mac cfg) \<and> (\<forall>b \<in> B. MacAddr_ok (bi_mac b))
     \<and> (\<forall>d. K d \<longrightarrow> (\<forall>pool. Rcu_Load (fst (rcu_load V d)) = Some pool \<longrightarrow> set (bp_slots pool) \<subseteq> B) \<and> K (snd (rcu_load V d)))
     \<and> (\<forall>p q n d. K d \<longrightarrow> K (snd (eth_rx_burst V p q n d)))
     \<and> (\<forall>p q ms d. K d \<longrightarrow> K (snd (eth_tx_burst V p q ms d))) \<and> (\<forall>r n d. K d \<longrightarrow> K (snd (ring_dequeue_burst V r n d)))
     \<and> (\<forall>r ms d. K d \<longrightarrow> K (snd (ring_enqueue_burst V r ms d))) \<and> (\<forall>r m d. K d \<longrightarrow> K (snd (ring_enqueue V r m d)))"

text \<open>The buffers that ever hold a packet with a short header are all in \<open>Z\<close>. Any port has this with \<open>Z\<close> the set of all buffers.\<close>

definition heads :: "dpdk \<Rightarrow> 'd dev \<Rightarrow> nat set \<Rightarrow> bool" where
  "heads D V Z \<longleftrightarrow> (\<forall>p q n d. \<forall>m \<in> set (fst (eth_rx_burst V p q n d)). whole D Z m)"

lemma heads_UNIV [simp]: "heads D V UNIV"
  by (simp add: heads_def whole_def)

definition rings_typed :: "dpdk \<Rightarrow> Config \<Rightarrow> BackendInfo set \<Rightarrow> nat set \<Rightarrow> nat \<Rightarrow> (nat \<Rightarrow> mbuf list) \<Rightarrow> bool" where
  "rings_typed D cfg B Z eg q \<longleftrightarrow> (\<forall>r. \<forall>m \<in> set (q r). ring_pt D cfg B Z eg r m)"

lemma rings_typed_upd:
  "rings_typed D cfg B Z eg (q(r := xs)) \<longleftrightarrow> (\<forall>m \<in> set xs. ring_pt D cfg B Z eg r m) \<and> (\<forall>s. s \<noteq> r \<longrightarrow> (\<forall>m \<in> set (q s). ring_pt D cfg B Z eg s m))"
  by (auto simp: rings_typed_def)

lemma rings_typed_at: "rings_typed D cfg B Z eg q \<Longrightarrow> m \<in> set (q r) \<Longrightarrow> ring_pt D cfg B Z eg r m"
  by (simp add: rings_typed_def)

text \<open>The ring contracts a core relies on hold of rings that were only fed according to them.\<close>

lemma env_of_rings:
  assumes R: "ring_laws V rq" and N: "nic_ok D cfg V B K" and H: "heads D V Z"
  shows "env_ok D cfg V B Z eg (\<lambda>d. K d \<and> rings_typed D cfg B Z eg (rq d))"
proof -
  have deq: "(\<forall>m \<in> set (fst (ring_dequeue_burst V r n d)). ring_pt D cfg B Z eg r m) \<and> rings_typed D cfg B Z eg (rq (snd (ring_dequeue_burst V r n d)))"
    if t: "rings_typed D cfg B Z eg (rq d)" for r n d
  proof -
    obtain ms d' where d: "ring_dequeue_burst V r n d = (ms, d')" by fastforce
    have "rings_typed D cfg B Z eg ((rq d')(r := ms @ rq d' r))" using t ring_lawsD(1) [OF R d] by simp
    then show ?thesis unfolding d rings_typed_upd by (auto simp: rings_typed_def)
  qed
  have enq: "rings_typed D cfg B Z eg (rq (snd (ring_enqueue_burst V r ms d)))"
    if "rings_typed D cfg B Z eg (rq d)" "\<forall>m \<in> set ms. ring_pt D cfg B Z eg r m" for r ms d
    using that ring_lawsD(2) [OF R, of r ms d] by (cases "ring_enqueue_burst V r ms d") (auto simp: rings_typed_upd rings_typed_at dest: in_set_takeD)
  have one: "rings_typed D cfg B Z eg (rq (snd (ring_enqueue V r m d)))"
    if "rings_typed D cfg B Z eg (rq d)" "ring_pt D cfg B Z eg r m" for r m d
    using that ring_lawsD(3) [OF R, of r m d] by (cases "ring_enqueue V r m d") (auto simp: rings_typed_upd rings_typed_at)
  have same: "rq (snd (eth_rx_burst V p q n d)) = rq d" "rq (snd (eth_tx_burst V p q ms d)) = rq d" "rq (snd (rcu_load V d)) = rq d"
    for p q n ms d using R by (simp_all add: ring_laws_def)
  have whole: "m \<in> set (fst (eth_rx_burst V p q n d)) \<Longrightarrow> whole D Z m" for p q n d m using H by (simp add: heads_def)
  show ?thesis unfolding env_ok_def by (intro conjI allI impI) (use N in \<open>auto simp: nic_ok_def whole same deq enq one\<close>)
qed

section \<open>What a node moves\<close>

text \<open>The ring a node reads, and the packets it may put on a ring.\<close>

fun node_in :: "node \<Rightarrow> nat option" where
  "node_in (RingRxNode r) = Some r"
| "node_in _ = None"

fun node_out :: "isa \<Rightarrow> dpdk \<Rightarrow> Config \<Rightarrow> node \<Rightarrow> nat \<Rightarrow> mbuf \<Rightarrow> bool" where
  "node_out I D cfg (RingTxNode r') r m \<longleftrightarrow> r = r'"
| "node_out I D cfg (SteerNode rings n) r m \<longleftrightarrow>
     (let res = ClassifyForSteer I D cfg n m
      in steer_cls res = kSteer \<and> unat (steer_worker res) < length rings \<and> r = rings ! unat (steer_worker res))"
| "node_out I D cfg _ r m \<longleftrightarrow> False"

definition on_ring :: "nat \<Rightarrow> (nat \<times> mbuf) list \<Rightarrow> mbuf list" where
  "on_ring r rms = map snd (filter (\<lambda>(q, m). q = r) rms)"

lemma on_ring_simps [simp]:
  "on_ring r [] = []" "on_ring r (xs @ ys) = on_ring r xs @ on_ring r ys" "on_ring r [(q, m)] = (if q = r then [m] else [])"
  "on_ring r (map (Pair q) ms) = (if q = r then ms else [])"
  by (simp_all add: on_ring_def comp_def case_prod_beta)

text \<open>Between two worlds, \<open>deq\<close> was taken from the front of the ring \<open>i\<close>, and \<open>enq\<close> appended to the rings.\<close>

definition moved :: "('d \<Rightarrow> nat \<Rightarrow> mbuf list) \<Rightarrow> nat option \<Rightarrow> (nat \<Rightarrow> mbuf \<Rightarrow> bool) \<Rightarrow> 'd world \<Rightarrow> 'd world \<Rightarrow> bool" where
  "moved rq i out w w' \<longleftrightarrow> (\<exists>deq enq. w_dequeued w' = w_dequeued w @ deq \<and> w_ringed w' = w_ringed w @ enq
     \<and> (i = None \<longrightarrow> deq = []) \<and> (\<forall>(r, m) \<in> set enq. out r m)
     \<and> (\<forall>r. rq (w_dev w) r @ on_ring r enq = (if i = Some r then deq else []) @ rq (w_dev w') r))"

lemma moved_still:
  "w_dequeued w' = w_dequeued w \<Longrightarrow> w_ringed w' = w_ringed w \<Longrightarrow> rq (w_dev w') = rq (w_dev w) \<Longrightarrow> moved rq i out w w'"
  by (force simp: moved_def)

lemma moved_mono:
  assumes "moved rq i out w w'" and "i = None \<or> i = j" and "\<And>r m. out r m \<Longrightarrow> out' r m"
  shows "moved rq j out' w w'"
  using assms unfolding moved_def by (cases i) (force+)

lemma effects_moved [simp]:
  "moved rq i out w (mbuf_free ms w') = moved rq i out w w'" "moved rq i out w (add_dropped k w') = moved rq i out w w'"
  "moved rq i out w (add_tx k w') = moved rq i out w w'" "moved rq i out w (add_rx k w') = moved rq i out w w'"
  "moved rq i out (mbuf_free ms w) w' = moved rq i out w w'" "moved rq i out (add_dropped k w) w' = moved rq i out w w'"
  by (simp_all add: moved_def mbuf_free_def add_dropped_def add_tx_def add_rx_def)

lemma moved_trans:
  assumes "moved rq None out w w1" and "moved rq None out w1 w2"
  shows "moved rq None out w w2"
proof -
  obtain enq where 1: "w_dequeued w1 = w_dequeued w" "w_ringed w1 = w_ringed w @ enq" "\<forall>(r, m) \<in> set enq. out r m"
    "\<And>r. rq (w_dev w) r @ on_ring r enq = rq (w_dev w1) r" using assms(1) by (auto simp: moved_def)
  obtain enq' where 2: "w_dequeued w2 = w_dequeued w1" "w_ringed w2 = w_ringed w1 @ enq'" "\<forall>(r, m) \<in> set enq'. out r m"
    "\<And>r. rq (w_dev w1) r @ on_ring r enq' = rq (w_dev w2) r" using assms(2) by (auto simp: moved_def)
  have "rq (w_dev w) r @ on_ring r (enq @ enq') = rq (w_dev w2) r" for r
    using 1(4) [of r] 2(4) [of r] by simp (metis append_assoc)
  with 1 2 show ?thesis unfolding moved_def by (intro exI [of _ "[]"] exI [of _ "enq @ enq'"]) auto
qed

lemma route_moved:
  "route w' outs nexts = Inr (w'', x', outs') \<Longrightarrow> moved rq i out w w' \<Longrightarrow> moved rq i out w w''"
  by (auto simp: route_def bind_r_def split: sum.splits)

lemma Steer_loop_moved:
  assumes R: "ring_laws V rq" and run: "Steer_loop I D cfg V rings n ms w nexts = Inr (w', nexts')"
  shows "moved rq None (node_out I D cfg (SteerNode rings n)) w w'"
  using run
proof (induction ms arbitrary: w nexts)
  case Nil
  then show ?case by (auto intro: moved_still)
next
  case (Cons m ms)
  let ?res = "ClassifyForSteer I D cfg n m"
  show ?case
  proof (cases "steer_cls ?res")
    case kSteer
    let ?r = "rings ! unat (steer_worker ?res)"
    obtain rc d where enq: "ring_enqueue V ?r m (w_dev w) = (rc, d)" by fastforce
    define w2 where "w2 = (if rc \<noteq> 0 then add_dropped 1 (mbuf_free [m] (w\<lparr>w_dev := d\<rparr>))
      else w\<lparr>w_dev := d, w_ringed := w_ringed w @ [(?r, m)]\<rparr>)"
    have run2: "unat (steer_worker ?res) < length rings" "Steer_loop I D cfg V rings n ms w2 nexts = Inr (w', nexts')"
      using Cons.prems kSteer enq by (auto simp: Let_def w2_def split: if_splits)
    have "moved rq None (node_out I D cfg (SteerNode rings n)) w w2"
    proof (cases "rc = 0")
      case True
      with run2(1) kSteer ring_lawsD(3) [OF R enq] show ?thesis
        unfolding moved_def w2_def by (intro exI [of _ "[]"] exI [of _ "[(?r, m)]"]) (simp add: Let_def)
    next
      case False
      with ring_lawsD(3) [OF R enq] show ?thesis by (simp add: w2_def) (rule moved_still, simp_all)
    qed
    with Cons.IH [OF run2(2)] show ?thesis by (rule moved_trans [rotated])
  next
    case kArp
    with Cons.prems Cons.IH show ?thesis by (auto simp: Let_def bind_r_def split: sum.splits)
  next
    case kDrop
    with Cons.prems Cons.IH [of "mbuf_free [m] w" nexts] show ?thesis by (simp add: Let_def)
  qed
qed

lemma Process_moved:
  assumes R: "ring_laws V rq" and run: "Process I D cfg V nd w x nexts = Inr (w', x', outs)"
  shows "moved rq (node_in nd) (node_out I D cfg nd) w w'"
proof (cases nd)
  case (RxNode p q)
  obtain ms d where "eth_rx_burst V p q kBurstSize (w_dev w) = (ms, d)" by fastforce
  with run RxNode ring_lawsD(4) [OF R this] show ?thesis
    by (auto simp: Rx_Process_def bind_r_def add_rx_def split: sum.splits intro!: moved_still)
next
  case (LbNode a b)
  obtain rcu d where d: "rcu_load V (w_dev w) = (rcu, d)" by fastforce
  have "moved rq None (node_out I D cfg nd) w (w\<lparr>w_dev := d, w_lb := lb, w_stats := s\<rparr>)" for lb s
    using ring_lawsD(6) [OF R d] by (intro moved_still) simp_all
  with run LbNode d show ?thesis
    by (auto simp: LbN_Process_def bind_r_def split: option.splits sum.splits prod.splits dest!: route_moved)
next
  case (TxNode p q)
  obtain k d where d: "eth_tx_burst V p q x (w_dev w) = (k, d)" by fastforce
  have "moved rq None (node_out I D cfg nd) w (w\<lparr>w_dev := d, w_sent := s\<rparr>)" for s using ring_lawsD(5) [OF R d] by (intro moved_still) simp_all
  with run TxNode d show ?thesis by (auto simp: Tx_Process_def Let_def)
next
  case (SteerNode rings n)
  with run Steer_loop_moved [OF R] show ?thesis by (auto simp: Steer_Process_def bind_r_def split: sum.splits)
next
  case (RingTxNode r)
  obtain k d where d: "ring_enqueue_burst V r x (w_dev w) = (k, d)" by fastforce
  have "moved rq None (node_out I D cfg nd) w (w\<lparr>w_dev := d, w_ringed := w_ringed w @ map (Pair r) (take k x)\<rparr>)"
    using ring_lawsD(2) [OF R d] RingTxNode unfolding moved_def by (intro exI [of _ "[]"] exI [of _ "map (Pair r) (take k x)"]) auto
  with run RingTxNode d show ?thesis by (auto simp: RingTx_Process_def Let_def split: if_splits)
next
  case (RingRxNode r)
  obtain ms d where d: "ring_dequeue_burst V r kBurstSize (w_dev w) = (ms, d)" by fastforce
  have "moved rq (Some r) (node_out I D cfg nd) w (w\<lparr>w_dev := d, w_dequeued := w_dequeued w @ ms\<rparr>)"
    using ring_lawsD(1) [OF R d] unfolding moved_def by (intro exI [of _ ms] exI [of _ "[]"]) simp
  with run RingRxNode d show ?thesis by (auto simp: RingRx_Process_def bind_r_def split: sum.splits)
qed (use run in \<open>auto simp: Drop_Process_def mbuf_free_def intro!: moved_still dest!: route_moved [where w = w and rq = rq and i = None and out = "node_out I D cfg nd"]\<close>)

section \<open>What a core moves\<close>

definition core_in :: "LcoreArg \<Rightarrow> nat option" where
  "core_in arg = (case la_role arg of kMono \<Rightarrow> None | kIo \<Rightarrow> Some (la_egress arg) | kWorker \<Rightarrow> Some (la_ingress arg))"

definition core_out :: "isa \<Rightarrow> dpdk \<Rightarrow> LcoreArg \<Rightarrow> nat \<Rightarrow> mbuf \<Rightarrow> bool" where
  "core_out I D arg r m \<longleftrightarrow>
     (case la_role arg of
        kMono \<Rightarrow> False
      | kIo \<Rightarrow> node_out I D (la_cfg arg) (SteerNode (la_worker_rings arg) (la_n_workers arg)) r m \<or> r = la_egress arg
      | kWorker \<Rightarrow> r = la_egress arg)"

lemma arg_graph_rings:
  assumes "nd \<in> set (gr_nodes (arg_graph arg k))"
  shows "node_in nd = None \<or> node_in nd = core_in arg" and "node_out I D (la_cfg arg) nd r m \<Longrightarrow> core_out I D arg r m"
proof -
  have "(node_in nd = None \<or> node_in nd = core_in arg) \<and> (node_out I D (la_cfg arg) nd r m \<longrightarrow> core_out I D arg r m)"
  proof (cases "la_role arg")
    case kMono
    then have "nd \<in> set (gr_nodes (mono_graph arg))" using assms by (simp add: arg_graph_def)
    with kMono show ?thesis by (simp add: mono_graph_def) (elim disjE; simp)
  next
    case kIo
    then have "nd \<in> set (gr_nodes (rx_graph arg)) \<union> set (gr_nodes (tx_graph arg))" using assms by (simp add: arg_graph_def split: if_splits)
    with kIo show ?thesis by (simp add: rx_graph_def tx_graph_def core_in_def core_out_def del: node_out.simps(2)) (elim disjE; simp del: node_out.simps(2))
  next
    case kWorker
    then have "nd \<in> set (gr_nodes (worker_graph arg))" using assms by (simp add: arg_graph_def)
    with kWorker show ?thesis by (simp add: worker_graph_def core_in_def core_out_def) (elim disjE; simp)
  qed
  then show "node_in nd = None \<or> node_in nd = core_in arg" and "node_out I D (la_cfg arg) nd r m \<Longrightarrow> core_out I D arg r m" by blast+
qed

lemma RunNode_process:
  "RunNode proc g n f w st = Inr (w', st') \<Longrightarrow> \<exists>x' outs. proc n w (frame_at st f) (replicate (Fanout g n) []) = Inr (w', x', outs)"
  by (auto simp: RunNode_def bind_r_def Let_def split: sum.splits prod.splits)

lemma core_step_moved:
  assumes R: "ring_laws V rq" and ok: "core_ok I D V B Z s c" and step: "core_step I D V running c d = Inr (c', d')"
  shows "moved rq (core_in (co_arg c)) (core_out I D (co_arg c)) ((co_world c)\<lparr>w_dev := d\<rparr>) ((co_world c')\<lparr>w_dev := d'\<rparr>)"
proof (cases "\<exists>k n f fs. co_pc c = kPass k (Some (n, f # fs))")
  case True
  then obtain k n f fs where pc: "co_pc c = kPass k (Some (n, f # fs))" by blast
  let ?g = "arg_graph (co_arg c) k" and ?cfg = "la_cfg (co_arg c)" and ?w = "(co_world c)\<lparr>w_dev := d\<rparr>"
  have k: "k < n_graphs (co_arg c)" "core_draining I V s (co_arg c) k n (f # fs) (co_world c) (co_disps c ! k)"
    using ok pc by (simp_all add: core_ok_def pc_ok_def)
  have g: "core_graph c k = ?g" using core_graph_eq [OF ok k(1)] by simp
  have n: "gr_nodes ?g ! n \<in> set (gr_nodes ?g)" using k(2) by (simp add: net.draining_def)
  have w': "co_world c' = (co_world c')\<lparr>w_dev := d'\<rparr>"
    "\<exists>st'. RunNode (proc_of I D ?cfg V ?g) ?g n f ?w (co_disps c ! k) = Inr (co_world c', st')"
    using step pc g by (auto simp: core_step_def bind_r_def split: sum.splits)
  then obtain x' outs where "Process I D ?cfg V (gr_nodes ?g ! n) ?w (frame_at (co_disps c ! k) f) (replicate (Fanout ?g n) []) = Inr (co_world c', x', outs)"
    using RunNode_process by (fastforce simp: proc_of_def)
  from Process_moved [OF R this] have "moved rq (core_in (co_arg c)) (core_out I D (co_arg c)) ?w (co_world c')"
    by (rule moved_mono [OF _ arg_graph_rings(1) [OF n] arg_graph_rings(2) [OF n]])
  with w'(1) show ?thesis by simp
next
  case False
  then have "co_world c' = co_world c" "d' = d"
    using step by (auto simp: core_step_def Let_def begin_pass_def split: core_pc.splits option.splits list.splits if_splits prod.splits)
  then show ?thesis by (intro moved_still) simp_all
qed

end
