(* ===== verification/Control_View.thy ===== *)
theory Control_View
  imports Ipc_Types Backend_Pool
begin

text \<open>
  \<open>ipc/control_view.hpp\<close>: the sequence lock by which the control plane publishes the
  backends and the dataplane reads them. First the two functions as they run alone, then the
  interleaving of one writer and one reader at the granularity of the accesses to the shared
  view, with the fences as the order of those accesses. An entry of the array is copied in one access, where the
  source copies a struct.
\<close>

section \<open>The functions\<close>

text \<open>Copying the first \<open>n\<close> entries of \<open>src\<close> over those of \<open>dst\<close>.\<close>

function copy_entries :: "nat \<Rightarrow> nat \<Rightarrow> 'a list \<Rightarrow> 'a list \<Rightarrow> 'a list" where
  "copy_entries i n src dst =
     (if i < n then copy_entries (i + 1) n src (dst[i := src ! i]) else dst)"
  by pat_completeness auto
termination
  by (relation "measure (\<lambda>(i, n, src, dst). n - i)") auto

declare copy_entries.simps [simp del]

definition clamp_count :: "u32 \<Rightarrow> u32" where
  "clamp_count cnt = min cnt (of_nat kMaxBackends)"

definition PublishControl :: "ControlView \<Rightarrow> ControlBackend list \<Rightarrow> u32 \<Rightarrow> ControlView" where
  "PublishControl view src cnt =
     (let start = cv_seq view;
          view1 = view\<lparr>cv_seq := start + 1\<rparr>;
          view2 = view1\<lparr>cv_count := clamp_count cnt\<rparr>;
          view3 = view2\<lparr>cv_backends := copy_entries 0 (unat (cv_count view2)) src (cv_backends view2)\<rparr>
      in view3\<lparr>cv_seq := start + 2\<rparr>)"

text \<open>The reader, alone: it returns the sequence number, the count and the filled buffer; on
  an odd sequence number it spins.\<close>

partial_function (option) ReadControl ::
  "ControlView \<Rightarrow> ControlBackend list \<Rightarrow> (u32 \<times> u32 \<times> ControlBackend list) option" where
  "ReadControl view out =
     (let seq_before = cv_seq view in
      if seq_before AND 1 \<noteq> 0 then ReadControl view out
      else let cnt = clamp_count (cv_count view);
               out' = copy_entries 0 (unat cnt) (cv_backends view) out
           in if cv_seq view = seq_before then Some (seq_before, cnt, out') else ReadControl view out')"

lemma length_copy_entries [simp]: "length (copy_entries i n src dst) = length dst"
  by (induction i n src dst rule: copy_entries.induct) (subst copy_entries.simps, simp)

lemma nth_copy_entries:
  "j < length dst \<Longrightarrow> copy_entries i n src dst ! j = (if i \<le> j \<and> j < n then src ! j else dst ! j)"
proof (induction i n src dst rule: copy_entries.induct)
  case (1 i n src dst)
  show ?case
  proof (cases "i < n")
    case True
    then have "copy_entries i n src dst ! j = (if i + 1 \<le> j \<and> j < n then src ! j else dst[i := src ! i] ! j)"
      using 1 by (subst copy_entries.simps) simp
    with True 1(2) show ?thesis by (cases "j = i") auto
  next
    case False
    then have "copy_entries i n src dst = dst" by (subst copy_entries.simps) simp
    with False show ?thesis by auto
  qed
qed

lemma copy_entries_Suc: "i < n \<Longrightarrow> copy_entries i n src dst = copy_entries (Suc i) n src (dst[i := src ! i])"
  by (subst copy_entries.simps) simp

lemma take_copy_entries:
  assumes "n \<le> length src" and "n \<le> length dst"
  shows "take n (copy_entries 0 n src dst) = take n src"
  using assms by (intro nth_equalityI) (simp_all add: nth_copy_entries)

lemma unat_clamp_count: "unat (clamp_count c) = min (unat c) kMaxBackends"
  by (simp add: clamp_count_def min_def word_le_nat_alt kMaxBackends_def)

text \<open>A well-formed view: the array has its length, and the count is within it.\<close>

definition view_ok :: "ControlView \<Rightarrow> bool" where
  "view_ok view \<longleftrightarrow> length (cv_backends view) = kMaxBackends \<and> unat (cv_count view) \<le> kMaxBackends"

definition contents :: "ControlView \<Rightarrow> ControlBackend list" where
  "contents view = take (unat (cv_count view)) (cv_backends view)"

lemma PublishControl_ok:
  assumes "view_ok view" and "min (unat cnt) kMaxBackends \<le> length src"
  shows "view_ok (PublishControl view src cnt)"
    and "contents (PublishControl view src cnt) = take (min (unat cnt) kMaxBackends) src"
    and "cv_seq (PublishControl view src cnt) = cv_seq view + 2"
  using assms take_copy_entries [of "min (unat cnt) kMaxBackends" src "cv_backends view"]
  by (simp_all add: PublishControl_def Let_def view_ok_def contents_def unat_clamp_count)

lemma ReadControl_eq:
  assumes "view_ok view" and "cv_seq view AND 1 = 0" and "length out = kMaxBackends"
  obtains out' where "ReadControl view out = Some (cv_seq view, cv_count view, out')" "length out' = kMaxBackends"
    "take (unat (cv_count view)) out' = contents view"
proof -
  have "clamp_count (cv_count view) = cv_count view"
    using assms(1) by (simp add: word_unat_eq_iff unat_clamp_count view_ok_def)
  then have "ReadControl view out = Some (cv_seq view, cv_count view,
      copy_entries 0 (unat (cv_count view)) (cv_backends view) out)"
    using assms(2) by (subst ReadControl.simps) (simp add: Let_def)
  with that assms(1,3) take_copy_entries [of "unat (cv_count view)" "cv_backends view" out] show thesis
    by (simp add: view_ok_def contents_def)
qed

text \<open>
  C29. What is published is what is read: after a publication on a view that no other writer
  holds (its sequence number is even), a read alone returns the first 64 entries at most, with
  the sequence number advanced by two, so that a reader that saw the former number sees a
  change.
\<close>

theorem publish_read_roundtrip:
  assumes "view_ok view" and "cv_seq view AND 1 = 0" and "unat cnt = length src" and "length out = kMaxBackends"
  shows "\<exists>n out'. ReadControl (PublishControl view src cnt) out = Some (cv_seq view + 2, n, out')
    \<and> unat n = min (length src) kMaxBackends \<and> take (unat n) out' = take kMaxBackends src
    \<and> cv_seq view + 2 \<noteq> cv_seq view"
proof -
  let ?v = "PublishControl view src cnt"
  have "min (unat cnt) kMaxBackends \<le> length src" using assms(3) by simp
  note ok = PublishControl_ok [OF assms(1) this]
  have ev: "cv_seq ?v AND 1 = 0"
    using assms(2) by (simp add: ok(3) and_one_eq even_iff_mod_2_eq_zero [symmetric] one_and_eq)
  obtain out' where r: "ReadControl ?v out = Some (cv_seq ?v, cv_count ?v, out')" "take (unat (cv_count ?v)) out' = contents ?v"
    using ReadControl_eq [OF ok(1) ev assms(4)] by metis
  have n: "unat (cv_count ?v) = min (length src) kMaxBackends"
    using assms(3) by (simp add: PublishControl_def Let_def unat_clamp_count)
  have "take (unat (cv_count ?v)) out' = take kMaxBackends src"
    using r(2) ok(2) assms(3) by (simp add: min_def)
  with r(1) n ok(3) show ?thesis by auto
qed

definition ex_backend :: ControlBackend where
  "ex_backend = \<lparr>cb_ip = 0x0A000101, cb_port = 8080, cb_mac = [2,0,0,0,1,1], cb_enabled = 1\<rparr>"

definition ex_view :: ControlView where
  "ex_view = \<lparr>cv_header = InitShmHeader \<lparr>hdr_magic = 0, hdr_version = 0\<rparr>, cv_seq = 0, cv_count = 0,
     cv_backends = replicate kMaxBackends (ex_backend\<lparr>cb_enabled := 0\<rparr>)\<rparr>"

theorem publish_read_roundtrip_witness:
  "\<exists>n out'. ReadControl (PublishControl ex_view [ex_backend] 1) (replicate kMaxBackends ex_backend) = Some (2, n, out')
    \<and> unat n = 1 \<and> take (unat n) out' = [ex_backend]"
  using publish_read_roundtrip [of ex_view 1 "[ex_backend]" "replicate kMaxBackends ex_backend"]
  by (auto simp: ex_view_def view_ok_def kMaxBackends_def)

section \<open>Interleaving\<close>

text \<open>
  The program counters of the writer and of the reader, between two accesses to the view. The
  system also carries the reader's buffer and, as ghosts: \<open>ss_N\<close>, the number of stores to
  \<open>seq\<close> without wrap-around; \<open>ss_hist\<close>, what was published when \<open>ss_N\<close> had a given value;
  \<open>ss_n0\<close> and \<open>ss_n1\<close>, the value of \<open>ss_N\<close> at the reader's first and last load of \<open>seq\<close>.
\<close>

datatype wpc = WIdle | WCount u32 "ControlBackend list" u32 | WCopy u32 "ControlBackend list" nat

datatype rpc = RStart | RCount u32 | RCopy u32 u32 nat | RDone u32 u32

record seqsys =
  ss_view :: ControlView
  ss_w :: wpc
  ss_r :: rpc
  ss_out :: "ControlBackend list"
  ss_N :: nat
  ss_hist :: "nat \<Rightarrow> ControlBackend list"
  ss_n0 :: nat
  ss_n1 :: nat

definition Pub_begin :: "ControlBackend list \<Rightarrow> u32 \<Rightarrow> seqsys \<Rightarrow> seqsys" where
  "Pub_begin src cnt S = S\<lparr>ss_view := (ss_view S)\<lparr>cv_seq := cv_seq (ss_view S) + 1\<rparr>,
     ss_w := WCount (cv_seq (ss_view S)) src cnt, ss_N := ss_N S + 1\<rparr>"

definition Pub_count :: "u32 \<Rightarrow> ControlBackend list \<Rightarrow> u32 \<Rightarrow> seqsys \<Rightarrow> seqsys" where
  "Pub_count start src cnt S = S\<lparr>ss_view := (ss_view S)\<lparr>cv_count := clamp_count cnt\<rparr>, ss_w := WCopy start src 0\<rparr>"

definition Pub_copy :: "u32 \<Rightarrow> ControlBackend list \<Rightarrow> nat \<Rightarrow> seqsys \<Rightarrow> seqsys" where
  "Pub_copy start src i S = S\<lparr>ss_view := (ss_view S)\<lparr>cv_backends := (cv_backends (ss_view S))[i := src ! i]\<rparr>,
     ss_w := WCopy start src (i + 1)\<rparr>"

definition Pub_end :: "u32 \<Rightarrow> ControlBackend list \<Rightarrow> seqsys \<Rightarrow> seqsys" where
  "Pub_end start src S = S\<lparr>ss_view := (ss_view S)\<lparr>cv_seq := start + 2\<rparr>, ss_w := WIdle, ss_N := ss_N S + 1,
     ss_hist := (ss_hist S)(ss_N S + 1 := take (unat (cv_count (ss_view S))) src)\<rparr>"

definition Read_seq :: "seqsys \<Rightarrow> seqsys" where
  "Read_seq S = (if cv_seq (ss_view S) AND 1 \<noteq> 0 then S
     else S\<lparr>ss_r := RCount (cv_seq (ss_view S)), ss_n0 := ss_N S\<rparr>)"

definition Read_count :: "u32 \<Rightarrow> seqsys \<Rightarrow> seqsys" where
  "Read_count s S = S\<lparr>ss_r := RCopy s (clamp_count (cv_count (ss_view S))) 0\<rparr>"

definition Read_copy :: "u32 \<Rightarrow> u32 \<Rightarrow> nat \<Rightarrow> seqsys \<Rightarrow> seqsys" where
  "Read_copy s n i S = S\<lparr>ss_out := (ss_out S)[i := cv_backends (ss_view S) ! i], ss_r := RCopy s n (i + 1)\<rparr>"

definition Read_check :: "u32 \<Rightarrow> u32 \<Rightarrow> seqsys \<Rightarrow> seqsys" where
  "Read_check s n S = (if cv_seq (ss_view S) = s then S\<lparr>ss_r := RDone s n, ss_n1 := ss_N S\<rparr>
     else S\<lparr>ss_r := RStart\<rparr>)"

inductive seq_step :: "seqsys \<Rightarrow> seqsys \<Rightarrow> bool" where
  w_begin: "ss_w S = WIdle \<Longrightarrow> min (unat cnt) kMaxBackends \<le> length src \<Longrightarrow> seq_step S (Pub_begin src cnt S)"
| w_count: "ss_w S = WCount start src cnt \<Longrightarrow> seq_step S (Pub_count start src cnt S)"
| w_copy: "ss_w S = WCopy start src i \<Longrightarrow> i < unat (cv_count (ss_view S)) \<Longrightarrow> seq_step S (Pub_copy start src i S)"
| w_end: "ss_w S = WCopy start src i \<Longrightarrow> \<not> i < unat (cv_count (ss_view S)) \<Longrightarrow> seq_step S (Pub_end start src S)"
| r_seq: "ss_r S = RStart \<Longrightarrow> seq_step S (Read_seq S)"
| r_count: "ss_r S = RCount s \<Longrightarrow> seq_step S (Read_count s S)"
| r_copy: "ss_r S = RCopy s n i \<Longrightarrow> i < unat n \<Longrightarrow> seq_step S (Read_copy s n i S)"
| r_check: "ss_r S = RCopy s n i \<Longrightarrow> \<not> i < unat n \<Longrightarrow> seq_step S (Read_check s n S)"
| r_again: "ss_r S = RDone s n \<Longrightarrow> seq_step S (S\<lparr>ss_r := RStart\<rparr>)"

definition seq_init :: "seqsys \<Rightarrow> bool" where
  "seq_init S \<longleftrightarrow> view_ok (ss_view S) \<and> ss_w S = WIdle \<and> ss_r S = RStart \<and> length (ss_out S) = kMaxBackends
     \<and> even (ss_N S) \<and> cv_seq (ss_view S) = of_nat (ss_N S) \<and> ss_hist S (ss_N S) = contents (ss_view S)"

inductive seq_reach :: "seqsys \<Rightarrow> bool" where
  init: "seq_init S \<Longrightarrow> seq_reach S"
| step: "seq_reach S \<Longrightarrow> seq_step S S' \<Longrightarrow> seq_reach S'"

subsection \<open>The invariant\<close>

definition base_ok :: "seqsys \<Rightarrow> bool" where
  "base_ok S \<longleftrightarrow> length (cv_backends (ss_view S)) = kMaxBackends \<and> length (ss_out S) = kMaxBackends
     \<and> cv_seq (ss_view S) = of_nat (ss_N S)"

definition writer_ok :: "seqsys \<Rightarrow> bool" where
  "writer_ok S \<longleftrightarrow> (case ss_w S of
       WIdle \<Rightarrow> even (ss_N S) \<and> unat (cv_count (ss_view S)) \<le> kMaxBackends \<and> ss_hist S (ss_N S) = contents (ss_view S)
     | WCount start src cnt \<Rightarrow> odd (ss_N S) \<and> start + 1 = of_nat (ss_N S) \<and> min (unat cnt) kMaxBackends \<le> length src
     | WCopy start src i \<Rightarrow> odd (ss_N S) \<and> start + 1 = of_nat (ss_N S) \<and> unat (cv_count (ss_view S)) \<le> kMaxBackends
         \<and> unat (cv_count (ss_view S)) \<le> length src \<and> i \<le> unat (cv_count (ss_view S))
         \<and> take i (cv_backends (ss_view S)) = take i src)"

definition reader_ok :: "seqsys \<Rightarrow> bool" where
  "reader_ok S \<longleftrightarrow> (case ss_r S of
       RStart \<Rightarrow> True
     | RCount s \<Rightarrow> even (ss_n0 S) \<and> ss_n0 S \<le> ss_N S \<and> s = of_nat (ss_n0 S)
     | RCopy s n i \<Rightarrow> even (ss_n0 S) \<and> ss_n0 S \<le> ss_N S \<and> s = of_nat (ss_n0 S) \<and> i \<le> unat n \<and> unat n \<le> kMaxBackends
         \<and> (ss_N S = ss_n0 S \<longrightarrow> unat n = length (ss_hist S (ss_n0 S)) \<and> take i (ss_out S) = take i (ss_hist S (ss_n0 S)))
     | RDone s n \<Rightarrow> s = of_nat (ss_n0 S) \<and> s = of_nat (ss_n1 S) \<and> ss_n0 S \<le> ss_n1 S \<and> ss_n1 S \<le> ss_N S
         \<and> (ss_n1 S = ss_n0 S \<longrightarrow> unat n = length (ss_hist S (ss_n0 S)) \<and> take (unat n) (ss_out S) = ss_hist S (ss_n0 S)))"

lemma odd_word_of_nat: "(of_nat N :: u32) AND 1 \<noteq> 0 \<longleftrightarrow> odd N"
proof -
  have "(of_nat N :: u32) AND 1 \<noteq> 0 \<longleftrightarrow> odd (of_nat N :: u32)"
    by (simp add: and_one_eq even_iff_mod_2_eq_zero)
  also have "\<dots> \<longleftrightarrow> odd N" using bit_0 [of "of_nat N :: u32"] by (simp add: bit_simps bit_0)
  finally show ?thesis .
qed

lemma take_Suc_update:
  "i < length xs \<Longrightarrow> i < length ys \<Longrightarrow> take i xs = take i ys \<Longrightarrow> take (Suc i) (xs[i := ys ! i]) = take (Suc i) ys"
  by (simp add: take_Suc_conv_app_nth)

definition seq_inv :: "seqsys \<Rightarrow> bool" where
  "seq_inv S \<longleftrightarrow> base_ok S \<and> writer_ok S \<and> reader_ok S"

text \<open>A store to \<open>seq\<close> moves the ghost counter, so the reader's claim about the version it
  started with becomes a claim about the past.\<close>

lemma reader_ok_store:
  assumes "reader_ok S" and "ss_r S' = ss_r S" "ss_out S' = ss_out S" "ss_n0 S' = ss_n0 S" "ss_n1 S' = ss_n1 S"
    and "ss_N S' = ss_N S + 1" and "\<And>k. k \<le> ss_N S \<Longrightarrow> ss_hist S' k = ss_hist S k"
  shows "reader_ok S'"
  using assms by (auto simp: reader_ok_def split: rpc.splits)

lemma reader_ok_same:
  assumes "reader_ok S" and "ss_r S' = ss_r S" "ss_out S' = ss_out S" "ss_n0 S' = ss_n0 S" "ss_n1 S' = ss_n1 S"
    and "ss_N S' = ss_N S" and "ss_hist S' = ss_hist S"
  shows "reader_ok S'"
  using assms by (auto simp: reader_ok_def split: rpc.splits)

lemma writer_ok_same:
  assumes "writer_ok S" and "ss_w S' = ss_w S" "ss_view S' = ss_view S" "ss_N S' = ss_N S" "ss_hist S' = ss_hist S"
  shows "writer_ok S'"
  using assms by (auto simp: writer_ok_def split: wpc.splits)

lemma writer_steps_inv:
  assumes "seq_inv S"
  shows "ss_w S = WIdle \<Longrightarrow> min (unat cnt) kMaxBackends \<le> length src \<Longrightarrow> seq_inv (Pub_begin src cnt S)"
    and "ss_w S = WCount start src cnt \<Longrightarrow> seq_inv (Pub_count start src cnt S)"
    and "ss_w S = WCopy start src i \<Longrightarrow> i < unat (cv_count (ss_view S)) \<Longrightarrow> seq_inv (Pub_copy start src i S)"
    and "ss_w S = WCopy start src i \<Longrightarrow> \<not> i < unat (cv_count (ss_view S)) \<Longrightarrow> seq_inv (Pub_end start src S)"
proof -
  have b: "base_ok S" and w: "writer_ok S" and r: "reader_ok S" using assms by (auto simp: seq_inv_def)
  {
    assume "ss_w S = WIdle" "min (unat cnt) kMaxBackends \<le> length src"
    then have "base_ok (Pub_begin src cnt S)" "writer_ok (Pub_begin src cnt S)"
      using b w by (simp_all add: base_ok_def writer_ok_def Pub_begin_def add.commute)
    moreover have "reader_ok (Pub_begin src cnt S)" by (rule reader_ok_store [OF r]) (simp_all add: Pub_begin_def)
    ultimately show "seq_inv (Pub_begin src cnt S)" by (simp add: seq_inv_def)
  }
  {
    assume "ss_w S = WCount start src cnt"
    then have "base_ok (Pub_count start src cnt S)" "writer_ok (Pub_count start src cnt S)"
      using b w by (simp_all add: base_ok_def writer_ok_def Pub_count_def unat_clamp_count)
    moreover have "reader_ok (Pub_count start src cnt S)" by (rule reader_ok_same [OF r]) (simp_all add: Pub_count_def)
    ultimately show "seq_inv (Pub_count start src cnt S)" by (simp add: seq_inv_def)
  }
  {
    assume h: "ss_w S = WCopy start src i" "i < unat (cv_count (ss_view S))"
    then have "base_ok (Pub_copy start src i S)" "writer_ok (Pub_copy start src i S)"
      using b w take_Suc_update [of i "cv_backends (ss_view S)" src]
      by (simp_all add: base_ok_def writer_ok_def Pub_copy_def)
    moreover have "reader_ok (Pub_copy start src i S)" by (rule reader_ok_same [OF r]) (simp_all add: Pub_copy_def)
    ultimately show "seq_inv (Pub_copy start src i S)" by (simp add: seq_inv_def)
  }
  {
    assume h: "ss_w S = WCopy start src i" "\<not> i < unat (cv_count (ss_view S))"
    then have "start + 1 = of_nat (ss_N S)" using w by (simp add: writer_ok_def)
    moreover have "start + 2 = (start + 1) + 1" by simp
    ultimately have "start + 2 = of_nat (ss_N S) + 1" by (simp only:)
    then have "base_ok (Pub_end start src S)"
      using b unfolding base_ok_def Pub_end_def by (simp add: add.commute)
    moreover have "writer_ok (Pub_end start src S)"
      using h w by (auto simp: writer_ok_def Pub_end_def contents_def)
    moreover have "reader_ok (Pub_end start src S)" by (rule reader_ok_store [OF r]) (simp_all add: Pub_end_def)
    ultimately show "seq_inv (Pub_end start src S)" by (simp add: seq_inv_def)
  }
qed

text \<open>While the ghost counter is even, no writer is active and the view holds the last
  publication.\<close>

lemma stable_view:
  assumes "seq_inv S" and "even (ss_N S)"
  shows "ss_hist S (ss_N S) = contents (ss_view S)" and "unat (cv_count (ss_view S)) \<le> kMaxBackends"
  using assms by (auto simp: seq_inv_def writer_ok_def split: wpc.splits)

lemma reader_steps_inv:
  assumes inv: "seq_inv S"
  shows "ss_r S = RStart \<Longrightarrow> seq_inv (Read_seq S)"
    and "ss_r S = RCount s \<Longrightarrow> seq_inv (Read_count s S)"
    and "ss_r S = RCopy s n i \<Longrightarrow> i < unat n \<Longrightarrow> seq_inv (Read_copy s n i S)"
    and "ss_r S = RCopy s n i \<Longrightarrow> \<not> i < unat n \<Longrightarrow> seq_inv (Read_check s n S)"
    and "ss_r S = RDone s n \<Longrightarrow> seq_inv (S\<lparr>ss_r := RStart\<rparr>)"
proof -
  have b: "base_ok S" and w: "writer_ok S" and r: "reader_ok S" using inv by (auto simp: seq_inv_def)
  have len: "length (contents (ss_view S)) = unat (cv_count (ss_view S))" if "even (ss_N S)"
    using stable_view(2) [OF inv that] b by (simp add: contents_def base_ok_def)
  show "ss_r S = RDone s n \<Longrightarrow> seq_inv (S\<lparr>ss_r := RStart\<rparr>)"
    using b writer_ok_same [OF w, of "S\<lparr>ss_r := RStart\<rparr>"] by (simp add: seq_inv_def base_ok_def reader_ok_def)
  {
    assume "ss_r S = RStart"
    moreover have "even (ss_N S)" if "cv_seq (ss_view S) AND 1 = 0"
      using that b odd_word_of_nat [of "ss_N S"] by (auto simp: base_ok_def)
    ultimately show "seq_inv (Read_seq S)"
      using b r writer_ok_same [OF w, of "Read_seq S"] by (auto simp: seq_inv_def base_ok_def reader_ok_def Read_seq_def)
  }
  {
    assume h: "ss_r S = RCount s"
    have "unat (clamp_count (cv_count (ss_view S))) = length (ss_hist S (ss_n0 S))" if "ss_N S = ss_n0 S"
    proof -
      have ev: "even (ss_N S)" using that r h by (simp add: reader_ok_def)
      show ?thesis using stable_view [OF inv ev] len [OF ev] that by (simp add: unat_clamp_count)
    qed
    then show "seq_inv (Read_count s S)"
      using h b r writer_ok_same [OF w, of "Read_count s S"]
      by (simp add: seq_inv_def base_ok_def reader_ok_def Read_count_def unat_clamp_count)
  }
  {
    assume h: "ss_r S = RCopy s n i" "i < unat n"
    have "take (Suc i) ((ss_out S)[i := cv_backends (ss_view S) ! i]) = take (Suc i) (ss_hist S (ss_n0 S))"
      if e: "ss_N S = ss_n0 S"
    proof -
      have ev: "even (ss_N S)" using e r h by (simp add: reader_ok_def)
      have hi: "ss_hist S (ss_n0 S) = contents (ss_view S)" "i < length (contents (ss_view S))"
        using stable_view(1) [OF inv ev] e r h by (simp_all add: reader_ok_def)
      then have "cv_backends (ss_view S) ! i = ss_hist S (ss_n0 S) ! i" by (simp add: contents_def)
      with hi h e r b show ?thesis
        by (simp add: take_Suc_update reader_ok_def base_ok_def)
    qed
    then show "seq_inv (Read_copy s n i S)"
      using h b r writer_ok_same [OF w, of "Read_copy s n i S"]
      by (auto simp: seq_inv_def base_ok_def reader_ok_def Read_copy_def)
  }
  {
    assume h: "ss_r S = RCopy s n i" "\<not> i < unat n"
    then show "seq_inv (Read_check s n S)"
      using b r writer_ok_same [OF w, of "Read_check s n S"]
      by (auto simp: seq_inv_def base_ok_def reader_ok_def Read_check_def)
  }
qed

lemma seq_reach_inv: "seq_reach S \<Longrightarrow> seq_inv S"
proof (induction rule: seq_reach.induct)
  case (init S)
  then show ?case by (auto simp: seq_init_def seq_inv_def base_ok_def writer_ok_def reader_ok_def view_ok_def)
next
  case (step S S')
  from step.hyps(2) step.IH show ?case
    by (cases rule: seq_step.cases) (auto intro: writer_steps_inv reader_steps_inv)
qed

text \<open>
  C11. The sequence lock gives consistent snapshots. Whatever the interleaving of the
  publications with a read, when the read returns and fewer than \<open>2\<^sup>3\<^sup>2\<close> stores to the sequence
  number (half as many publications) happened between its first and its last load of it, the
  entries returned are exactly those of one publication, the one whose sequence number is
  returned.
\<close>

theorem seqlock_snapshot:
  assumes "seq_reach S" and "ss_r S = RDone s n" and "ss_n1 S - ss_n0 S < 2 ^ 32"
  shows "take (unat n) (ss_out S) = ss_hist S (ss_n0 S) \<and> unat n = length (ss_hist S (ss_n0 S)) \<and> s = of_nat (ss_n0 S)"
proof -
  have r: "s = of_nat (ss_n0 S)" "s = of_nat (ss_n1 S)" "ss_n0 S \<le> ss_n1 S"
    "ss_n1 S = ss_n0 S \<Longrightarrow> unat n = length (ss_hist S (ss_n0 S)) \<and> take (unat n) (ss_out S) = ss_hist S (ss_n0 S)"
    using seq_reach_inv [OF assms(1)] assms(2) by (auto simp: seq_inv_def reader_ok_def)
  have "(of_nat (ss_n1 S - ss_n0 S) :: u32) = 0" using r(1-3) by (simp add: of_nat_diff)
  then have "unat (of_nat (ss_n1 S - ss_n0 S) :: u32) = 0" by simp
  then have "ss_n1 S - ss_n0 S = 0" using assms(3) by (simp add: unsigned_of_nat take_bit_nat_eq_self)
  with r show ?thesis by auto
qed

subsection \<open>The steps compose to the functions\<close>

lemma writer_copy_run:
  assumes "ss_w S = WCopy start src i" and "i \<le> unat (cv_count (ss_view S))"
  shows "seq_step\<^sup>*\<^sup>* S (S\<lparr>ss_view := (ss_view S)\<lparr>cv_backends := copy_entries i (unat (cv_count (ss_view S))) src
      (cv_backends (ss_view S))\<rparr>, ss_w := WCopy start src (unat (cv_count (ss_view S)))\<rparr>)"
  using assms
proof (induction "unat (cv_count (ss_view S)) - i" arbitrary: S i)
  case 0
  then have "i = unat (cv_count (ss_view S))" by simp
  with 0 have "S\<lparr>ss_view := (ss_view S)\<lparr>cv_backends := copy_entries i (unat (cv_count (ss_view S))) src
      (cv_backends (ss_view S))\<rparr>, ss_w := WCopy start src (unat (cv_count (ss_view S)))\<rparr> = S"
    by (subst copy_entries.simps) simp
  then show ?case by simp
next
  case (Suc k)
  let ?n = "unat (cv_count (ss_view S))"
  let ?S = "Pub_copy start src i S"
  have lt: "i < ?n" using Suc.hyps(2) by simp
  have st: "seq_step S ?S" using Suc.prems(1) lt by (rule seq_step.w_copy)
  have "k = unat (cv_count (ss_view ?S)) - Suc i" "Suc i \<le> unat (cv_count (ss_view ?S))" "ss_w ?S = WCopy start src (Suc i)"
    using Suc.hyps(2) lt by (simp_all add: Pub_copy_def)
  from Suc.hyps(1) [OF this(1) this(3) this(2)]
  have "seq_step\<^sup>*\<^sup>* ?S (S\<lparr>ss_view := (ss_view S)\<lparr>cv_backends := copy_entries i ?n src (cv_backends (ss_view S))\<rparr>,
      ss_w := WCopy start src ?n\<rparr>)"
    by (simp add: Pub_copy_def copy_entries_Suc [OF lt])
  with st show ?case by (rule converse_rtranclp_into_rtranclp)
qed

lemma writer_publishes:
  assumes idle: "ss_w S = WIdle" and len: "min (unat cnt) kMaxBackends \<le> length src"
  shows "\<exists>S'. seq_step\<^sup>*\<^sup>* S S' \<and> ss_view S' = PublishControl (ss_view S) src cnt \<and> ss_w S' = WIdle
    \<and> ss_r S' = ss_r S \<and> ss_out S' = ss_out S"
proof -
  let ?S1 = "Pub_begin src cnt S"
  let ?start = "cv_seq (ss_view S)"
  let ?S2 = "Pub_count ?start src cnt ?S1"
  have s1: "seq_step S ?S1" using idle len by (rule seq_step.w_begin)
  have s2: "seq_step ?S1 ?S2" by (rule seq_step.w_count) (simp add: Pub_begin_def)
  have c: "ss_w ?S2 = WCopy ?start src 0" "0 \<le> unat (cv_count (ss_view ?S2))" by (simp_all add: Pub_count_def)
  let ?S3 = "?S2\<lparr>ss_view := (ss_view ?S2)\<lparr>cv_backends := copy_entries 0 (unat (cv_count (ss_view ?S2))) src
      (cv_backends (ss_view ?S2))\<rparr>, ss_w := WCopy ?start src (unat (cv_count (ss_view ?S2)))\<rparr>"
  have s3: "seq_step\<^sup>*\<^sup>* ?S2 ?S3" by (rule writer_copy_run [OF c])
  have s4: "seq_step ?S3 (Pub_end ?start src ?S3)" by (rule seq_step.w_end) (simp, simp add: Pub_count_def)
  have "seq_step\<^sup>*\<^sup>* S (Pub_end ?start src ?S3)"
    using s1 s2 s3 s4 by (meson converse_rtranclp_into_rtranclp rtranclp.rtrancl_into_rtrancl)
  moreover have "ss_view (Pub_end ?start src ?S3) = PublishControl (ss_view S) src cnt"
    by (simp add: PublishControl_def Let_def Pub_end_def Pub_count_def Pub_begin_def)
  ultimately show ?thesis by (intro exI [of _ "Pub_end ?start src ?S3"]) (simp add: Pub_end_def Pub_count_def Pub_begin_def)
qed

lemma reader_copy_run:
  assumes "ss_r S = RCopy s n i" and "i \<le> unat n"
  shows "seq_step\<^sup>*\<^sup>* S (S\<lparr>ss_out := copy_entries i (unat n) (cv_backends (ss_view S)) (ss_out S), ss_r := RCopy s n (unat n)\<rparr>)"
  using assms
proof (induction "unat n - i" arbitrary: S i)
  case 0
  then have "S\<lparr>ss_out := copy_entries i (unat n) (cv_backends (ss_view S)) (ss_out S), ss_r := RCopy s n (unat n)\<rparr> = S"
    by (subst copy_entries.simps) simp
  then show ?case by simp
next
  case (Suc k)
  let ?S = "Read_copy s n i S"
  have lt: "i < unat n" using Suc.hyps(2) by simp
  have st: "seq_step S ?S" using Suc.prems(1) lt by (rule seq_step.r_copy)
  have "k = unat n - Suc i" "Suc i \<le> unat n" "ss_r ?S = RCopy s n (Suc i)"
    using Suc.hyps(2) lt by (simp_all add: Read_copy_def)
  from Suc.hyps(1) [OF this(1) this(3) this(2)]
  have "seq_step\<^sup>*\<^sup>* ?S (S\<lparr>ss_out := copy_entries i (unat n) (cv_backends (ss_view S)) (ss_out S), ss_r := RCopy s n (unat n)\<rparr>)"
    by (simp add: Read_copy_def copy_entries_Suc [OF lt])
  with st show ?case by (rule converse_rtranclp_into_rtranclp)
qed

lemma reader_reads:
  assumes start: "ss_r S = RStart" and ev: "cv_seq (ss_view S) AND 1 = 0"
  shows "\<exists>S' n. seq_step\<^sup>*\<^sup>* S S' \<and> ss_r S' = RDone (cv_seq (ss_view S)) n
    \<and> ReadControl (ss_view S) (ss_out S) = Some (cv_seq (ss_view S), n, ss_out S') \<and> ss_n1 S' = ss_n0 S'"
proof -
  let ?s = "cv_seq (ss_view S)" and ?n = "clamp_count (cv_count (ss_view S))"
  let ?S1 = "Read_seq S" and ?S2 = "Read_count ?s (Read_seq S)"
  have S1: "?S1 = S\<lparr>ss_r := RCount ?s, ss_n0 := ss_N S\<rparr>" using ev by (simp add: Read_seq_def)
  have s1: "seq_step S ?S1" using start by (rule seq_step.r_seq)
  have s2: "seq_step ?S1 ?S2" by (rule seq_step.r_count) (simp add: S1)
  have r2: "ss_r ?S2 = RCopy ?s ?n 0" by (simp add: Read_count_def S1)
  let ?S3 = "?S2\<lparr>ss_out := copy_entries 0 (unat ?n) (cv_backends (ss_view ?S2)) (ss_out ?S2), ss_r := RCopy ?s ?n (unat ?n)\<rparr>"
  have s3: "seq_step\<^sup>*\<^sup>* ?S2 ?S3" by (rule reader_copy_run [OF r2]) simp
  have s4: "seq_step ?S3 (Read_check ?s ?n ?S3)" by (rule seq_step.r_check, simp, rule less_irrefl)
  have "seq_step\<^sup>*\<^sup>* S (Read_check ?s ?n ?S3)"
    using s1 s2 s3 s4 by (meson converse_rtranclp_into_rtranclp rtranclp.rtrancl_into_rtrancl)
  moreover have "ReadControl (ss_view S) (ss_out S) = Some (?s, ?n, copy_entries 0 (unat ?n) (cv_backends (ss_view S)) (ss_out S))"
    using ev by (subst ReadControl.simps) (simp add: Let_def)
  moreover have "Read_check ?s ?n ?S3 = ?S3\<lparr>ss_r := RDone ?s ?n, ss_n1 := ss_N S\<rparr>"
    by (simp add: Read_check_def Read_count_def S1)
  ultimately show ?thesis
    by (intro exI [of _ "Read_check ?s ?n ?S3"] exI [of _ ?n]) (simp add: Read_count_def S1)
qed

lemma seq_reach_rtrancl: "seq_step\<^sup>*\<^sup>* S S' \<Longrightarrow> seq_reach S \<Longrightarrow> seq_reach S'"
  by (induction rule: rtranclp_induct) (auto intro: seq_reach.step)

text \<open>
  The interleaved steps implement the two functions: from every reachable state in which
  neither side is active, the writer's steps alone take the view to what \<open>PublishControl\<close>
  computes, and then the reader's steps alone return what \<open>ReadControl\<close> computes on that view.
\<close>

lemma seqlock_functions:
  assumes reach: "seq_reach S" and idle: "ss_w S = WIdle" "ss_r S = RStart"
    and len: "min (unat cnt) kMaxBackends \<le> length src"
  shows "\<exists>S1 S2 s n. seq_step\<^sup>*\<^sup>* S S1 \<and> ss_view S1 = PublishControl (ss_view S) src cnt
    \<and> seq_step\<^sup>*\<^sup>* S1 S2 \<and> ss_r S2 = RDone s n \<and> ReadControl (ss_view S1) (ss_out S1) = Some (s, n, ss_out S2)"
proof -
  obtain S1 where S1: "seq_step\<^sup>*\<^sup>* S S1" "ss_view S1 = PublishControl (ss_view S) src cnt" "ss_w S1 = WIdle" "ss_r S1 = RStart"
    using writer_publishes [OF idle(1) len] idle(2) by auto
  have "seq_inv S1" using seq_reach_inv [OF seq_reach_rtrancl [OF S1(1) reach]] .
  then have "cv_seq (ss_view S1) AND 1 = 0"
    using S1(3) odd_word_of_nat [of "ss_N S1"] by (auto simp: seq_inv_def base_ok_def writer_ok_def)
  from reader_reads [OF S1(4) this] S1(1,2) show ?thesis by blast
qed

definition ex_sys :: seqsys where
  "ex_sys = \<lparr>ss_view = ex_view, ss_w = WIdle, ss_r = RStart, ss_out = replicate kMaxBackends ex_backend,
     ss_N = 0, ss_hist = (\<lambda>_. []), ss_n0 = 0, ss_n1 = 0\<rparr>"

lemma ex_sys_reach: "seq_reach ex_sys"
  by (rule seq_reach.init) (simp add: seq_init_def ex_sys_def ex_view_def view_ok_def contents_def)

theorem seqlock_snapshot_witness:
  "\<exists>S s n. seq_reach S \<and> ss_r S = RDone s n \<and> take (unat n) (ss_out S) = ss_hist S (ss_n0 S)"
proof -
  have "ss_r ex_sys = RStart" "cv_seq (ss_view ex_sys) AND 1 = 0" by (simp_all add: ex_sys_def ex_view_def)
  from reader_reads [OF this] obtain S n where S: "seq_step\<^sup>*\<^sup>* ex_sys S" "ss_r S = RDone (cv_seq (ss_view ex_sys)) n"
    "ss_n1 S = ss_n0 S" by blast
  have r: "seq_reach S" using S(1) ex_sys_reach by (rule seq_reach_rtrancl)
  have "take (unat n) (ss_out S) = ss_hist S (ss_n0 S)" using seqlock_snapshot [OF r S(2)] S(3) by auto
  with r S(2) show ?thesis by blast
qed

end
