(* ===== verification/Dpdk_Port.thy ===== *)
theory Dpdk_Port
  imports Net_Types
begin

text \<open>
  \<open>dataplane/src/io/dpdk_port.cpp\<close> and \<open>src/io/eal.cpp\<close>: setting up DPDK. The library's
  answers are the fields of \<open>eth_os\<close>; what the code asks of it is a list of events, in order.
\<close>

definition kRxRingSize :: nat where "kRxRingSize = 1024"
definition kTxRingSize :: nat where "kTxRingSize = 1024"
definition kMbufCount :: nat where "kMbufCount = 8192"
definition kMbufCacheSize :: nat where "kMbufCacheSize = 256"

record eth_os =
  eth_info_get :: "u16 \<Rightarrow> int \<times> u64"
  eth_rss_wanted :: u64
  eth_configure :: "u16 \<Rightarrow> u16 \<Rightarrow> u64 option \<Rightarrow> int"
  eth_pool_create :: "string \<Rightarrow> nat \<Rightarrow> nat \<Rightarrow> nat"
  eth_rx_setup :: "u16 \<Rightarrow> nat \<Rightarrow> nat \<Rightarrow> nat \<Rightarrow> int"
  eth_tx_setup :: "u16 \<Rightarrow> nat \<Rightarrow> nat \<Rightarrow> int"
  eth_start :: "u16 \<Rightarrow> int"

datatype eth_event =
    PConfigure u16 u16 "u64 option"
  | PPool nat
  | PRxQueue nat
  | PTxQueue nat
  | PStart
  | PPromiscuous
  | PStop
  | PClose
  | PPoolFree nat

record DpdkPort =
  dp_port_id :: u16
  dp_mempool :: nat

text \<open>Receive-side scaling is asked for with several queues, and for what the device offers.\<close>

definition Configure :: "eth_os \<Rightarrow> u16 \<Rightarrow> u16 \<Rightarrow> unit result \<times> eth_event list" where
  "Configure E port n_queues =
     (let (rc, offloads) = eth_info_get E port in
      if rc < 0 then (Inl (RuntimeError (''port '' @ dec (unat port) @ '' info get failed'')), [])
      else let rss_hf = eth_rss_wanted E AND offloads;
               rss = (if n_queues > 1 \<and> rss_hf \<noteq> 0 then Some rss_hf else None)
           in if eth_configure E port n_queues rss < 0
              then (Inl (RuntimeError (''port '' @ dec (unat port) @ '' configure failed'')), [PConfigure port n_queues rss])
              else (Inr (), [PConfigure port n_queues rss]))"

fun setup_queues :: "eth_os \<Rightarrow> u16 \<Rightarrow> nat \<Rightarrow> nat list \<Rightarrow> unit result \<times> eth_event list" where
  "setup_queues E port pool [] = (Inr (), [])"
| "setup_queues E port pool (q # qs) =
     (if eth_rx_setup E port q kRxRingSize pool < 0
      then (Inl (RuntimeError (''rx queue '' @ dec q @ '' setup failed'')), [PRxQueue q])
      else if eth_tx_setup E port q kTxRingSize < 0
      then (Inl (RuntimeError (''tx queue '' @ dec q @ '' setup failed'')), [PRxQueue q, PTxQueue q])
      else let (r, tr) = setup_queues E port pool qs in (r, [PRxQueue q, PTxQueue q] @ tr))"

definition SetupQueues :: "eth_os \<Rightarrow> u16 \<Rightarrow> nat \<Rightarrow> u16 \<Rightarrow> unit result \<times> eth_event list" where
  "SetupQueues E port pool n_queues = setup_queues E port pool [0..<unat n_queues]"

definition DpdkPort_new :: "eth_os \<Rightarrow> u16 \<Rightarrow> u16 \<Rightarrow> DpdkPort result \<times> eth_event list" where
  "DpdkPort_new E port n_queues =
     (case Configure E port n_queues of
        (Inl e, tr1) \<Rightarrow> (Inl e, tr1)
      | (Inr _, tr1) \<Rightarrow>
          let pool = eth_pool_create E (''pool_'' @ dec (unat port)) kMbufCount kMbufCacheSize in
          if pool = 0 then (Inl (RuntimeError ''mbuf pool create failed''), tr1)
          else case SetupQueues E port pool n_queues of
            (Inl e, tr2) \<Rightarrow> (Inl e, tr1 @ [PPool pool] @ tr2)
          | (Inr _, tr2) \<Rightarrow>
              if eth_start E port < 0
              then (Inl (RuntimeError (''port '' @ dec (unat port) @ '' start failed'')), tr1 @ [PPool pool] @ tr2 @ [PStart])
              else (Inr \<lparr>dp_port_id = port, dp_mempool = pool\<rparr>, tr1 @ [PPool pool] @ tr2 @ [PStart, PPromiscuous]))"

definition DpdkPort_dtor :: "DpdkPort \<Rightarrow> eth_event list" where
  "DpdkPort_dtor p = [PStop, PClose] @ (if dp_mempool p \<noteq> 0 then [PPoolFree (dp_mempool p)] else [])"

definition Eal_new :: "int \<Rightarrow> unit result" where
  "Eal_new rc = (if rc < 0 then Inl (RuntimeError ''rte_eal_init failed'') else Inr ())"

section \<open>What a set-up leaves\<close>

lemma setup_queues_events:
  "fst (setup_queues E port pool qs) = Inr () \<Longrightarrow> snd (setup_queues E port pool qs) = concat (map (\<lambda>q. [PRxQueue q, PTxQueue q]) qs)"
  "PPoolFree p \<notin> set (snd (setup_queues E port pool qs))" "PPool p \<notin> set (snd (setup_queues E port pool qs))"
  by (induction qs) (auto split: prod.splits if_splits)

lemma Configure_events: "PPoolFree p \<notin> set (snd (Configure E port n))" "PPool p \<notin> set (snd (Configure E port n))"
  by (auto simp: Configure_def Let_def split: prod.splits)

text \<open>
  C39. Setting up the port. A constructor that returns has configured the device, made the buffer
  pool, set up every queue in both directions, in that order, and only then started it; its destructor
  gives the pool back. But a constructor that throws after it made the pool does not give it
  back, and a destructor does not run for it.
\<close>

theorem port_setup:
  "case DpdkPort_new E port n of
     (Inr p, tr) \<Rightarrow> dp_port_id p = port \<and> dp_mempool p \<noteq> 0
       \<and> (\<exists>rss. tr = [PConfigure port n rss, PPool (dp_mempool p)] @ concat (map (\<lambda>q. [PRxQueue q, PTxQueue q]) [0..<unat n]) @ [PStart, PPromiscuous])
       \<and> DpdkPort_dtor p = [PStop, PClose, PPoolFree (dp_mempool p)]
   | (Inl e, tr) \<Rightarrow> (\<forall>pool. PPoolFree pool \<notin> set tr)
       \<and> ((\<exists>pool. PPool pool \<in> set tr) \<longleftrightarrow> fst (Configure E port n) = Inr ()
            \<and> eth_pool_create E (''pool_'' @ dec (unat port)) kMbufCount kMbufCacheSize \<noteq> 0)"
proof -
  let ?pool = "eth_pool_create E (''pool_'' @ dec (unat port)) kMbufCount kMbufCacheSize"
  obtain r1 tr1 where c: "Configure E port n = (r1, tr1)" by fastforce
  obtain r2 tr2 where s: "SetupQueues E port ?pool n = (r2, tr2)" by fastforce
  have ce: "PPoolFree p \<notin> set tr1" "PPool p \<notin> set tr1" for p using Configure_events [of p E port n] c by simp_all
  have se: "r2 = Inr () \<Longrightarrow> tr2 = concat (map (\<lambda>q. [PRxQueue q, PTxQueue q]) [0..<unat n])"
    "PPoolFree p \<notin> set tr2" for p
    using setup_queues_events(1) [of E port ?pool "[0..<unat n]"] setup_queues_events(2) [of p E port ?pool "[0..<unat n]"] s
    by (simp_all add: SetupQueues_def)
  have rss: "r1 = Inr () \<Longrightarrow> \<exists>rss. tr1 = [PConfigure port n rss]"
    using c by (auto simp: Configure_def Let_def split: prod.splits if_splits)
  show ?thesis
    using c s ce se rss by (cases r1; cases "?pool = 0"; cases r2; cases "eth_start E port < 0")
      (auto simp: DpdkPort_new_def DpdkPort_dtor_def Let_def)
qed

end
