(* ===== verification/Dataplane_Main.thy ===== *)
theory Dataplane_Main
  imports Main_Graph Control_View Lb_Reply Dpdk_Port
begin

text \<open>
  The main thread of the dataplane, \<open>dataplane/src/main.cpp\<close>: it seeds the control view from
  the configuration, builds the first pool, gives every core its role, and then follows the
  control view. Creating a ring (\<open>io/ring.hpp\<close>) is DPDK's, a parameter.
\<close>

section \<open>Pools from control entries\<close>

definition slot_of :: "ControlBackend \<Rightarrow> BackendInfo" where
  "slot_of e = BackendInfo_default\<lparr>bi_ip := \<lparr>ip_value = cb_ip e\<rparr>, bi_port := cb_port e, bi_mac := \<lparr>mac_bytes = cb_mac e\<rparr>\<rparr>"

definition BuildPool :: "ControlBackend list \<Rightarrow> u32 \<Rightarrow> BackendPool result option" where
  "BuildPool src cnt =
     (if unat cnt > length src then Some (Inl (OutOfRange ''src''))
      else let es = take (unat cnt) src in BackendPool_enabled (map slot_of es) (map cb_enabled es))"

definition seed_entry :: "BackendInfo \<Rightarrow> ControlBackend" where
  "seed_entry b = \<lparr>cb_ip = ip_value (bi_ip b), cb_port = bi_port b, cb_mac = mac_bytes (bi_mac b), cb_enabled = 1\<rparr>"

definition SeedControl :: "ControlView \<Rightarrow> Config \<Rightarrow> ControlView" where
  "SeedControl view cfg = PublishControl view (map seed_entry (backends cfg)) (of_nat (length (backends cfg)))"

section \<open>The control loop\<close>

text \<open>One element of the list per round: the view as the round's \<open>ReadControl\<close> finds it.\<close>

fun RunControlLoop :: "ControlView list \<Rightarrow> ControlBackend list \<Rightarrow> BackendPool AtomicRcu \<Rightarrow> u32
    \<Rightarrow> (BackendPool AtomicRcu \<times> u32) result option" where
  "RunControlLoop [] snapshot rcu applied_seq = Some (Inr (rcu, applied_seq))"
| "RunControlLoop (view # views) snapshot rcu applied_seq =
     (case ReadControl view snapshot of
        None \<Rightarrow> None
      | Some (seq, cnt, snapshot') \<Rightarrow>
          if seq \<noteq> applied_seq then
            (case BuildPool snapshot' cnt of
               None \<Rightarrow> None
             | Some (Inl e) \<Rightarrow> Some (Inl e)
             | Some (Inr pool) \<Rightarrow> RunControlLoop views snapshot' (Rcu_Store pool rcu) seq)
          else RunControlLoop views snapshot' rcu applied_seq)"

section \<open>The cores\<close>

definition kRingSize :: nat where "kRingSize = 1024"
definition kEgressRingSize :: nat where "kEgressRingSize = 2048"
definition RING_F_SP_ENQ :: nat where "RING_F_SP_ENQ = 1"
definition RING_F_SC_DEQ :: nat where "RING_F_SC_DEQ = 2"

type_synonym ring_create = "string \<Rightarrow> nat \<Rightarrow> nat \<Rightarrow> nat"

definition Ring_new :: "ring_create \<Rightarrow> string \<Rightarrow> nat \<Rightarrow> nat \<Rightarrow> nat result" where
  "Ring_new rc name cnt flags =
     (let r = rc name cnt flags in if r = 0 then Inl (RuntimeError (''rte_ring_create failed: '' @ name)) else Inr r)"

fun ingress_rings :: "ring_create \<Rightarrow> nat list \<Rightarrow> (nat list) result" where
  "ingress_rings rc [] = Inr []"
| "ingress_rings rc (i # is') =
     bind_r (Ring_new rc (''cere_ingress_'' @ dec i) kRingSize (RING_F_SP_ENQ + RING_F_SC_DEQ)) (\<lambda>r.
     bind_r (ingress_rings rc is') (\<lambda>rs. Inr (r # rs)))"

text \<open>The body of \<open>RTE_LCORE_FOREACH_WORKER\<close>, for core number \<open>idx\<close>.\<close>

definition lcore_arg :: "Config \<Rightarrow> u16 \<Rightarrow> bool \<Rightarrow> u32 \<Rightarrow> nat list \<Rightarrow> nat \<Rightarrow> nat \<Rightarrow> u16 \<Rightarrow> LcoreArg" where
  "lcore_arg cfg port_id distributor n_workers rings egress idx worker_id =
     (let arg = \<lparr>la_role = kMono, la_port_id = port_id, la_worker_id = 0, la_n_workers = n_workers, la_cfg = cfg,
            la_stats = idx, la_worker_rings = [], la_ingress = 0, la_egress = 0\<rparr>
      in if \<not> distributor then arg\<lparr>la_role := kMono\<rparr>
         else let arg1 = arg\<lparr>la_worker_rings := rings, la_egress := egress\<rparr>
              in if idx = 0 then arg1\<lparr>la_role := kIo\<rparr>
                 else arg1\<lparr>la_role := kWorker, la_worker_id := worker_id, la_ingress := rings ! unat worker_id\<rparr>)"

fun launch_loop :: "Config \<Rightarrow> u16 \<Rightarrow> bool \<Rightarrow> u32 \<Rightarrow> nat list \<Rightarrow> nat \<Rightarrow> nat list \<Rightarrow> u16 \<Rightarrow> LcoreArg list" where
  "launch_loop cfg port_id distributor n_workers rings egress [] worker_id = []"
| "launch_loop cfg port_id distributor n_workers rings egress (idx # rest) worker_id =
     (let arg = lcore_arg cfg port_id distributor n_workers rings egress idx worker_id
      in arg # launch_loop cfg port_id distributor n_workers rings egress rest
           (if la_role arg = kWorker then worker_id + 1 else worker_id))"

definition launch :: "ring_create \<Rightarrow> Config \<Rightarrow> DpdkPort result \<Rightarrow> u32 \<Rightarrow> (LcoreArg list) result" where
  "launch rc cfg port lcore_count =
     (let total = lcore_count - 1 in
      if total < 1 then Inl (RuntimeError ''need >= 2 lcores: main + worker'')
      else if total > of_nat kMaxLcores then Inl (RuntimeError ''lcore count exceeds ipc::kMaxLcores'')
      else let distributor = total \<ge> 2;
               n_workers = (if distributor then total - 1 else 1)
           in bind_r port (\<lambda>pt.
              bind_r (if distributor then ingress_rings rc [0..<unat n_workers] else Inr []) (\<lambda>rings.
              bind_r (if distributor then Ring_new rc ''cere_egress'' kEgressRingSize RING_F_SC_DEQ else Inr 0) (\<lambda>egress.
                Inr (launch_loop cfg (dp_port_id pt) distributor n_workers rings egress [0..<unat total] 0)))))"

text \<open>\<open>RunDataplane\<close> up to its control loop, with the outcome of setting up the port: the view it seeded, the pool it stored, the sequence number it
  applied, and the cores it launched.\<close>

definition RunDataplane :: "ring_create \<Rightarrow> Config \<Rightarrow> DpdkPort result \<Rightarrow> u32 \<Rightarrow> ControlView \<Rightarrow> ControlBackend list
    \<Rightarrow> (ControlView \<times> BackendPool AtomicRcu \<times> u32 \<times> LcoreArg list) result option" where
  "RunDataplane rc cfg port lcore_count view snapshot =
     (let view1 = SeedControl view cfg in
      case ReadControl view1 snapshot of
        None \<Rightarrow> None
      | Some (seq, cnt, snapshot') \<Rightarrow>
          (case BuildPool snapshot' cnt of
             None \<Rightarrow> None
           | Some (Inl e) \<Rightarrow> Some (Inl e)
           | Some (Inr pool) \<Rightarrow>
               Some (bind_r (launch rc cfg port lcore_count) (\<lambda>args.
                 Inr (view1, Rcu_Store pool \<lparr>rcu_ptr = None\<rparr>, seq, args)))))"

section \<open>The pool follows the view\<close>

text \<open>The pool of a list of entries: one slot each, and the enabled ones active.\<close>

definition pool_of :: "ControlBackend list \<Rightarrow> BackendPool" where
  "pool_of es = \<lparr>bp_slots = map slot_of es, bp_active = map of_nat (filter (\<lambda>i. cb_enabled (es ! i) \<noteq> 0) [0..<length es])\<rparr>"

lemma BuildPool_eq:
  assumes "take (unat cnt) src = es" and "unat cnt \<le> length src" and "unat cnt \<le> kMaxBackends"
  shows "BuildPool src cnt = Some (Inr (pool_of es))" and "built_pool (pool_of es)"
proof -
  have len: "length es \<le> kMaxBackends" using assms by auto
  have "enabled_idx (map cb_enabled es) = filter (\<lambda>i. cb_enabled (es ! i) \<noteq> 0) [0..<length es]"
    unfolding enabled_idx_def by (rule filter_cong) simp_all
  then have e: "BackendPool_enabled (map slot_of es) (map cb_enabled es) = Some (Inr (pool_of es))"
    using len by (simp add: BackendPool_enabled_eq pool_of_def kMaxBackends_def)
  then show "BuildPool src cnt = Some (Inr (pool_of es))" using assms by (simp add: BuildPool_def)
  show "built_pool (pool_of es)" unfolding built_pool_def using e len by (metis length_map)
qed

definition publish :: "ControlBackend list \<Rightarrow> ControlView \<Rightarrow> ControlView" where
  "publish es view = PublishControl view es (of_nat (length es))"

text \<open>The views of successive polls, when before each poll the given lists were published.\<close>

fun polled :: "ControlView \<Rightarrow> ControlBackend list list list \<Rightarrow> ControlView list" where
  "polled view [] = []"
| "polled view (ps # pss) = (let view' = fold publish ps view in view' # polled view' pss)"

lemma even_plus2: "(x :: u32) AND 1 = 0 \<Longrightarrow> (x + 2) AND 1 = 0"
  by (simp add: and_one_eq even_iff_mod_2_eq_zero [symmetric] one_and_eq)

definition quiet :: "ControlView \<Rightarrow> bool" where
  "quiet view \<longleftrightarrow> view_ok view \<and> cv_seq view AND 1 = 0"

lemma publish_quiet:
  assumes "quiet view" and "length es < 2 ^ 32"
  shows "quiet (publish es view)" and "cv_seq (publish es view) = cv_seq view + 2" and "contents (publish es view) = take kMaxBackends es"
proof -
  have u: "unat (of_nat (length es) :: u32) = length es" using assms(2) by (simp add: unat_of_nat take_bit_nat_eq_self)
  then have "min (unat (of_nat (length es) :: u32)) kMaxBackends \<le> length es" by simp
  from PublishControl_ok [OF _ this, of view] u assms(1) even_plus2 [of "cv_seq view"]
  show "quiet (publish es view)" "cv_seq (publish es view) = cv_seq view + 2" "contents (publish es view) = take kMaxBackends es"
    by (simp_all add: quiet_def publish_def min_def)
qed

lemma publishes_quiet:
  assumes "quiet view" and "\<forall>es \<in> set ps. length es < 2 ^ 32"
  shows "quiet (fold publish ps view)" and "cv_seq (fold publish ps view) = cv_seq view + 2 * of_nat (length ps)"
  using assms
proof (induction ps arbitrary: view)
  case (Cons es ps)
  {
    case 1
    with publish_quiet(1) [of view es] Cons.IH(1) show ?case by simp
  next
    case 2
    with publish_quiet(1,2) [of view es] Cons.IH(2) [of "publish es view"] show ?case by (simp add: algebra_simps)
  }
qed simp_all

lemma publishes_seen:
  assumes "quiet view" and "\<forall>es \<in> set ps. length es < 2 ^ 32" and "length ps < 2 ^ 31"
    and "cv_seq (fold publish ps view) = cv_seq view"
  shows "ps = []"
proof -
  have "(2 * of_nat (length ps) :: u32) = 0" using publishes_quiet(2) [OF assms(1,2)] assms(4) by simp
  then have "unat (of_nat (2 * length ps) :: u32) = 0" by simp
  moreover have "unat (of_nat (2 * length ps) :: u32) = 2 * length ps"
    using assms(3) by (simp add: unat_of_nat take_bit_nat_eq_self del: of_nat_mult)
  ultimately show ?thesis by simp
qed

lemma poll_once:
  assumes "quiet view" and "length snapshot = kMaxBackends"
  obtains snapshot' where "ReadControl view snapshot = Some (cv_seq view, cv_count view, snapshot')" "length snapshot' = kMaxBackends"
    "BuildPool snapshot' (cv_count view) = Some (Inr (pool_of (contents view)))" "built_pool (pool_of (contents view))"
proof -
  have v: "view_ok view" "cv_seq view AND 1 = 0" using assms(1) by (simp_all add: quiet_def)
  obtain s where "ReadControl view snapshot = Some (cv_seq view, cv_count view, s)" "length s = kMaxBackends"
    "take (unat (cv_count view)) s = contents view" by (rule ReadControl_eq [OF v assms(2)])
  with that BuildPool_eq [of "cv_count view" s "contents view"] v(1) show ?thesis by (simp add: view_ok_def)
qed

lemma control_loop_run:
  assumes "quiet view" and "length snapshot = kMaxBackends"
    and "\<forall>ps \<in> set pss. length ps < 2 ^ 31 \<and> (\<forall>es \<in> set ps. length es < 2 ^ 32)"
  shows "RunControlLoop (polled view pss) snapshot \<lparr>rcu_ptr = Some (pool_of (contents view))\<rparr> (cv_seq view) =
      Some (Inr (\<lparr>rcu_ptr = Some (pool_of (contents (fold publish (concat pss) view)))\<rparr>, cv_seq (fold publish (concat pss) view)))
    \<and> built_pool (pool_of (contents (fold publish (concat pss) view)))"
  using assms
proof (induction pss arbitrary: view snapshot)
  case Nil
  then show ?case by (auto elim: poll_once)
next
  case (Cons ps pss)
  let ?u = "fold publish ps view"
  have ps: "\<forall>es \<in> set ps. length es < 2 ^ 32" "length ps < 2 ^ 31" using Cons.prems(3) by simp_all
  have q: "quiet ?u" by (rule publishes_quiet(1) [OF Cons.prems(1) ps(1)])
  obtain s where s: "ReadControl ?u snapshot = Some (cv_seq ?u, cv_count ?u, s)" "length s = kMaxBackends"
    "BuildPool s (cv_count ?u) = Some (Inr (pool_of (contents ?u)))" by (rule poll_once [OF q Cons.prems(2)])
  have "RunControlLoop (polled view (ps # pss)) snapshot \<lparr>rcu_ptr = Some (pool_of (contents view))\<rparr> (cv_seq view)
      = RunControlLoop (polled ?u pss) s \<lparr>rcu_ptr = Some (pool_of (contents ?u))\<rparr> (cv_seq ?u)"
  proof (cases "cv_seq ?u = cv_seq view")
    case True
    then have "ps = []" by (rule publishes_seen [OF Cons.prems(1) ps])
    with s True show ?thesis by simp
  next
    case False
    with s show ?thesis by (simp add: Let_def Rcu_Store_def)
  qed
  with Cons.IH [OF q s(2)] Cons.prems(3) show ?case by simp
qed

text \<open>
  C18. The balancer follows the control plane. Whatever lists of backends are published between
  its polls (fewer than two to the 31 at a time, so that the sequence number does not come back
  to a value it had), the loop keeps running, and after the last poll the pool in place is the
  one of the view: a slot for each of the first 64 entries, and active the enabled ones. It is a
  pool the load balancer can work with.
\<close>

theorem control_loop_follows:
  assumes "quiet view" and "length snapshot = kMaxBackends"
    and "\<forall>ps \<in> set pss. length ps < 2 ^ 31 \<and> (\<forall>es \<in> set ps. length es < 2 ^ 32)"
  shows "RunControlLoop (polled view pss) snapshot \<lparr>rcu_ptr = Some (pool_of (contents view))\<rparr> (cv_seq view) =
      Some (Inr (\<lparr>rcu_ptr = Some (pool_of (contents (fold publish (concat pss) view)))\<rparr>, cv_seq (fold publish (concat pss) view)))
    \<and> built_pool (pool_of (contents (fold publish (concat pss) view)))"
  using assms by (rule control_loop_run)

theorem control_loop_follows_witness:
  "\<exists>rcu. RunControlLoop (polled ex_view [[], [[ex_backend]]]) (replicate kMaxBackends ex_backend)
      \<lparr>rcu_ptr = Some (pool_of [])\<rparr> 0 = Some (Inr (rcu, 2)) \<and> rcu_ptr rcu = Some (pool_of [ex_backend])"
proof -
  have q: "quiet ex_view" by (simp add: quiet_def view_ok_def ex_view_def)
  have z: "contents ex_view = []" "cv_seq ex_view = 0" by (simp_all add: contents_def ex_view_def)
  have e: "length [ex_backend] < 2 ^ 32" by simp
  from control_loop_follows [OF q, of "replicate kMaxBackends ex_backend" "[[], [[ex_backend]]]"]
  show ?thesis using publish_quiet(2,3) [OF q e] by (simp add: z kMaxBackends_def del: polled.simps)
qed

section \<open>The roles\<close>

lemma launch_loop_workers:
  assumes "0 < k" and "unat wid + length [k..<m] < 65536"
  shows "launch_loop cfg port True n rings egress [k..<m] wid =
    map (\<lambda>i. lcore_arg cfg port True n rings egress i (wid + of_nat (i - k))) [k..<m]"
  using assms
proof (induction "m - k" arbitrary: k wid)
  case 0
  then show ?case by simp
next
  case (Suc j)
  then have km: "k < m" by simp
  have "unat (wid + 1) = unat wid + 1" using Suc.prems(2) km by (simp add: unat_word_ariths)
  with Suc.hyps(1) [of "Suc k" "wid + 1"] Suc.hyps(2) Suc.prems have
    "launch_loop cfg port True n rings egress [Suc k..<m] (wid + 1) =
      map (\<lambda>i. lcore_arg cfg port True n rings egress i (wid + 1 + of_nat (i - Suc k))) [Suc k..<m]" by simp
  also have "\<dots> = map (\<lambda>i. lcore_arg cfg port True n rings egress i (wid + of_nat (i - k))) [Suc k..<m]"
  proof (rule map_cong [OF refl])
    fix i
    assume "i \<in> set [Suc k..<m]"
    then have "i - k = Suc (i - Suc k)" by auto
    then show "lcore_arg cfg port True n rings egress i (wid + 1 + of_nat (i - Suc k)) =
        lcore_arg cfg port True n rings egress i (wid + of_nat (i - k))" by (simp add: algebra_simps)
  qed
  finally show ?case using Suc.prems(1) km by (simp add: upt_conv_Cons lcore_arg_def Let_def)
qed

lemma ingress_rings_length: "ingress_rings rc is' = Inr rs \<Longrightarrow> length rs = length is' \<and> 0 \<notin> set rs"
proof (induction is' arbitrary: rs)
  case (Cons i is')
  then show ?case by (auto simp: bind_r_def Ring_new_def Let_def split: sum.splits if_splits)
qed simp

lemma launch_cases:
  assumes "launch rc cfg (Inr pt) lcore_count = Inr args"
  shows "1 \<le> unat (lcore_count - 1)" and "unat (lcore_count - 1) \<le> kMaxLcores"
    and "unat (lcore_count - 1) = 1 \<Longrightarrow> args = [lcore_arg cfg (dp_port_id pt) False 1 [] 0 0 0]"
    and "2 \<le> unat (lcore_count - 1) \<Longrightarrow> \<exists>rings egress. length rings = unat (lcore_count - 1) - 1 \<and> 0 \<notin> set rings \<and> egress \<noteq> 0
      \<and> args = lcore_arg cfg (dp_port_id pt) True (lcore_count - 2) rings egress 0 0
          # map (\<lambda>i. lcore_arg cfg (dp_port_id pt) True (lcore_count - 2) rings egress i (of_nat (i - 1))) [1..<unat (lcore_count - 1)]"
proof -
  let ?t = "lcore_count - 1"
  have b: "\<not> ?t < 1" "\<not> ?t > of_nat kMaxLcores" using assms by (auto simp: launch_def Let_def split: if_splits)
  then show lo: "1 \<le> unat ?t" and hi: "unat ?t \<le> kMaxLcores"
    by (simp_all add: word_less_nat_alt kMaxLcores_def not_less)
  have two: "2 \<le> ?t \<longleftrightarrow> 2 \<le> unat ?t" by (simp add: word_le_nat_alt)
  show "unat ?t = 1 \<Longrightarrow> args = [lcore_arg cfg (dp_port_id pt) False 1 [] 0 0 0]"
    using assms b two by (simp add: launch_def Let_def)
  assume t: "2 \<le> unat ?t"
  have n: "unat (?t - 1) = unat ?t - 1" using t by (subst unat_minus_one) auto
  have tt: "?t - 1 = lcore_count - 2" by simp
  obtain rings egress where r: "ingress_rings rc [0..<unat ?t - 1] = Inr rings"
    "Ring_new rc ''cere_egress'' kEgressRingSize RING_F_SC_DEQ = Inr egress"
    "args = launch_loop cfg (dp_port_id pt) True (?t - 1) rings egress [0..<unat ?t] 0"
    using assms b t two n by (auto simp: launch_def Let_def bind_r_def split: sum.splits)
  have "[0..<unat ?t] = 0 # [1..<unat ?t]" using t by (simp add: upt_conv_Cons)
  then have "args = lcore_arg cfg (dp_port_id pt) True (?t - 1) rings egress 0 0
      # map (\<lambda>i. lcore_arg cfg (dp_port_id pt) True (?t - 1) rings egress i (of_nat (i - 1))) [1..<unat ?t]"
    using r(3) launch_loop_workers [of 1 0 "unat ?t" cfg "dp_port_id pt" "?t - 1" rings egress] hi
    by (simp add: lcore_arg_def Let_def kMaxLcores_def)
  with ingress_rings_length [OF r(1)] r(2) show "\<exists>rings egress. length rings = unat ?t - 1 \<and> 0 \<notin> set rings \<and> egress \<noteq> 0
      \<and> args = lcore_arg cfg (dp_port_id pt) True (lcore_count - 2) rings egress 0 0
          # map (\<lambda>i. lcore_arg cfg (dp_port_id pt) True (lcore_count - 2) rings egress i (of_nat (i - 1))) [1..<unat ?t]"
    unfolding tt by (auto simp: Ring_new_def Let_def split: if_splits)
qed

lemma roles_nth:
  assumes "launch rc cfg (Inr pt) lcore_count = Inr args" and "2 \<le> unat (lcore_count - 1)" and "i < unat (lcore_count - 1)"
  obtains rings egress where "length args = unat (lcore_count - 1)" "length rings = unat (lcore_count - 1) - 1"
    "args ! i = lcore_arg cfg (dp_port_id pt) True (lcore_count - 2) rings egress i (of_nat (i - 1))"
    "la_worker_rings (args ! 0) = rings" "la_egress (args ! 0) = egress" "0 \<notin> set rings" "egress \<noteq> 0"
proof -
  obtain rings egress where r: "length rings = unat (lcore_count - 1) - 1" "0 \<notin> set rings" "egress \<noteq> 0"
    "args = lcore_arg cfg (dp_port_id pt) True (lcore_count - 2) rings egress 0 0
       # map (\<lambda>i. lcore_arg cfg (dp_port_id pt) True (lcore_count - 2) rings egress i (of_nat (i - 1))) [1..<unat (lcore_count - 1)]"
    using launch_cases(4) [OF assms(1,2)] by blast
  have "args ! i = lcore_arg cfg (dp_port_id pt) True (lcore_count - 2) rings egress i (of_nat (i - 1))"
    using assms(3) by (cases i) (simp_all add: r(4))
  with that r show ?thesis using assms(2) by (simp add: lcore_arg_def Let_def)
qed

lemma distributor_roles:
  assumes l: "launch rc cfg (Inr pt) lcore_count = Inr args" and t: "2 \<le> unat (lcore_count - 1)"
  shows "length args = unat (lcore_count - 1)" and "unat (lcore_count - 2) = length args - 1"
    and "length (la_worker_rings (args ! 0)) = length args - 1"
    and "\<And>i. i < length args \<Longrightarrow> arg_ok (args ! i) \<and> la_stats (args ! i) = i \<and> la_cfg (args ! i) = cfg
      \<and> la_n_workers (args ! i) = lcore_count - 2 \<and> la_role (args ! i) = (if i = 0 then kIo else kWorker)"
    and "\<And>w. w < length args - 1 \<Longrightarrow> unat (la_worker_id (args ! Suc w)) = w
      \<and> la_ingress (args ! Suc w) = la_worker_rings (args ! 0) ! w \<and> la_egress (args ! Suc w) = la_egress (args ! 0)"
proof -
  let ?t = "unat (lcore_count - 1)"
  have t': "?t \<le> kMaxLcores" using launch_cases(2) [OF l] by simp
  have z: "0 < ?t" using t by simp
  obtain rings0 where "length args = ?t" "length rings0 = ?t - 1" "la_worker_rings (args ! 0) = rings0"
    by (rule roles_nth [OF l t z])
  then show len: "length args = ?t" and lr: "length (la_worker_rings (args ! 0)) = length args - 1" by simp_all
  have "lcore_count - 2 = (lcore_count - 1) - 1" by simp
  then show n: "unat (lcore_count - 2) = length args - 1"
    using t unfolding len by (metis unat_minus_one unat_0 not_numeral_le_zero)
  have n0: "0 < lcore_count - 2" using n t len by (simp add: word_less_nat_alt)
  show "arg_ok (args ! i) \<and> la_stats (args ! i) = i \<and> la_cfg (args ! i) = cfg
      \<and> la_n_workers (args ! i) = lcore_count - 2 \<and> la_role (args ! i) = (if i = 0 then kIo else kWorker)"
    if i: "i < length args" for i
  proof -
    have i': "i < ?t" using i len by simp
    obtain rings egress where r: "length rings = ?t - 1" "args ! i = lcore_arg cfg (dp_port_id pt) True (lcore_count - 2) rings egress i (of_nat (i - 1))"
      by (rule roles_nth [OF l t i'])
    then show ?thesis using n n0 len by (simp add: lcore_arg_def Let_def arg_ok_def)
  qed
  show "unat (la_worker_id (args ! Suc w)) = w \<and> la_ingress (args ! Suc w) = la_worker_rings (args ! 0) ! w
      \<and> la_egress (args ! Suc w) = la_egress (args ! 0)" if w: "w < length args - 1" for w
  proof -
    have i': "Suc w < ?t" using w len by simp
    obtain rings egress where r: "args ! Suc w = lcore_arg cfg (dp_port_id pt) True (lcore_count - 2) rings egress (Suc w) (of_nat (Suc w - 1))"
      "la_worker_rings (args ! 0) = rings" "la_egress (args ! 0) = egress" by (rule roles_nth [OF l t i'])
    have "unat (of_nat w :: u16) = w" using i' t' by (simp add: unat_of_nat take_bit_nat_eq_self kMaxLcores_def)
    then show ?thesis using r by (simp add: lcore_arg_def Let_def)
  qed
qed

text \<open>
  The cores' roles. With one core besides the main one it does everything; with more, the
  first is the distributor and the others are workers numbered from 0, each reading the ring the
  distributor fills for its number, and all sending through the same egress ring. Every core
  counts in its own entry of the statistics, and there are at most 32.
\<close>

theorem roles_assigned:
  assumes l: "launch rc cfg (Inr pt) lcore_count = Inr args"
  shows "length args = unat (lcore_count - 1) \<and> 1 \<le> length args \<and> length args \<le> kMaxLcores
    \<and> (\<forall>i < length args. arg_ok (args ! i) \<and> la_stats (args ! i) = i \<and> la_cfg (args ! i) = cfg)
    \<and> (length args = 1 \<longrightarrow> la_role (args ! 0) = kMono)
    \<and> (2 \<le> length args \<longrightarrow> la_role (args ! 0) = kIo \<and> unat (la_n_workers (args ! 0)) = length args - 1
        \<and> (\<forall>w < length args - 1. la_role (args ! (w + 1)) = kWorker \<and> unat (la_worker_id (args ! (w + 1))) = w
            \<and> la_n_workers (args ! (w + 1)) = la_n_workers (args ! 0)
            \<and> la_ingress (args ! (w + 1)) = la_worker_rings (args ! 0) ! w
            \<and> la_egress (args ! (w + 1)) = la_egress (args ! 0)))"
proof (cases "unat (lcore_count - 1) = 1")
  case True
  then have "args = [lcore_arg cfg (dp_port_id pt) False 1 [] 0 0 0]" by (rule launch_cases(3) [OF l])
  with True show ?thesis by (simp add: lcore_arg_def Let_def arg_ok_def kMaxLcores_def)
next
  case False
  have t: "2 \<le> unat (lcore_count - 1)" "unat (lcore_count - 1) \<le> kMaxLcores" using launch_cases(1,2) [OF l] False by simp_all
  note d = distributor_roles [OF l t(1)]
  have 0: "0 < length args" using d(1) t(1) by linarith
  have w: "la_role (args ! (w + 1)) = kWorker \<and> unat (la_worker_id (args ! (w + 1))) = w
      \<and> la_n_workers (args ! (w + 1)) = la_n_workers (args ! 0) \<and> la_ingress (args ! (w + 1)) = la_worker_rings (args ! 0) ! w
      \<and> la_egress (args ! (w + 1)) = la_egress (args ! 0)" if "w < length args - 1" for w
  proof -
    have "Suc w < length args" using that by simp
    from d(4) [OF this] d(4) [OF 0] d(5) [OF that] show ?thesis by simp
  qed
  have "arg_ok (args ! i) \<and> la_stats (args ! i) = i \<and> la_cfg (args ! i) = cfg" if "i < length args" for i
    using d(4) [OF that] by blast
  moreover have "la_role (args ! 0) = kIo" "la_n_workers (args ! 0) = lcore_count - 2" using d(4) [OF 0] by simp_all
  ultimately show ?thesis using w d(1,2) t by simp
qed

text \<open>
  The distributor's packets reach the right core: for every packet it steers, there is
  exactly one worker with the number the packet was steered to, and the ring the packet goes
  into is the one that worker reads.
\<close>

theorem steered_ring_is_read:
  assumes l: "launch rc cfg (Inr pt) lcore_count = Inr args" and two: "2 \<le> unat (lcore_count - 1)"
    and st: "steer_cls (ClassifyForSteer I D cfg (la_n_workers (args ! 0)) mb) = kSteer"
  shows "\<exists>!i. i < length args \<and> la_role (args ! i) = kWorker
    \<and> unat (la_worker_id (args ! i)) = unat (steer_worker (ClassifyForSteer I D cfg (la_n_workers (args ! 0)) mb))
    \<and> unat (steer_worker (ClassifyForSteer I D cfg (la_n_workers (args ! 0)) mb)) < length (la_worker_rings (args ! 0))
    \<and> la_ingress (args ! i) = la_worker_rings (args ! 0) ! unat (steer_worker (ClassifyForSteer I D cfg (la_n_workers (args ! 0)) mb))"
proof -
  note d = distributor_roles [OF l two]
  have z: "0 < length args" using d(1) two by linarith
  let ?n = "la_n_workers (args ! 0)"
  let ?k = "unat (steer_worker (ClassifyForSteer I D cfg ?n mb))"
  have n: "?n = lcore_count - 2" using d(4) [OF z] by simp
  have "0 < ?n" using n d(1,2) two by (simp add: word_less_nat_alt)
  then have k: "?k < length args - 1" using steer_worker_less [OF _ st] n d(2) by (simp add: word_less_nat_alt)
  then have sk: "Suc ?k < length args" by simp
  show ?thesis
  proof (rule ex1I [of _ "Suc ?k"])
    show "Suc ?k < length args \<and> la_role (args ! Suc ?k) = kWorker \<and> unat (la_worker_id (args ! Suc ?k)) = ?k
      \<and> ?k < length (la_worker_rings (args ! 0)) \<and> la_ingress (args ! Suc ?k) = la_worker_rings (args ! 0) ! ?k"
      using sk d(3) d(4) [OF sk] d(5) [OF k] k by simp
  next
    fix i
    assume i: "i < length args \<and> la_role (args ! i) = kWorker \<and> unat (la_worker_id (args ! i)) = ?k
      \<and> ?k < length (la_worker_rings (args ! 0)) \<and> la_ingress (args ! i) = la_worker_rings (args ! 0) ! ?k"
    then have "i \<noteq> 0" using d(4) [OF z] by (intro notI) simp
    then obtain j where j: "i = Suc j" by (cases i) auto
    then have "j < length args - 1" using i by auto
    from d(5) [OF this] i j show "i = Suc ?k" by simp
  qed
qed

definition ex_port :: DpdkPort where
  "ex_port = \<lparr>dp_port_id = 0, dp_mempool = 1\<rparr>"

definition ex_rings :: ring_create where
  "ex_rings name cnt flags = 7"

lemma ex_launch: "launch ex_rings ex_cfg (Inr ex_port) 3 = Inr [lcore_arg ex_cfg 0 True 1 [7] 7 0 0, lcore_arg ex_cfg 0 True 1 [7] 7 1 0]"
  by code_simp

theorem roles_assigned_witness:
  "\<exists>args. launch ex_rings ex_cfg (Inr ex_port) 3 = Inr args \<and> length args = 2 \<and> la_role (args ! 0) = kIo \<and> la_role (args ! 1) = kWorker"
  using roles_assigned [OF ex_launch] ex_launch by (simp add: lcore_arg_def Let_def)

theorem steered_ring_is_read_witness:
  "\<exists>args. launch ex_rings ex_cfg (Inr ex_port) 3 = Inr args
    \<and> (\<exists>i. i < length args \<and> la_role (args ! i) = kWorker \<and> la_ingress (args ! i) = 7
        \<and> unat (la_worker_id (args ! i)) = unat (steer_worker (ClassifyForSteer Generic ex_dpdk ex_cfg 1 ex_mbuf)))"
proof -
  let ?args = "[lcore_arg ex_cfg 0 True 1 [7] 7 0 0, lcore_arg ex_cfg 0 True 1 [7] 7 1 0]"
  have n: "la_n_workers (?args ! 0) = 1" by (simp add: lcore_arg_def Let_def)
  have rings: "la_worker_rings (?args ! 0) = [7]" by (simp add: lcore_arg_def Let_def)
  have "steer_cls (ClassifyForSteer Generic ex_dpdk ex_cfg (la_n_workers (?args ! 0)) ex_mbuf) = kSteer"
    unfolding n using ex_mbuf_fwd
    by (simp add: ClassifyForSteer_def Classify_def ClassifyIpv4_def Let_def ReadL4Ports_def ReadPorts_def kNextArp_ip_def
        kNextDrop_ip_def kNextFwd_def kNextRev_def split: if_splits)
  from steered_ring_is_read [OF ex_launch _ this] obtain i where "i < length ?args" "la_role (?args ! i) = kWorker"
    "unat (la_worker_id (?args ! i)) = unat (steer_worker (ClassifyForSteer Generic ex_dpdk ex_cfg (la_n_workers (?args ! 0)) ex_mbuf))"
    "unat (steer_worker (ClassifyForSteer Generic ex_dpdk ex_cfg (la_n_workers (?args ! 0)) ex_mbuf)) < length (la_worker_rings (?args ! 0))"
    "la_ingress (?args ! i) = la_worker_rings (?args ! 0) ! unat (steer_worker (ClassifyForSteer Generic ex_dpdk ex_cfg (la_n_workers (?args ! 0)) ex_mbuf))"
    by auto
  then show ?thesis unfolding rings n using ex_launch by (intro exI conjI) simp_all
qed

section \<open>Starting up\<close>

lemma ingress_rings_created:
  assumes "\<forall>name cnt flags. rc name cnt flags \<noteq> 0"
  shows "\<exists>rs. ingress_rings rc is' = Inr rs"
  using assms by (induction is') (auto simp: Ring_new_def Let_def)

text \<open>
  C26. Starting up. On a control view no one is writing, and with the rings created, the dataplane
  refuses to start with no core besides the main one, or more than 32 of them (a count of 0 wraps
  around and is refused as too many), or when the port cannot be set up. Otherwise it starts with the configuration published,
  at most 64 backends of it, and with a pool in which those are all active.
\<close>

theorem dataplane_starts:
  assumes q: "quiet view" and snap: "length snapshot = kMaxBackends" and cfg: "length (backends cfg) < 2 ^ 32"
    and rc: "\<forall>name cnt flags. rc name cnt flags \<noteq> 0"
  shows "(lcore_count = 1 \<longrightarrow> RunDataplane rc cfg (Inr pt) lcore_count view snapshot =
          Some (Inl (RuntimeError ''need >= 2 lcores: main + worker'')))
    \<and> (lcore_count = 0 \<or> 33 < lcore_count \<longrightarrow> RunDataplane rc cfg (Inr pt) lcore_count view snapshot =
          Some (Inl (RuntimeError ''lcore count exceeds ipc::kMaxLcores'')))
    \<and> (2 \<le> lcore_count \<and> lcore_count \<le> 33 \<longrightarrow> RunDataplane rc cfg (Inl e) lcore_count view snapshot = Some (Inl e))
    \<and> (2 \<le> lcore_count \<and> lcore_count \<le> 33 \<longrightarrow>
        (\<exists>view' pool args. RunDataplane rc cfg (Inr pt) lcore_count view snapshot =
            Some (Inr (view', \<lparr>rcu_ptr = Some pool\<rparr>, cv_seq view + 2, args))
          \<and> launch rc cfg (Inr pt) lcore_count = Inr args \<and> quiet view' \<and> built_pool pool
          \<and> contents view' = map seed_entry (take kMaxBackends (backends cfg))
          \<and> map bi_ip (bp_slots pool) = map bi_ip (take kMaxBackends (backends cfg))
          \<and> map bi_port (bp_slots pool) = map bi_port (take kMaxBackends (backends cfg))
          \<and> bp_active pool = map of_nat [0..<min (length (backends cfg)) kMaxBackends]))"
proof -
  let ?es = "map seed_entry (backends cfg)"
  let ?v = "SeedControl view cfg"
  have v: "?v = publish ?es view" by (simp add: SeedControl_def publish_def)
  have len: "length ?es < 2 ^ 32" using cfg by simp
  note p = publish_quiet [OF q len, folded v]
  obtain s where s: "ReadControl ?v snapshot = Some (cv_seq ?v, cv_count ?v, s)"
    "BuildPool s (cv_count ?v) = Some (Inr (pool_of (contents ?v)))" "built_pool (pool_of (contents ?v))"
    by (rule poll_once [OF p(1) snap])
  have run: "RunDataplane rc cfg port lcore_count view snapshot = Some (bind_r (launch rc cfg port lcore_count)
      (\<lambda>args. Inr (?v, \<lparr>rcu_ptr = Some (pool_of (contents ?v))\<rparr>, cv_seq view + 2, args)))" for port
    using s(1,2) p(2) by (simp add: RunDataplane_def Rcu_Store_def Let_def)
  have c: "contents ?v = map seed_entry (take kMaxBackends (backends cfg))" using p(3) by (simp add: take_map)
  have "map bi_ip (bp_slots (pool_of (contents ?v))) = map bi_ip (take kMaxBackends (backends cfg))"
    "map bi_port (bp_slots (pool_of (contents ?v))) = map bi_port (take kMaxBackends (backends cfg))"
    unfolding c pool_of_def by (simp_all add: slot_of_def seed_entry_def)
  moreover have "bp_active (pool_of (contents ?v)) = map of_nat [0..<min (length (backends cfg)) kMaxBackends]"
  proof -
    have "filter (\<lambda>i. cb_enabled (contents ?v ! i) \<noteq> 0) [0..<length (contents ?v)] = [0..<length (contents ?v)]"
      unfolding c by (rule filter_True) (simp add: seed_entry_def)
    then show ?thesis by (simp add: pool_of_def) (simp add: c)
  qed
  moreover have total: "\<not> lcore_count - 1 < 1" "\<not> lcore_count - 1 > of_nat kMaxLcores" if b: "2 \<le> lcore_count" "lcore_count \<le> 33"
  proof -
    have "unat (lcore_count - 1) = unat lcore_count - 1" using b(1) by (subst unat_minus_one) auto
    then show "\<not> lcore_count - 1 < 1" "\<not> lcore_count - 1 > of_nat kMaxLcores"
      using b by (simp_all add: word_less_nat_alt word_le_nat_alt kMaxLcores_def)
  qed
  have "\<exists>args. launch rc cfg (Inr pt) lcore_count = Inr args" if b: "2 \<le> lcore_count" "lcore_count \<le> 33"
  proof -
    have "Ring_new rc n k f = Inr (rc n k f)" for n k f using rc by (simp add: Ring_new_def Let_def)
    moreover obtain rs where "ingress_rings rc [0..<unat (lcore_count - 1 - 1)] = Inr rs"
      using ingress_rings_created [OF rc] by blast
    ultimately show ?thesis using total [OF b] by (simp add: launch_def Let_def)
  qed
  moreover have "launch rc cfg (Inl e) lcore_count = Inl e" if b: "2 \<le> lcore_count" "lcore_count \<le> 33"
    using total [OF b] by (simp add: launch_def Let_def)
  moreover have "launch rc cfg (Inr pt) 1 = Inl (RuntimeError ''need >= 2 lcores: main + worker'')" by (simp add: launch_def)
  moreover have "launch rc cfg (Inr pt) lcore_count = Inl (RuntimeError ''lcore count exceeds ipc::kMaxLcores'')"
    if "lcore_count = 0 \<or> 33 < lcore_count"
  proof (cases "lcore_count = 0")
    case True
    then show ?thesis by (simp add: launch_def kMaxLcores_def)
  next
    case False
    then have "unat (lcore_count - 1) = unat lcore_count - 1" by (rule unat_minus_one)
    with that False have "\<not> lcore_count - 1 < 1" "lcore_count - 1 > of_nat kMaxLcores"
      by (simp_all add: word_less_nat_alt kMaxLcores_def)
    then show ?thesis by (simp add: launch_def Let_def)
  qed
  ultimately show ?thesis unfolding run using p(1) s(3) c by auto
qed

theorem dataplane_starts_witness:
  "\<exists>view' pool args. RunDataplane ex_rings ex_cfg (Inr ex_port) 3 ex_view (replicate kMaxBackends ex_backend) =
      Some (Inr (view', \<lparr>rcu_ptr = Some pool\<rparr>, 2, args)) \<and> built_pool pool"
proof -
  have "quiet ex_view" by (simp add: quiet_def view_ok_def ex_view_def)
  moreover have "length (backends ex_cfg) < 2 ^ 32" by (simp add: ex_cfg_def Config_default_def)
  moreover have "cv_seq ex_view = 0" by (simp add: ex_view_def)
  ultimately show ?thesis
    using dataplane_starts [of ex_view "replicate kMaxBackends ex_backend" ex_cfg ex_rings 3 ex_port AssertFail] by (auto simp: ex_rings_def)
qed

end
