(* ===== verification/Fleet.thy ===== *)
theory Fleet
  imports Ring_Ledger Dataplane_Main
begin

text \<open>
  The dataplane's cores together. \<open>RunDataplane\<close> creates the rings, gives every core its role and launches
  it; the step machines of the cores are then interleaved in any order, on one device state that holds
  the rings. In between act the network card and the control thread (the relation \<open>E\<close>), and the signal
  handler. A step is one call of a node's \<open>Process\<close>, which is coarser than the program: several ring operations of
  one call are not interleaved with those of other cores.
\<close>

section \<open>The rings \<open>RunDataplane\<close> creates\<close>

text \<open>DPDK finds rings by name: one that exists under another name has another handle.\<close>

definition rings_named :: "ring_create \<Rightarrow> bool" where
  "rings_named rc \<longleftrightarrow> (\<forall>n k f n' k' f'. n \<noteq> n' \<longrightarrow> rc n k f \<noteq> 0 \<longrightarrow> rc n k f \<noteq> rc n' k' f')"

definition undec :: "string \<Rightarrow> nat" where
  "undec = foldl (\<lambda>v c. 10 * v + (of_char c - 48)) 0"

lemma undec_dec: "undec (dec n) = n"
proof (induction n rule: dec.induct)
  case (1 n)
  have "of_char (char_of (48 + n mod 10) :: char) = 48 + n mod 10" by (simp add: of_char_of take_bit_nat_eq_self)
  with 1 show ?case by (subst dec.simps) (auto simp: undec_def)
qed

lemma dec_inj: "dec m = dec n \<longleftrightarrow> m = n"
  by (metis undec_dec)

lemma ingress_rings_eq:
  "ingress_rings rc is' = Inr rs \<Longrightarrow>
    rs = map (\<lambda>i. rc (''cere_ingress_'' @ dec i) kRingSize (RING_F_SP_ENQ + RING_F_SC_DEQ)) is' \<and> 0 \<notin> set rs"
proof (induction is' arbitrary: rs)
  case (Cons i is')
  then show ?case by (auto simp: bind_r_def Ring_new_def Let_def split: sum.splits if_splits)
qed simp

lemma launch_length:
  assumes l: "launch rc cfg (Inr pt) n = Inr args"
  shows "length args = unat (n - 1)"
proof (cases "unat (n - 1) = 1")
  case True
  then show ?thesis using launch_cases(3) [OF l True] by simp
next
  case False
  then have "2 \<le> unat (n - 1)" using launch_cases(1) [OF l] by simp
  then show ?thesis by (rule distributor_roles(1) [OF l])
qed

lemma launch_rings:
  assumes l: "launch rc cfg (Inr pt) n = Inr args" and two: "2 \<le> length args" and rc: "rings_named rc"
  shows "distinct (la_egress (args ! 0) # la_worker_rings (args ! 0))"
proof -
  have len: "length args = unat (n - 1)" by (rule launch_length [OF l])
  then have t: "2 \<le> n - 1" using two by (simp add: word_le_nat_alt)
  let ?nm = "\<lambda>i. ''cere_ingress_'' @ dec i" and ?fl = "RING_F_SP_ENQ + RING_F_SC_DEQ"
  obtain rings egress where r: "ingress_rings rc [0..<unat (n - 1 - 1)] = Inr rings" "Ring_new rc ''cere_egress'' kEgressRingSize RING_F_SC_DEQ = Inr egress"
    "args = launch_loop cfg (dp_port_id pt) True (n - 1 - 1) rings egress [0..<unat (n - 1)] 0"
    using l t by (auto simp: launch_def Let_def bind_r_def split: if_splits sum.splits)
  have "[0..<unat (n - 1)] = 0 # [1..<unat (n - 1)]" using two len by (simp add: upt_conv_Cons)
  then have a: "la_egress (args ! 0) = egress" "la_worker_rings (args ! 0) = rings"
    unfolding r(3) by (simp_all add: Let_def lcore_arg_def)
  have rs: "rings = map (\<lambda>i. rc (?nm i) kRingSize ?fl) [0..<unat (n - 1 - 1)]" "0 \<notin> set rings" using ingress_rings_eq [OF r(1)] by blast+
  have nz: "rc (?nm i) kRingSize ?fl \<noteq> 0" if "i < unat (n - 1 - 1)" for i using rs that by force
  have eg: "egress = rc ''cere_egress'' kEgressRingSize RING_F_SC_DEQ" "egress \<noteq> 0" using r(2) by (auto simp: Ring_new_def Let_def split: if_splits)
  have "inj_on (\<lambda>i. rc (?nm i) kRingSize ?fl) (set [0..<unat (n - 1 - 1)])"
  proof (rule inj_onI)
    fix i j
    assume ij: "i \<in> set [0..<unat (n - 1 - 1)]" and eq: "rc (?nm i) kRingSize ?fl = rc (?nm j) kRingSize ?fl"
    have "?nm i = ?nm j" using rc nz [of i] ij eq unfolding rings_named_def by (metis atLeastLessThan_iff set_upt)
    then show "i = j" by (simp add: dec_inj)
  qed
  moreover have "egress \<notin> set rings"
  proof
    assume "egress \<in> set rings"
    then obtain i where "egress = rc (?nm i) kRingSize ?fl" using rs(1) by auto
    moreover have "''cere_egress'' \<noteq> ?nm i" by simp
    ultimately show False using rc eg unfolding rings_named_def by metis
  qed
  ultimately show ?thesis unfolding a rs(1) by (simp add: distinct_map)
qed

text \<open>What the arguments of the cores have in common, and who reads which ring.\<close>

definition fleet_args :: "Config \<Rightarrow> LcoreArg list \<Rightarrow> bool" where
  "fleet_args cfg args \<longleftrightarrow> args \<noteq> []
     \<and> (\<forall>arg \<in> set args. arg_ok arg \<and> rings_apart arg \<and> la_cfg arg = cfg \<and> la_egress arg = la_egress (args ! 0))
     \<and> (\<forall>i < length args. \<forall>j < length args. core_in (args ! i) \<noteq> None \<longrightarrow> core_in (args ! i) = core_in (args ! j) \<longrightarrow> i = j)"

lemma launch_args:
  assumes l: "launch rc cfg (Inr pt) n = Inr args" and rc: "rings_named rc"
  shows "fleet_args cfg args"
proof (cases "unat (n - 1) = 1")
  case True
  then have "args = [lcore_arg cfg (dp_port_id pt) False 1 [] 0 0 0]" by (rule launch_cases(3) [OF l])
  then show ?thesis by (simp add: fleet_args_def lcore_arg_def Let_def arg_ok_def rings_apart_def)
next
  case False
  then have t: "2 \<le> unat (n - 1)" using launch_cases(1) [OF l] by simp
  note d = distributor_roles [OF l t]
  have two: "2 \<le> length args" using d(1) t by simp
  let ?rs = "la_worker_rings (args ! 0)" and ?eg = "la_egress (args ! 0)"
  have di: "?eg \<notin> set ?rs" "distinct ?rs" using launch_rings [OF l two rc] by simp_all
  have w: "core_in (args ! Suc i) = Some (?rs ! i) \<and> rings_apart (args ! Suc i) \<and> la_egress (args ! Suc i) = ?eg" if "Suc i < length args" for i
  proof -
    have "?rs ! i \<in> set ?rs" using that d(3) by (intro nth_mem) simp
    with d(4) [OF that] d(5) [of i] that di(1) show ?thesis by (auto simp: core_in_def rings_apart_def)
  qed
  have "0 < length args" using two by linarith
  then have z: "core_in (args ! 0) = Some ?eg" "rings_apart (args ! 0)" using d(4) [of 0] di(1) by (simp_all add: core_in_def rings_apart_def)
  have "arg_ok arg \<and> rings_apart arg \<and> la_cfg arg = cfg \<and> la_egress arg = ?eg" if mem: "arg \<in> set args" for arg
  proof -
    obtain i where i: "i < length args" "arg = args ! i" using mem by (metis in_set_conv_nth)
    have "rings_apart (args ! i) \<and> la_egress (args ! i) = ?eg" using i(1) w [of "i - 1"] z(2) by (cases i) simp_all
    with d(4) [OF i(1)] i(2) show ?thesis by simp
  qed
  moreover have "i = j" if ij: "i < length args" "j < length args" and eq: "core_in (args ! i) = core_in (args ! j)" for i j
  proof -
    have in_rs: "?rs ! k \<in> set ?rs" if "Suc k < length args" for k using that d(3) by (intro nth_mem) simp
    have inj: "?rs ! a = ?rs ! b \<longleftrightarrow> a = b" if "Suc a < length args" "Suc b < length args" for a b
      using that d(3) di(2) by (intro nth_eq_iff_index_eq) simp_all
    show ?thesis
    proof (cases i)
      case 0
      then show ?thesis using ij(2) eq z(1) w [of "j - 1"] in_rs [of "j - 1"] di(1) by (cases j) auto
    next
      case (Suc a)
      then show ?thesis using ij eq z(1) w [of a] w [of "j - 1"] in_rs [of a] inj [of a "j - 1"] di(1) by (cases j) auto
    qed
  qed
  ultimately show ?thesis using two by (auto simp: fleet_args_def)
qed

section \<open>The machine\<close>

record 'd fleet =
  fl_dev :: 'd
  fl_cores :: "'d core list"
  fl_running :: bool

definition OnSignal :: "'d fleet \<Rightarrow> 'd fleet" where
  "OnSignal F = F\<lparr>fl_running := False\<rparr>"

text \<open>The world of a core when it is launched; \<open>S\<close> are the entries of the statistics view.\<close>

definition start_world :: "'d \<Rightarrow> LcoreStats \<Rightarrow> 'd world" where
  "start_world d s = \<lparr>w_dev = d, w_stats = s, w_lb = None, w_received = [], w_dequeued = [], w_sent = [], w_ringed = [], w_freed = []\<rparr>"

fun start_cores :: "(nat \<Rightarrow> LcoreStats) \<Rightarrow> 'd \<Rightarrow> LcoreArg list \<Rightarrow> ('d core list) result option" where
  "start_cores S d [] = Some (Inr [])"
| "start_cores S d (arg # args) =
     (case Core_new arg (start_world d (S (la_stats arg))) of
        None \<Rightarrow> None
      | Some (Inl e) \<Rightarrow> Some (Inl e)
      | Some (Inr c) \<Rightarrow> map_option (map_sum id (Cons c)) (start_cores S d args))"

definition fleet_of :: "'d \<Rightarrow> 'd core list \<Rightarrow> 'd fleet" where
  "fleet_of d cs = \<lparr>fl_dev = d, fl_cores = cs, fl_running = True\<rparr>"

text \<open>One step of one core.\<close>

definition fleet_core :: "isa \<Rightarrow> dpdk \<Rightarrow> 'd dev \<Rightarrow> nat \<Rightarrow> 'd fleet \<Rightarrow> 'd fleet result" where
  "fleet_core I D V i F =
     bind_r (core_step I D V (fl_running F) (fl_cores F ! i) (fl_dev F)) (\<lambda>(c, d).
       Inr (F\<lparr>fl_dev := d, fl_cores := (fl_cores F)[i := c]\<rparr>))"

definition core_live :: "nat \<Rightarrow> 'd fleet \<Rightarrow> bool" where
  "core_live i F \<longleftrightarrow> i < length (fl_cores F) \<and> co_pc (fl_cores F ! i) \<noteq> kExit"

inductive fleet_step :: "isa \<Rightarrow> dpdk \<Rightarrow> 'd dev \<Rightarrow> ('d \<Rightarrow> 'd \<Rightarrow> bool) \<Rightarrow> 'd fleet \<Rightarrow> 'd fleet \<Rightarrow> bool" for I D V E where
  core: "core_live i F \<Longrightarrow> fleet_core I D V i F = Inr F' \<Longrightarrow> fleet_step I D V E F F'"
| signal: "fleet_step I D V E F (OnSignal F)"
| environment: "E (fl_dev F) d \<Longrightarrow> fleet_step I D V E F (F\<lparr>fl_dev := d\<rparr>)"

inductive_cases fleet_stepE: "fleet_step I D V E F F'"

section \<open>The invariant\<close>

definition log_in :: "'d core \<Rightarrow> mbuf list" where
  "log_in c = w_dequeued (co_world c)"

definition log_out :: "'d core \<Rightarrow> (nat \<times> mbuf) list" where
  "log_out c = w_ringed (co_world c)"

text \<open>What was ever put on a ring is what its reader has taken, followed by what is on it, and each core's
  packets are there in the order in which the core put them on the ring.\<close>

definition ring_ledger :: "(nat \<Rightarrow> mbuf list) \<Rightarrow> 'd core list \<Rightarrow> nat \<Rightarrow> nat \<Rightarrow> bool" where
  "ring_ledger q cs r j \<longleftrightarrow> mset (log_in (cs ! j) @ q r) = (\<Sum>c\<leftarrow>cs. mset (on_ring r (log_out c)))
     \<and> (\<forall>c \<in> set cs. subseq (on_ring r (log_out c)) (log_in (cs ! j) @ q r))"

text \<open>Over all rings \<open>R\<close>, what the cores put on them is what they have taken and what is on them.\<close>

definition exchanged :: "nat set \<Rightarrow> (nat \<Rightarrow> mbuf list) \<Rightarrow> 'd core list \<Rightarrow> bool" where
  "exchanged R q cs \<longleftrightarrow> (\<Sum>c\<leftarrow>cs. ids (map snd (log_out c))) = (\<Sum>c\<leftarrow>cs. ids (log_in c)) + (\<Sum>r\<in>R. ids (q r))"

definition arg_rings :: "LcoreArg \<Rightarrow> nat set" where
  "arg_rings arg =
     (case la_role arg of
        kMono \<Rightarrow> {}
      | kIo \<Rightarrow> insert (la_egress arg) (set (la_worker_rings arg))
      | kWorker \<Rightarrow> {la_ingress arg, la_egress arg})"

definition fleet_rings :: "LcoreArg list \<Rightarrow> nat set" where
  "fleet_rings args = (\<Union>arg \<in> set args. arg_rings arg)"

definition fleet_ok :: "isa \<Rightarrow> dpdk \<Rightarrow> Config \<Rightarrow> 'd dev \<Rightarrow> BackendInfo set \<Rightarrow> nat set \<Rightarrow> ('d \<Rightarrow> nat \<Rightarrow> mbuf list) \<Rightarrow> ('d \<Rightarrow> bool)
    \<Rightarrow> (nat \<Rightarrow> LcoreStats) \<Rightarrow> LcoreArg list \<Rightarrow> 'd fleet \<Rightarrow> bool" where
  "fleet_ok I D cfg V B Z rq K S args F \<longleftrightarrow> heads D V Z \<and> map co_arg (fl_cores F) = args
     \<and> (\<forall>c \<in> set (fl_cores F). core_ok I D V B Z (S (la_stats (co_arg c))) c \<and> (\<forall>(r, m) \<in> set (log_out c). core_out I D (co_arg c) r m))
     \<and> K (fl_dev F) \<and> rings_typed D cfg B Z (la_egress (args ! 0)) (rq (fl_dev F))
     \<and> (\<forall>r j. j < length args \<longrightarrow> core_in (args ! j) = Some r \<longrightarrow> ring_ledger (rq (fl_dev F)) (fl_cores F) r j)
     \<and> exchanged (fleet_rings args) (rq (fl_dev F)) (fl_cores F)"

section \<open>Sums over the cores\<close>

lemma sum_list_upd:
  fixes f :: "'c \<Rightarrow> 'i multiset"
  assumes "i < length cs" and "f c + x = f (cs ! i) + y"
  shows "(\<Sum>c\<leftarrow>cs[i := c]. f c) + x = (\<Sum>c\<leftarrow>cs. f c) + y"
  using assms
proof (induction cs arbitrary: i)
  case (Cons d cs)
  then show ?case
  proof (cases i)
    case 0
    with Cons.prems show ?thesis by (simp add: ac_simps)
  next
    case (Suc j)
    with Cons show ?thesis by (simp add: add.assoc)
  qed
qed simp

lemma finite_rings: "finite (fleet_rings args)"
  by (auto simp: fleet_rings_def arg_rings_def split: Role.splits)

lemma ids_on_rings:
  assumes "finite R" and "fst ` set enq \<subseteq> R"
  shows "(\<Sum>r\<in>R. ids (on_ring r enq)) = ids (map snd enq)"
  using assms(2)
proof (induction enq)
  case (Cons e enq)
  obtain q m where e: "e = (q, m)" by fastforce
  have "ids (on_ring r (e # enq)) = (if r = q then {#mb_id m#} else {#}) + ids (on_ring r enq)" for r by (simp add: e on_ring_def)
  then have "(\<Sum>r\<in>R. ids (on_ring r (e # enq))) = (\<Sum>r\<in>R. if r = q then {#mb_id m#} else {#}) + (\<Sum>r\<in>R. ids (on_ring r enq))"
    by (simp only: sum.distrib)
  moreover have "q \<in> R" "fst ` set enq \<subseteq> R" using Cons.prems by (simp_all add: e)
  ultimately show ?case using Cons.IH assms(1) by (simp add: e sum.delta)
qed simp

lemma core_rings:
  assumes "arg \<in> set args" and "arg_ok arg"
  shows "core_in arg = Some r \<Longrightarrow> r \<in> fleet_rings args" and "core_out I D arg r m \<Longrightarrow> r \<in> fleet_rings args"
proof -
  have "core_in arg = Some r \<Longrightarrow> r \<in> arg_rings arg" by (auto simp: core_in_def arg_rings_def split: Role.splits)
  moreover have "core_out I D arg r m \<Longrightarrow> r \<in> arg_rings arg"
    by (auto simp: core_out_def arg_rings_def Let_def split: Role.splits)
  ultimately show "core_in arg = Some r \<Longrightarrow> r \<in> fleet_rings args" "core_out I D arg r m \<Longrightarrow> r \<in> fleet_rings args"
    using assms(1) by (auto simp: fleet_rings_def)
qed

section \<open>Every step keeps the invariant\<close>

lemma ring_ledger_step:
  assumes led: "ring_ledger q cs r j" and ij: "i < length cs" "j < length cs"
    and logs: "log_in c = log_in (cs ! i) @ deq" "log_out c = log_out (cs ! i) @ enq"
    and q: "q r @ on_ring r enq = (if i = j then deq else []) @ q' r"
  shows "ring_ledger q' (cs[i := c]) r j"
proof -
  let ?h = "log_in (cs ! j) @ q r"
  have h: "log_in (cs[i := c] ! j) @ q' r = ?h @ on_ring r enq" using q logs(1) ij by (cases "i = j") auto
  have "(\<Sum>c\<leftarrow>cs[i := c]. mset (on_ring r (log_out c))) + {#} = (\<Sum>c\<leftarrow>cs. mset (on_ring r (log_out c))) + mset (on_ring r enq)"
    using logs(2) by (intro sum_list_upd [OF ij(1)]) simp
  then have "mset (?h @ on_ring r enq) = (\<Sum>c\<leftarrow>cs[i := c]. mset (on_ring r (log_out c)))" using led by (simp add: ring_ledger_def)
  moreover have "subseq (on_ring r (log_out c')) (?h @ on_ring r enq)" if "c' \<in> set (cs[i := c])" for c'
  proof (cases "c' = c")
    case True
    have "subseq (on_ring r (log_out (cs ! i))) ?h" using led ij(1) by (simp add: ring_ledger_def)
    then show ?thesis by (simp only: True logs(2) on_ring_simps list_emb_append_mono [of "(=)"] subseq_order.refl)
  next
    case False
    then have "c' \<in> set cs" using that set_update_subset_insert [of cs i c] by blast
    then have "subseq (on_ring r (log_out c')) ?h" using led by (simp add: ring_ledger_def)
    then show ?thesis by (rule subseq_rev_drop_many)
  qed
  ultimately show ?thesis unfolding ring_ledger_def h by blast
qed

lemma exchanged_step:
  assumes ex: "exchanged R q cs" and i: "i < length cs" and R: "finite R" "fst ` set enq \<subseteq> R"
    and logs: "log_in c = log_in (cs ! i) @ deq" "log_out c = log_out (cs ! i) @ enq"
    and rd: "reads = None \<longrightarrow> deq = []" "\<And>r. reads = Some r \<Longrightarrow> r \<in> R"
    and q: "\<And>r. q r @ on_ring r enq = (if reads = Some r then deq else []) @ q' r"
  shows "exchanged R q' (cs[i := c])"
proof -
  have "ids (q r) + ids (on_ring r enq) = (if reads = Some r then ids deq else {#}) + ids (q' r)" for r
    using arg_cong [OF q [of r], of ids] by (simp split: if_splits)
  then have "(\<Sum>r\<in>R. ids (q r) + ids (on_ring r enq)) = (\<Sum>r\<in>R. (if reads = Some r then ids deq else {#}) + ids (q' r))" by simp
  moreover have "(\<Sum>r\<in>R. if reads = Some r then ids deq else {#}) = ids deq"
    using rd R(1) by (cases reads) (simp_all add: sum.delta')
  ultimately have sum: "(\<Sum>r\<in>R. ids (q r)) + ids (map snd enq) = ids deq + (\<Sum>r\<in>R. ids (q' r))"
    by (simp add: sum.distrib ids_on_rings [OF R])
  have a: "(\<Sum>c\<leftarrow>cs[i := c]. ids (map snd (log_out c))) + {#} = (\<Sum>c\<leftarrow>cs. ids (map snd (log_out c))) + ids (map snd enq)"
    using logs(2) by (intro sum_list_upd [OF i]) simp
  have b: "(\<Sum>c\<leftarrow>cs[i := c]. ids (log_in c)) + {#} = (\<Sum>c\<leftarrow>cs. ids (log_in c)) + ids deq"
    using logs(1) by (intro sum_list_upd [OF i]) simp
  show ?thesis using ex a b sum unfolding exchanged_def by (simp add: ac_simps)
qed

lemma ball_update: "\<forall>c \<in> set cs. P c \<Longrightarrow> P c' \<Longrightarrow> \<forall>c \<in> set (cs[i := c']). P c"
  using set_update_subset_insert [of cs i c'] by blast

text \<open>The devices keep their promises, and the network card and the control thread leave the rings alone.\<close>

definition fleet_env :: "dpdk \<Rightarrow> Config \<Rightarrow> 'd dev \<Rightarrow> BackendInfo set \<Rightarrow> ('d \<Rightarrow> nat \<Rightarrow> mbuf list) \<Rightarrow> ('d \<Rightarrow> bool) \<Rightarrow> ('d \<Rightarrow> 'd \<Rightarrow> bool) \<Rightarrow> bool" where
  "fleet_env D cfg V B rq K E \<longleftrightarrow> dev_ok V \<and> ring_laws V rq \<and> nic_ok D cfg V B K
     \<and> (\<forall>d d'. E d d' \<longrightarrow> K d \<longrightarrow> K d' \<and> rq d' = rq d)"

abbreviation work_of :: "'d core \<Rightarrow> nat \<times> nat \<times> nat" where
  "work_of c \<equiv> work_left (co_arg c) (co_disps c) (co_pc c)"

lemma fleet_core_ok:
  assumes env: "fleet_env D cfg V B rq K E" and args: "fleet_args cfg args" and inv: "fleet_ok I D cfg V B Z rq K S args F" and i: "i < length args"
  shows "\<exists>F'. fleet_core I D V i F = Inr F' \<and> fleet_ok I D cfg V B Z rq K S args F' \<and> fl_running F' = fl_running F
    \<and> length (fl_cores F') = length (fl_cores F) \<and> (\<forall>j. j \<noteq> i \<longrightarrow> fl_cores F' ! j = fl_cores F ! j)
    \<and> (core_live i F \<and> \<not> fl_running F \<longrightarrow> (work_of (fl_cores F' ! i), work_of (fl_cores F ! i)) \<in> work_less)"
proof -
  let ?cs = "fl_cores F" and ?d = "fl_dev F" and ?eg = "la_egress (args ! 0)"
  let ?c = "?cs ! i" and ?K = "\<lambda>d. K d \<and> rings_typed D cfg B Z (la_egress (args ! 0)) (rq d)"
  have cs: "map co_arg ?cs = args" using inv by (simp add: fleet_ok_def)
  have len: "length ?cs = length args" using cs by (metis length_map)
  have arg: "co_arg (?cs ! j) = args ! j" if "j < length args" for j using cs that len by (metis nth_map)
  have ic: "?c \<in> set ?cs" "args ! i \<in> set args" using i len by simp_all
  have A: "arg_ok (args ! i)" "la_cfg (args ! i) = cfg" "la_egress (args ! i) = ?eg"
    using args ic(2) unfolding fleet_args_def by blast+
  have ok: "core_ok I D V B Z (S (la_stats (co_arg ?c))) ?c" and out: "\<forall>(r, m) \<in> set (log_out ?c). core_out I D (co_arg ?c) r m"
    using inv ic(1) by (auto simp: fleet_ok_def)
  have R: "ring_laws V rq" and N: "nic_ok D cfg V B K" and H: "heads D V Z" using env inv by (simp_all add: fleet_env_def fleet_ok_def)
  have "env_ok D (la_cfg (co_arg ?c)) V B Z (la_egress (co_arg ?c)) ?K" using env_of_rings [OF R N H] A by (simp add: arg [OF i])
  moreover have "?K ?d" using inv by (simp add: fleet_ok_def)
  ultimately obtain c' d' where s: "core_step I D V (fl_running F) ?c ?d = Inr (c', d')" "core_ok I D V B Z (S (la_stats (co_arg ?c))) c'"
    "?K d'" "co_arg c' = co_arg ?c"
    "co_pc ?c \<noteq> kExit \<and> (co_pc ?c = kLoop \<longrightarrow> \<not> fl_running F) \<longrightarrow> (work_left (co_arg ?c) (co_disps c') (co_pc c'), work_of ?c) \<in> work_less"
    using core_step_ok [OF ok, of ?K ?d "fl_running F"] by blast
  obtain deq enq where m: "log_in c' = log_in ?c @ deq" "log_out c' = log_out ?c @ enq" "core_in (args ! i) = None \<longrightarrow> deq = []"
    "\<forall>(r, m) \<in> set enq. core_out I D (args ! i) r m"
    "\<And>r. rq ?d r @ on_ring r enq = (if core_in (args ! i) = Some r then deq else []) @ rq d' r"
    using core_step_moved [OF R ok s(1)] unfolding arg [OF i] by (auto simp: moved_def log_in_def log_out_def)
  have ledg: "ring_ledger (rq d') (?cs[i := c']) r j" if j: "j < length args" "core_in (args ! j) = Some r" for r j
  proof (rule ring_ledger_step [OF _ _ _ m(1,2)])
    show "ring_ledger (rq ?d) ?cs r j" using inv j by (simp add: fleet_ok_def)
    have "core_in (args ! i) = Some r \<longleftrightarrow> i = j" using args i j unfolding fleet_args_def by (metis option.distinct(1))
    with m(5) [of r] show "rq ?d r @ on_ring r enq = (if i = j then deq else []) @ rq d' r" by simp
  qed (use i j len in simp_all)
  have "fst ` set enq \<subseteq> fleet_rings args" using m(4) core_rings(2) [OF ic(2) A(1)] by fastforce
  then have ex: "exchanged (fleet_rings args) (rq d') (?cs[i := c'])"
    using inv i len by (intro exchanged_step [OF _ _ finite_rings _ m(1,2,3) core_rings(1) [OF ic(2) A(1)] m(5)]) (simp_all add: fleet_ok_def)
  let ?F = "F\<lparr>fl_dev := d', fl_cores := ?cs[i := c']\<rparr>"
  have "\<forall>c \<in> set (?cs[i := c']). core_ok I D V B Z (S (la_stats (co_arg c))) c \<and> (\<forall>(r, m) \<in> set (log_out c). core_out I D (co_arg c) r m)"
    using inv s(2,4) out m(2,4) arg [OF i] by (intro ball_update) (auto simp: fleet_ok_def)
  moreover have "map co_arg (?cs[i := c']) = args" using cs s(4) by (simp add: map_update arg [OF i])
  ultimately have "fleet_ok I D cfg V B Z rq K S args ?F" using s(3) ledg ex H unfolding fleet_ok_def by simp
  moreover have "fleet_core I D V i F = Inr ?F" using s(1) by (simp add: fleet_core_def)
  ultimately show ?thesis using s(4,5) i len by (intro exI [of _ ?F]) (simp add: core_live_def)
qed

lemma fleet_step_ok:
  assumes env: "fleet_env D cfg V B rq K E" and args: "fleet_args cfg args" and inv: "fleet_ok I D cfg V B Z rq K S args F"
    and step: "fleet_step I D V E F F'"
  shows "fleet_ok I D cfg V B Z rq K S args F'"
  using step
proof (cases rule: fleet_step.cases)
  case (core i)
  have "length (fl_cores F) = length args" using inv unfolding fleet_ok_def by (metis length_map)
  then have "i < length args" using core(1) by (simp add: core_live_def)
  with fleet_core_ok [OF env args inv] core(2) show ?thesis by fastforce
next
  case signal
  with inv show ?thesis by (simp add: fleet_ok_def OnSignal_def)
next
  case (environment d)
  with env inv show ?thesis by (simp add: fleet_ok_def fleet_env_def)
qed

lemma fleet_reach_ok:
  assumes "fleet_env D cfg V B rq K E" and "fleet_args cfg args" and "(fleet_step I D V E)\<^sup>*\<^sup>* F F'" and "fleet_ok I D cfg V B Z rq K S args F"
  shows "fleet_ok I D cfg V B Z rq K S args F'"
  using assms(3,4) by (induction rule: rtranclp_induct) (auto intro: fleet_step_ok [OF assms(1,2)])

end
