(* ===== verification/Fleet_Props.thy ===== *)
theory Fleet_Props
  imports Fleet
begin

text \<open>
  What holds of the whole dataplane in every state that the cores, the network card, the control thread and a
  signal can bring about, from the launch on: no core aborts, no packet is lost or
  duplicated between the cores, every worker gets the packets
  steered to it in their order, and after the signal all cores return.
\<close>

section \<open>The start\<close>

lemma start_cores_ok:
  assumes "dev_ok V" and "\<forall>arg \<in> set args. arg_ok arg \<and> rings_apart arg"
  shows "\<exists>cs. start_cores S d args = Some (Inr cs) \<and> map co_arg cs = args
    \<and> (\<forall>c \<in> set cs. core_ok I D V B Z (S (la_stats (co_arg c))) c \<and> co_pc c = kLoop \<and> fresh (co_world c))"
  using assms(2)
proof (induction args)
  case (Cons arg args)
  let ?w = "start_world d (S (la_stats arg))"
  have "fresh ?w" "w_lb ?w = None" "w_stats ?w = S (la_stats arg)" by (simp_all add: start_world_def fresh_def)
  with Core_new_ok [OF assms(1), of ?w arg I D B Z] Cons obtain c where "Core_new arg ?w = Some (Inr c)"
    "core_ok I D V B Z (S (la_stats arg)) c" "co_arg c = arg" "co_pc c = kLoop" "fresh (co_world c)" by auto
  with Cons show ?case by auto
qed simp

lemma sum_list_zero: "(\<forall>x \<in> set xs. f x = {#}) \<Longrightarrow> (\<Sum>x\<leftarrow>xs. f x) = ({#} :: 'i multiset)"
  by (induction xs) simp_all

lemma fleet_started:
  assumes env: "fleet_env D cfg V B rq K E" and h: "heads D V Z" and l: "launch rc cfg (Inr pt) n = Inr args" and rc: "rings_named rc"
    and d: "K d" "\<forall>r. rq d r = []"
  obtains cs where "start_cores S d args = Some (Inr cs)" "fleet_args cfg args" "fleet_ok I D cfg V B Z rq K S args (fleet_of d cs)"
    "length cs = length args" "\<forall>c \<in> set cs. co_pc c = kLoop"
proof -
  note a = launch_args [OF l rc]
  have "dev_ok V" using env by (simp add: fleet_env_def)
  moreover have "\<forall>arg \<in> set args. arg_ok arg \<and> rings_apart arg" using a unfolding fleet_args_def by blast
  ultimately obtain cs where cs: "start_cores S d args = Some (Inr cs)" "map co_arg cs = args"
    "\<forall>c \<in> set cs. core_ok I D V B Z (S (la_stats (co_arg c))) c \<and> co_pc c = kLoop \<and> fresh (co_world c)"
    using start_cores_ok [of V args S d I D B Z] by blast
  have len: "length cs = length args" using cs(2) by (metis length_map)
  have logs: "log_in c = []" "log_out c = []" if "c \<in> set cs" for c using cs(3) that by (simp_all add: fresh_def log_in_def log_out_def)
  have "ring_ledger (rq d) cs r j" if "j < length args" for r j
    using that len d(2) logs by (simp add: ring_ledger_def sum_list_zero)
  moreover have "exchanged (fleet_rings args) (rq d) cs" using d(2) logs by (simp add: exchanged_def sum_list_zero)
  moreover have "rings_typed D cfg B Z (la_egress (args ! 0)) (rq d)" using d(2) by (simp add: rings_typed_def)
  ultimately have "fleet_ok I D cfg V B Z rq K S args (fleet_of d cs)" using cs d(1) logs h by (simp add: fleet_ok_def fleet_of_def)
  with that cs a len show ?thesis by blast
qed

lemma fleet_okD:
  assumes "fleet_ok I D cfg V B Z rq K S args F"
  shows "length (fl_cores F) = length args" and "i < length args \<Longrightarrow> co_arg (fl_cores F ! i) = args ! i"
    and "c \<in> set (fl_cores F) \<Longrightarrow> core_ok I D V B Z (S (la_stats (co_arg c))) c"
    and "c \<in> set (fl_cores F) \<Longrightarrow> (r, m) \<in> set (log_out c) \<Longrightarrow> core_out I D (co_arg c) r m"
    and "c \<in> set (fl_cores F) \<Longrightarrow> co_arg c \<in> set args"
proof -
  have cs: "map co_arg (fl_cores F) = args" using assms by (simp add: fleet_ok_def)
  then show len: "length (fl_cores F) = length args" by (metis length_map)
  show "i < length args \<Longrightarrow> co_arg (fl_cores F ! i) = args ! i" using cs len by (metis nth_map)
  show "c \<in> set (fl_cores F) \<Longrightarrow> co_arg c \<in> set args" using cs by (metis image_eqI list.set_map)
qed (use assms in \<open>auto simp: fleet_ok_def\<close>)

section \<open>Nothing is lost\<close>

lemma balance_cancel:
  fixes a :: "'i multiset"
  assumes "a + l = x + out" and "out = l + q"
  shows "a = x + q"
proof -
  have "a + l = (x + q) + l" using assms by (simp add: ac_simps)
  then show ?thesis by (rule add_right_imp_eq)
qed

lemma fleet_balance:
  assumes "fleet_ok I D cfg V B Z rq K S args F"
  shows "(\<Sum>c\<leftarrow>fl_cores F. ids (w_received (co_world c))) =
    (\<Sum>c\<leftarrow>fl_cores F. ids (w_sent (co_world c)) + ids (w_freed (co_world c)) + image_mset mb_id (core_flight c))
    + (\<Sum>r\<in>fleet_rings args. ids (rq (fl_dev F) r))"
proof -
  have bal: "ids (w_received (co_world c)) + ids (log_in c) =
      ids (w_sent (co_world c)) + ids (w_freed (co_world c)) + image_mset mb_id (core_flight c) + ids (map snd (log_out c))"
    if "c \<in> set (fl_cores F)" for c
    using fleet_okD(3) [OF assms that] by (simp add: core_ok_def world_gone_def world_came_def log_in_def log_out_def ac_simps)
  have "(\<Sum>c\<leftarrow>fl_cores F. ids (w_received (co_world c)) + ids (log_in c)) =
      (\<Sum>c\<leftarrow>fl_cores F. ids (w_sent (co_world c)) + ids (w_freed (co_world c)) + image_mset mb_id (core_flight c) + ids (map snd (log_out c)))"
    by (rule arg_cong [of _ _ sum_list], rule map_cong [OF refl], rule bal)
  then have "(\<Sum>c\<leftarrow>fl_cores F. ids (w_received (co_world c))) + (\<Sum>c\<leftarrow>fl_cores F. ids (log_in c)) =
      (\<Sum>c\<leftarrow>fl_cores F. ids (w_sent (co_world c)) + ids (w_freed (co_world c)) + image_mset mb_id (core_flight c))
      + (\<Sum>c\<leftarrow>fl_cores F. ids (map snd (log_out c)))" by (simp only: sum_list_addf)
  moreover have "exchanged (fleet_rings args) (rq (fl_dev F)) (fl_cores F)" using assms by (simp add: fleet_ok_def)
  ultimately show ?thesis unfolding exchanged_def by (rule balance_cancel)
qed

lemma fleet_live_step:
  assumes "fleet_env D cfg V B rq K E" and "fleet_args cfg args" and "fleet_ok I D cfg V B Z rq K S args F" and "core_live i F"
  shows "\<exists>F'. fleet_core I D V i F = Inr F'"
proof -
  have "i < length args" using assms(3,4) fleet_okD(1) by (fastforce simp: core_live_def)
  with fleet_core_ok [OF assms(1-3)] show ?thesis by blast
qed

text \<open>
  The dataplane as a whole loses nothing. From the launch on, however the cores are interleaved with each
  other, with the network card, the control thread and a signal: no core ever aborts, and the
  buffers the cores have received from the port are, each exactly once, those they have transmitted, those they
  have freed, those a core holds between two nodes, and those on the rings between the cores. The counters of every core
  show what it has received and transmitted.
\<close>

theorem fleet_conserves:
  assumes env: "fleet_env D cfg V B rq K E" and l: "launch rc cfg (Inr pt) n = Inr args" and rc: "rings_named rc"
    and d: "K d" "\<forall>r. rq d r = []"
  shows "\<exists>cs. start_cores S d args = Some (Inr cs) \<and> length cs = length args \<and> (\<forall>F. (fleet_step I D V E)\<^sup>*\<^sup>* (fleet_of d cs) F \<longrightarrow>
      (\<forall>i. core_live i F \<longrightarrow> (\<exists>F'. fleet_core I D V i F = Inr F'))
    \<and> (\<Sum>c\<leftarrow>fl_cores F. ids (w_received (co_world c))) =
        (\<Sum>c\<leftarrow>fl_cores F. ids (w_sent (co_world c)) + ids (w_freed (co_world c)) + image_mset mb_id (core_flight c))
        + (\<Sum>r\<in>fleet_rings args. ids (rq (fl_dev F) r))
    \<and> (\<forall>c \<in> set (fl_cores F). rx_packets (w_stats (co_world c)) = rx_packets (S (la_stats (co_arg c))) + of_nat (length (w_received (co_world c)))
         \<and> tx_packets (w_stats (co_world c)) = tx_packets (S (la_stats (co_arg c))) + of_nat (length (w_sent (co_world c)))))"
proof -
  obtain cs where cs: "start_cores S d args = Some (Inr cs)" "fleet_args cfg args" "fleet_ok I D cfg V B UNIV rq K S args (fleet_of d cs)"
    "length cs = length args" by (rule fleet_started [OF env heads_UNIV l rc d])
  note ok = fleet_reach_ok [OF env cs(2) _ cs(3)]
  have "counted (S (la_stats (co_arg c))) (co_world c)" if "(fleet_step I D V E)\<^sup>*\<^sup>* (fleet_of d cs) F" "c \<in> set (fl_cores F)" for F c
    using fleet_okD(3) [OF ok [OF that(1)] that(2)] by (simp add: core_ok_def world_ok_def)
  then show ?thesis using cs(1,4) fleet_live_step [OF env cs(2) ok] fleet_balance [OF ok] unfolding counted_def by (intro exI [of _ cs]) blast
qed

section \<open>The order on the rings\<close>

lemma sum_single:
  assumes "cs \<noteq> []" and "\<And>i. 0 < i \<Longrightarrow> i < length cs \<Longrightarrow> f (cs ! i) = {#}"
  shows "(\<Sum>c\<leftarrow>cs. f c) = (f (cs ! 0) :: 'i multiset)"
proof (cases cs)
  case (Cons c cs')
  have "\<forall>x \<in> set cs'. f x = {#}" using assms(2) Cons by (metis in_set_conv_nth Suc_less_eq length_Cons nth_Cons_Suc zero_less_Suc)
  then show ?thesis using sum_list_zero [of cs' f] by (simp add: Cons)
qed (use assms in simp)

lemma ring_ledger_single:
  assumes led: "ring_ledger q cs r j" and ne: "cs \<noteq> []" and others: "\<And>i. 0 < i \<Longrightarrow> i < length cs \<Longrightarrow> on_ring r (log_out (cs ! i)) = []"
  shows "on_ring r (log_out (cs ! 0)) = log_in (cs ! j) @ q r"
proof -
  have "(\<Sum>c\<leftarrow>cs. mset (on_ring r (log_out c))) = mset (on_ring r (log_out (cs ! 0)))" using others by (intro sum_single [OF ne]) simp
  then have "length (log_in (cs ! j) @ q r) = length (on_ring r (log_out (cs ! 0)))" using led by (metis ring_ledger_def size_mset)
  moreover have "subseq (on_ring r (log_out (cs ! 0))) (log_in (cs ! j) @ q r)" using led ne by (simp add: ring_ledger_def)
  ultimately show ?thesis by (metis subseq_same_length)
qed

lemma on_ring_empty: "(\<And>q m. (q, m) \<in> set rms \<Longrightarrow> q \<noteq> r) \<Longrightarrow> on_ring r rms = []"
  by (auto simp: on_ring_def filter_empty_conv)

lemma in_on_ring: "m \<in> set (on_ring r rms) \<Longrightarrow> (r, m) \<in> set rms"
  by (auto simp: on_ring_def)

lemma worker_ring:
  assumes l: "launch rc cfg (Inr pt) n = Inr args" and rc: "rings_named rc" and two: "2 \<le> length args" and w: "w < length args - 1"
    and args: "fleet_args cfg args" and ok: "fleet_ok I D cfg V B Z rq K S args F"
  defines "r \<equiv> la_worker_rings (args ! 0) ! w"
  shows "on_ring r (log_out (fl_cores F ! 0)) = log_in (fl_cores F ! Suc w) @ rq (fl_dev F) r"
    and "m \<in> set (on_ring r (log_out (fl_cores F ! 0))) \<Longrightarrow> steer_cls (ClassifyForSteer I D cfg (la_n_workers (args ! 0)) m) = kSteer
      \<and> unat (steer_worker (ClassifyForSteer I D cfg (la_n_workers (args ! 0)) m)) = w"
proof -
  have t: "2 \<le> unat (n - 1)" using launch_length [OF l] two by simp
  note dr = distributor_roles [OF l t]
  let ?rs = "la_worker_rings (args ! 0)" and ?eg = "la_egress (args ! 0)"
  have di: "?eg \<notin> set ?rs" "distinct ?rs" using launch_rings [OF l two rc] by simp_all
  have z: "0 < length args" using two by linarith
  note len = fleet_okD(1) [OF ok]
  have sw: "Suc w < length args" "r \<in> set ?rs" using w dr(3) by (simp_all add: r_def)
  have "core_in (args ! Suc w) = Some r" using dr(4) [OF sw(1)] dr(5) [OF w] by (simp add: core_in_def r_def)
  then have "ring_ledger (rq (fl_dev F)) (fl_cores F) r (Suc w)" using ok sw(1) by (simp add: fleet_ok_def)
  moreover have "on_ring r (log_out (fl_cores F ! i)) = []" if i: "0 < i" "i < length (fl_cores F)" for i
  proof (rule on_ring_empty)
    fix q m
    assume qm: "(q, m) \<in> set (log_out (fl_cores F ! i))"
    have i': "i < length args" using i len by simp
    have "core_out I D (args ! i) q m" using fleet_okD(4) [OF ok _ qm] fleet_okD(2) [OF ok i'] i(2) by simp
    moreover have "la_egress (args ! i) = ?eg" using args nth_mem [OF i'] unfolding fleet_args_def by blast
    ultimately have "q = ?eg" using dr(4) [OF i'] i(1) by (simp add: core_out_def)
    then show "q \<noteq> r" using di(1) sw(2) by auto
  qed
  moreover have "fl_cores F \<noteq> []" using len z by auto
  ultimately show "on_ring r (log_out (fl_cores F ! 0)) = log_in (fl_cores F ! Suc w) @ rq (fl_dev F) r"
    by (intro ring_ledger_single)
  assume "m \<in> set (on_ring r (log_out (fl_cores F ! 0)))"
  then have "core_out I D (args ! 0) r m"
    using fleet_okD(4) [OF ok, of "fl_cores F ! 0"] fleet_okD(2) [OF ok z] len z in_on_ring by fastforce
  then have "node_out I D cfg (SteerNode ?rs (la_n_workers (args ! 0))) r m"
    using dr(4) [OF z] di(1) sw(2) by (auto simp: core_out_def)
  with di(2) dr(3) w show "steer_cls (ClassifyForSteer I D cfg (la_n_workers (args ! 0)) m) = kSteer
      \<and> unat (steer_worker (ClassifyForSteer I D cfg (la_n_workers (args ! 0)) m)) = w"
    by (auto simp: r_def Let_def nth_eq_iff_index_eq)
qed

text \<open>
  C5. Every worker gets its packets, in order. In every reachable state, the packets the distributor has put on the
  ring of worker number \<open>w\<close> are those the worker has taken, in the same order, followed by those still on the
  ring; and they are packets steered to \<open>w\<close>, so that each flow stays with one worker. On the egress ring, the
  distributor has taken, or will find, exactly what all cores put there, each core's frames in their order.
\<close>

theorem fleet_fifo:
  assumes env: "fleet_env D cfg V B rq K E" and l: "launch rc cfg (Inr pt) n = Inr args" and rc: "rings_named rc"
    and d: "K d" "\<forall>r. rq d r = []" and two: "2 \<le> length args"
  shows "\<exists>cs. start_cores S d args = Some (Inr cs) \<and> (\<forall>F. (fleet_step I D V E)\<^sup>*\<^sup>* (fleet_of d cs) F \<longrightarrow>
      (\<forall>w < length args - 1. let r = la_worker_rings (args ! 0) ! w; h = on_ring r (w_ringed (co_world (fl_cores F ! 0))) in
         h = w_dequeued (co_world (fl_cores F ! Suc w)) @ rq (fl_dev F) r
         \<and> (\<forall>m \<in> set h. steer_cls (ClassifyForSteer I D cfg (la_n_workers (args ! 0)) m) = kSteer
             \<and> unat (steer_worker (ClassifyForSteer I D cfg (la_n_workers (args ! 0)) m)) = w))
    \<and> (let r = la_egress (args ! 0); h = w_dequeued (co_world (fl_cores F ! 0)) @ rq (fl_dev F) r in
         mset h = (\<Sum>c\<leftarrow>fl_cores F. mset (on_ring r (w_ringed (co_world c))))
         \<and> (\<forall>c \<in> set (fl_cores F). subseq (on_ring r (w_ringed (co_world c))) h)))"
proof -
  obtain cs where cs: "start_cores S d args = Some (Inr cs)" "fleet_args cfg args" "fleet_ok I D cfg V B UNIV rq K S args (fleet_of d cs)"
    by (rule fleet_started [OF env heads_UNIV l rc d])
  have z: "0 < length args" using two by linarith
  have t: "2 \<le> unat (n - 1)" using launch_length [OF l] two by simp
  note wr = worker_ring [OF l rc two _ cs(2) fleet_reach_ok [OF env cs(2) _ cs(3)]]
  have "ring_ledger (rq (fl_dev F)) (fl_cores F) (la_egress (args ! 0)) 0" if r: "(fleet_step I D V E)\<^sup>*\<^sup>* (fleet_of d cs) F" for F
    using fleet_reach_ok [OF env cs(2) r cs(3)] distributor_roles(4) [OF l t z] z by (simp add: fleet_ok_def core_in_def)
  then show ?thesis using cs(1) wr unfolding log_in_def log_out_def ring_ledger_def Let_def by (intro exI [of _ cs]) blast
qed

section \<open>Whose connection it is\<close>

text \<open>The node of worker number \<open>w\<close>: its live flows have ports of its own share.\<close>

lemma worker_flows:
  assumes l: "launch rc cfg (Inr pt) n = Inr args" and two: "2 \<le> length args" and ok: "fleet_ok I D cfg V B Z rq K S args F" and w: "w < length args - 1"
  shows "unat (ucast (la_n_workers (args ! 0)) :: u16) = length args - 1"
    and "\<exists>lb. w_lb (co_world (fl_cores F ! Suc w)) = Some lb \<and> (\<forall>f \<in> set (nt_slots (lb_nat lb)). occupied f \<and> \<not> reaped f \<longrightarrow>
      unat (snat_port f) mod (length args - 1) = w)"
proof -
  have t: "2 \<le> unat (n - 1)" "unat (n - 1) \<le> kMaxLcores" using launch_length [OF l] two launch_cases(2) [OF l] by simp_all
  note dr = distributor_roles [OF l t(1)]
  have sw: "Suc w < length args" and z: "0 < length args" using w by linarith+
  let ?c = "fl_cores F ! Suc w" and ?a = "la_worker_id (args ! Suc w)" and ?b = "ucast (la_n_workers (args ! Suc w)) :: u16"
  have nw: "unat (la_n_workers (args ! i)) = length args - 1" if "i < length args" for i using dr(2) dr(4) [OF that] by simp
  have nb: "unat (ucast (la_n_workers (args ! i)) :: u16) = length args - 1" if "i < length args" for i
    using nw [OF that] t(2) launch_length [OF l] by (simp add: unsigned_ucast_eq take_bit_nat_eq_self kMaxLcores_def)
  show "unat (ucast (la_n_workers (args ! 0)) :: u16) = length args - 1" by (rule nb [OF z])
  have "?c \<in> set (fl_cores F)" using sw fleet_okD(1) [OF ok] by simp
  from fleet_okD(3) [OF ok this] have wo: "world_ok I V (S (la_stats (args ! Suc w))) (arg_nodes (args ! Suc w)) (co_world ?c)"
    by (simp add: core_ok_def fleet_okD(2) [OF ok sw])
  have "LbNode ?a ?b \<in> set (arg_nodes (args ! Suc w))"
    using dr(4) [OF sw] by (simp add: arg_nodes_def two_upt arg_graph_def worker_graph_def)
  then obtain lb where lb: "w_lb (co_world ?c) = Some lb" "lb_inv I (all_ports ?a ?b) lb" using wo unfolding world_ok_def by blast
  have "unat (snat_port f) mod (length args - 1) = w" if f: "f \<in> set (nt_slots (lb_nat lb))" "occupied f" "\<not> reaped f" for f
  proof -
    obtain i where i: "i < length (nt_slots (lb_nat lb))" "f = slot (lb_nat lb) i" using f(1) by (auto simp: in_set_conv_nth)
    have "unat (snat_port f) mod unat ?b = unat ?a" using inv_port_facts [OF lb(2) i(1)] f i(2) by simp
    then show ?thesis using nb [OF sw] dr(5) [OF w] by simp
  qed
  with lb(1) show "\<exists>lb. w_lb (co_world ?c) = Some lb \<and> (\<forall>f \<in> set (nt_slots (lb_nat lb)). occupied f \<and> \<not> reaped f \<longrightarrow>
      unat (snat_port f) mod (length args - 1) = w)" by blast
qed

lemma worker_steered:
  assumes l: "launch rc cfg (Inr pt) n = Inr args" and two: "2 \<le> length args" and vs: "vip cfg \<noteq> self_ip cfg"
    and nb: "unat (ucast (la_n_workers (args ! 0)) :: u16) = length args - 1" and w: "w < length args - 1"
    and p: "unat (p :: u16) mod (length args - 1) = w"
    and mb: "rd16 (mb_data mb) ETH_TYPE = RTE_ETHER_TYPE_IPV4" "mb_data mb IP_PROTO \<in> {IPPROTO_TCP, IPPROTO_UDP}"
      "rd32 (mb_data mb) IP_DST = ip_value (self_ip cfg)" "rd16 (mb_data mb) (l4_of D (mb_data mb) + 2) = p"
  shows "ClassifyForSteer I D cfg (la_n_workers (args ! 0)) mb = \<lparr>steer_cls = kSteer, steer_worker = of_nat w\<rparr>"
proof -
  let ?n = "ucast (la_n_workers (args ! 0)) :: u16"
  have t: "2 \<le> unat (n - 1)" "unat (n - 1) \<le> kMaxLcores" using launch_length [OF l] two launch_cases(2) [OF l] by simp_all
  have len: "length args \<le> 32" using t(2) launch_length [OF l] by (simp add: kMaxLcores_def)
  have z: "0 < length args" using two by linarith
  have nw: "unat (la_n_workers (args ! 0)) = length args - 1" using distributor_roles(2) [OF l t(1)] distributor_roles(4) [OF l t(1) z] by simp
  have uw: "unat (of_nat w :: u16) = w" using w len by (simp add: unat_of_nat take_bit_nat_eq_self)
  have u: "(ucast ?n :: u32) = la_n_workers (args ! 0)" using nb nw by (simp only: word_unat_eq_iff [of "ucast ?n"] unat_ucast_widen len_of_numeral_defs)
  have "(ucast (of_nat w :: u16) :: u32) = of_nat w" using w len by (simp add: word_unat_eq_iff unsigned_ucast_eq unat_of_nat take_bit_nat_eq_self)
  moreover have "unat p mod unat ?n = unat (of_nat w :: u16)" using nb p uw by simp
  ultimately show ?thesis using port_steered [OF _ vs mb, of ?n "of_nat w" I] u by simp
qed

text \<open>
  C6. Connections belong to one worker, and their answers come to it. In every reachable state, every worker has its node,
  and a live connection in the node of worker number \<open>w\<close> has a source port that no live connection of another worker has; the
  distributor steers any answer to it (TCP or UDP over IPv4, to the balancer's address and that port) to \<open>w\<close>.
\<close>

theorem fleet_flows:
  assumes env: "fleet_env D cfg V B rq K E" and l: "launch rc cfg (Inr pt) n = Inr args" and rc: "rings_named rc"
    and d: "K d" "\<forall>r. rq d r = []" and two: "2 \<le> length args" and vs: "vip cfg \<noteq> self_ip cfg"
  shows "\<exists>cs. start_cores S d args = Some (Inr cs) \<and> (\<forall>F. (fleet_step I D V E)\<^sup>*\<^sup>* (fleet_of d cs) F \<longrightarrow>
    (\<forall>w < length args - 1. \<exists>lb. w_lb (co_world (fl_cores F ! Suc w)) = Some lb \<and> (\<forall>f \<in> set (nt_slots (lb_nat lb)). occupied f \<and> \<not> reaped f \<longrightarrow>
       (\<forall>v lb' f'. v < length args - 1 \<and> v \<noteq> w \<and> w_lb (co_world (fl_cores F ! Suc v)) = Some lb' \<and> f' \<in> set (nt_slots (lb_nat lb'))
          \<and> occupied f' \<and> \<not> reaped f' \<longrightarrow> snat_port f' \<noteq> snat_port f)
       \<and> (\<forall>mb. rd16 (mb_data mb) ETH_TYPE = RTE_ETHER_TYPE_IPV4 \<and> mb_data mb IP_PROTO \<in> {IPPROTO_TCP, IPPROTO_UDP}
          \<and> rd32 (mb_data mb) IP_DST = ip_value (self_ip cfg) \<and> rd16 (mb_data mb) (l4_of D (mb_data mb) + 2) = snat_port f \<longrightarrow>
            ClassifyForSteer I D cfg (la_n_workers (args ! 0)) mb = \<lparr>steer_cls = kSteer, steer_worker = of_nat w\<rparr>))))"
proof -
  obtain cs where cs: "start_cores S d args = Some (Inr cs)" "fleet_args cfg args" "fleet_ok I D cfg V B UNIV rq K S args (fleet_of d cs)"
    by (rule fleet_started [OF env heads_UNIV l rc d])
  show ?thesis
  proof (intro exI [of _ cs] conjI allI impI)
    fix F w
    assume r: "(fleet_step I D V E)\<^sup>*\<^sup>* (fleet_of d cs) F" and w: "w < length args - 1"
    note ok = fleet_reach_ok [OF env cs(2) r cs(3)]
    note wf = worker_flows [OF l two ok]
    obtain lb where lb: "w_lb (co_world (fl_cores F ! Suc w)) = Some lb"
      "\<And>f. f \<in> set (nt_slots (lb_nat lb)) \<Longrightarrow> occupied f \<Longrightarrow> \<not> reaped f \<Longrightarrow> unat (snat_port f) mod (length args - 1) = w" using wf(2) [OF w] by blast
    have apart: "snat_port f' \<noteq> snat_port f" if f: "f \<in> set (nt_slots (lb_nat lb))" "occupied f" "\<not> reaped f"
      and f': "v < length args - 1" "v \<noteq> w" "w_lb (co_world (fl_cores F ! Suc v)) = Some lb'" "f' \<in> set (nt_slots (lb_nat lb'))" "occupied f'" "\<not> reaped f'" for f v lb' f'
      using lb(2) [OF f] wf(2) [OF f'(1)] f' by (metis option.inject)
    show "\<exists>lb. w_lb (co_world (fl_cores F ! Suc w)) = Some lb \<and> (\<forall>f \<in> set (nt_slots (lb_nat lb)). occupied f \<and> \<not> reaped f \<longrightarrow>
       (\<forall>v lb' f'. v < length args - 1 \<and> v \<noteq> w \<and> w_lb (co_world (fl_cores F ! Suc v)) = Some lb' \<and> f' \<in> set (nt_slots (lb_nat lb'))
          \<and> occupied f' \<and> \<not> reaped f' \<longrightarrow> snat_port f' \<noteq> snat_port f)
       \<and> (\<forall>mb. rd16 (mb_data mb) ETH_TYPE = RTE_ETHER_TYPE_IPV4 \<and> mb_data mb IP_PROTO \<in> {IPPROTO_TCP, IPPROTO_UDP}
          \<and> rd32 (mb_data mb) IP_DST = ip_value (self_ip cfg) \<and> rd16 (mb_data mb) (l4_of D (mb_data mb) + 2) = snat_port f \<longrightarrow>
            ClassifyForSteer I D cfg (la_n_workers (args ! 0)) mb = \<lparr>steer_cls = kSteer, steer_worker = of_nat w\<rparr>))"
      using lb(1) apart worker_steered [OF l two vs wf(1) [OF w] w lb(2)] by blast
  qed (rule cs(1))
qed

section \<open>Stopping\<close>

text \<open>A run in which every core that has not returned takes another step at some time.\<close>

definition fair_run :: "isa \<Rightarrow> dpdk \<Rightarrow> 'd dev \<Rightarrow> ('d \<Rightarrow> 'd \<Rightarrow> bool) \<Rightarrow> (nat \<Rightarrow> 'd fleet) \<Rightarrow> bool" where
  "fair_run I D V E \<sigma> \<longleftrightarrow> (\<forall>k. fleet_step I D V E (\<sigma> k) (\<sigma> (Suc k)))
     \<and> (\<forall>k i. core_live i (\<sigma> k) \<longrightarrow> (\<exists>m \<ge> k. fleet_core I D V i (\<sigma> m) = Inr (\<sigma> (Suc m))))"

lemma stopping_step:
  assumes env: "fleet_env D cfg V B rq K E" and args: "fleet_args cfg args" and inv: "fleet_ok I D cfg V B Z rq K S args F"
    and stop: "\<not> fl_running F" and step: "fleet_step I D V E F F'" and i: "i < length args"
  shows "\<not> fl_running F'" and "(work_of (fl_cores F' ! i), work_of (fl_cores F ! i)) \<in> work_less\<^sup>=" and "\<not> core_live i F \<Longrightarrow> \<not> core_live i F'"
proof -
  have "\<not> fl_running F' \<and> (work_of (fl_cores F' ! i), work_of (fl_cores F ! i)) \<in> work_less\<^sup>= \<and> (\<not> core_live i F \<longrightarrow> \<not> core_live i F')"
    using step
  proof (cases rule: fleet_step.cases)
    case (core j)
    have j: "j < length args" using core(1) fleet_okD(1) [OF inv] by (simp add: core_live_def)
    have "fl_running F' = fl_running F \<and> length (fl_cores F') = length (fl_cores F) \<and> (\<forall>k. k \<noteq> j \<longrightarrow> fl_cores F' ! k = fl_cores F ! k)
      \<and> (work_of (fl_cores F' ! j), work_of (fl_cores F ! j)) \<in> work_less"
      using fleet_core_ok [OF env args inv j] core stop by auto
    with core stop show ?thesis by (cases "i = j") (auto simp: core_live_def)
  qed (use stop in \<open>simp_all add: OnSignal_def core_live_def\<close>)
  then show "\<not> fl_running F'" "(work_of (fl_cores F' ! i), work_of (fl_cores F ! i)) \<in> work_less\<^sup>=" "\<not> core_live i F \<Longrightarrow> \<not> core_live i F'" by blast+
qed

text \<open>Something that never gains work, and at some time loses some as long as it is alive, dies.\<close>

lemma work_runs_out:
  assumes wf: "wf r" and le: "\<And>k. (W (Suc k), W k) \<in> r\<^sup>=" and dead: "\<And>k. \<not> busy k \<Longrightarrow> \<not> busy (Suc k)"
    and fair: "\<And>k. busy k \<Longrightarrow> \<exists>m \<ge> k. busy m \<longrightarrow> (W (Suc m), W m) \<in> r"
  shows "\<exists>m. \<forall>k \<ge> m. \<not> busy (k :: nat)"
proof -
  have far: "(W (k + j), W k) \<in> r\<^sup>*" for k j
  proof (induction j)
    case (Suc j)
    have "(W (Suc (k + j)), W (k + j)) \<in> r\<^sup>*" using le [of "k + j"] by auto
    with Suc.IH show ?case by simp
  qed simp
  have gone: "\<exists>m. \<forall>k \<ge> m. \<not> busy k" if "\<not> busy k" for k
  proof -
    have "\<not> busy (k + j)" for j by (induction j) (use that dead in auto)
    then show ?thesis by (metis le_add_diff_inverse)
  qed
  have "\<exists>m. \<forall>k \<ge> m. \<not> busy k" if "w = W k0" for w k0
    using wf_trancl [OF wf] that
  proof (induction w arbitrary: k0 rule: wf_induct_rule)
    case (less w)
    show ?case
    proof (cases "busy k0")
      case True
      then obtain m where m: "k0 \<le> m" "busy m \<longrightarrow> (W (Suc m), W m) \<in> r" using fair by blast
      show ?thesis
      proof (cases "busy m")
        case True
        have "(W m, W k0) \<in> r\<^sup>*" using far [of k0 "m - k0"] m(1) by simp
        then have "(W (Suc m), w) \<in> r\<^sup>+" using m(2) True unfolding less.prems by (intro rtrancl_into_trancl2) simp_all
        then show ?thesis by (rule less.IH) simp
      qed (rule gone)
    qed (rule gone)
  qed
  then show ?thesis by blast
qed

lemma core_stops:
  assumes env: "fleet_env D cfg V B rq K E" and args: "fleet_args cfg args" and inv: "\<And>k. fleet_ok I D cfg V B Z rq K S args (\<sigma> k)"
    and stop: "\<not> fl_running (\<sigma> 0)" and fair: "fair_run I D V E \<sigma>" and i: "i < length args"
  shows "\<exists>m. \<forall>k \<ge> m. \<not> core_live i (\<sigma> k)"
proof (rule work_runs_out [OF wf_work_less, where W = "\<lambda>k. work_of (fl_cores (\<sigma> k) ! i)"])
  have step: "fleet_step I D V E (\<sigma> k) (\<sigma> (Suc k))" for k using fair by (simp add: fair_run_def)
  have st: "\<not> fl_running (\<sigma> k)" for k by (induction k) (use stop stopping_step(1) [OF env args inv _ step i] in blast)+
  note ss = stopping_step(2,3) [OF env args inv st step i]
  show "(work_of (fl_cores (\<sigma> (Suc k)) ! i), work_of (fl_cores (\<sigma> k) ! i)) \<in> work_less\<^sup>=" for k by (rule ss)
  show "\<not> core_live i (\<sigma> k) \<Longrightarrow> \<not> core_live i (\<sigma> (Suc k))" for k by (rule ss)
  show "\<exists>m \<ge> k. core_live i (\<sigma> m) \<longrightarrow> (work_of (fl_cores (\<sigma> (Suc m)) ! i), work_of (fl_cores (\<sigma> m) ! i)) \<in> work_less" if "core_live i (\<sigma> k)" for k
  proof -
    obtain m where m: "k \<le> m" "fleet_core I D V i (\<sigma> m) = Inr (\<sigma> (Suc m))" using fair \<open>core_live i (\<sigma> k)\<close> unfolding fair_run_def by blast
    then show ?thesis using fleet_core_ok [OF env args inv i, of m] st by (intro exI [of _ m]) auto
  qed
qed

lemma exit_flight: "\<not> core_live i F \<Longrightarrow> i < length (fl_cores F) \<Longrightarrow> core_flight (fl_cores F ! i) = {#}"
  by (simp add: core_live_def core_flight_def)

lemma eventually_all:
  assumes "\<And>i. i < n \<Longrightarrow> \<exists>m. \<forall>k \<ge> m. P (i :: nat) (k :: nat)"
  shows "\<exists>m. \<forall>k \<ge> m. \<forall>i < n. P i k"
proof -
  obtain T where T: "\<And>i k. i < n \<Longrightarrow> T i \<le> k \<Longrightarrow> P i k" using assms by metis
  have "T i \<le> (\<Sum>i<n. T i)" if "i < n" for i using that by (intro member_le_sum) auto
  then show ?thesis using T by (intro exI [of _ "\<Sum>i<n. T i"]) (meson le_trans)
qed

text \<open>When all cores have returned, none holds a packet.\<close>

lemma fleet_at_rest:
  assumes ok: "fleet_ok I D cfg V B Z rq K S args F" and dead: "\<forall>i < length args. \<not> core_live i F"
  shows "(\<forall>c \<in> set (fl_cores F). co_pc c = kExit)
    \<and> (\<Sum>c\<leftarrow>fl_cores F. ids (w_received (co_world c))) =
        (\<Sum>c\<leftarrow>fl_cores F. ids (w_sent (co_world c)) + ids (w_freed (co_world c))) + (\<Sum>r\<in>fleet_rings args. ids (rq (fl_dev F) r))"
proof -
  have ex: "co_pc c = kExit \<and> core_flight c = {#}" if "c \<in> set (fl_cores F)" for c
    using dead exit_flight [of _ F] that fleet_okD(1) [OF ok] by (metis in_set_conv_nth core_live_def)
  have "(\<Sum>c\<leftarrow>fl_cores F. ids (w_sent (co_world c)) + ids (w_freed (co_world c)) + image_mset mb_id (core_flight c))
      = (\<Sum>c\<leftarrow>fl_cores F. ids (w_sent (co_world c)) + ids (w_freed (co_world c)))"
    using ex by (intro arg_cong [of _ _ sum_list] map_cong [OF refl]) simp
  with fleet_balance [OF ok] ex show ?thesis by simp
qed

text \<open>
  A signal stops the dataplane. From any reachable state in which the signal has come, in every run in which no
  core is kept from running for ever, there is a time from which on all cores have returned, so that the main
  thread, which waits for them, goes on. Then no core holds a packet: what was received
  has been transmitted, has been freed, or is on a ring.
\<close>

theorem fleet_stops:
  assumes env: "fleet_env D cfg V B rq K E" and l: "launch rc cfg (Inr pt) n = Inr args" and rc: "rings_named rc"
    and d: "K d" "\<forall>r. rq d r = []"
  shows "\<exists>cs. start_cores S d args = Some (Inr cs) \<and> (\<forall>\<sigma>. (fleet_step I D V E)\<^sup>*\<^sup>* (fleet_of d cs) (\<sigma> 0) \<and> \<not> fl_running (\<sigma> 0) \<and> fair_run I D V E \<sigma> \<longrightarrow>
      (\<exists>m. \<forall>k \<ge> m. (\<forall>c \<in> set (fl_cores (\<sigma> k)). co_pc c = kExit)
        \<and> (\<Sum>c\<leftarrow>fl_cores (\<sigma> k). ids (w_received (co_world c))) =
            (\<Sum>c\<leftarrow>fl_cores (\<sigma> k). ids (w_sent (co_world c)) + ids (w_freed (co_world c))) + (\<Sum>r\<in>fleet_rings args. ids (rq (fl_dev (\<sigma> k)) r))))"
proof -
  obtain cs where cs: "start_cores S d args = Some (Inr cs)" "fleet_args cfg args" "fleet_ok I D cfg V B UNIV rq K S args (fleet_of d cs)"
    by (rule fleet_started [OF env heads_UNIV l rc d])
  show ?thesis
  proof (intro exI [of _ cs] conjI allI impI cs(1), elim conjE)
    fix \<sigma>
    assume r: "(fleet_step I D V E)\<^sup>*\<^sup>* (fleet_of d cs) (\<sigma> 0)" and stop: "\<not> fl_running (\<sigma> 0)" and fair: "fair_run I D V E \<sigma>"
    have ok: "fleet_ok I D cfg V B UNIV rq K S args (\<sigma> k)" for k
      by (induction k) (use fleet_reach_ok [OF env cs(2) r cs(3)] fleet_step_ok [OF env cs(2)] fair in \<open>auto simp: fair_run_def\<close>)
    obtain m where "\<forall>k \<ge> m. \<forall>i < length args. \<not> core_live i (\<sigma> k)" 
      using eventually_all [of "length args" "\<lambda>i k. \<not> core_live i (\<sigma> k)"] core_stops [OF env cs(2) ok stop fair] by blast
    then show "\<exists>m. \<forall>k \<ge> m. (\<forall>c \<in> set (fl_cores (\<sigma> k)). co_pc c = kExit)
        \<and> (\<Sum>c\<leftarrow>fl_cores (\<sigma> k). ids (w_received (co_world c))) =
            (\<Sum>c\<leftarrow>fl_cores (\<sigma> k). ids (w_sent (co_world c)) + ids (w_freed (co_world c))) + (\<Sum>r\<in>fleet_rings args. ids (rq (fl_dev (\<sigma> k)) r))"
      by (intro exI [of _ m] allI impI fleet_at_rest [OF ok]) simp
  qed
qed

section \<open>An example\<close>

text \<open>A port with a list of incoming packets, and rings of eight entries; a ring's handle is computed from its name.\<close>

type_synonym ex_net = "mbuf list \<times> (nat \<Rightarrow> mbuf list)"

definition fifo_dev :: "ex_net dev" where
  "fifo_dev = \<lparr>eth_rx_burst = (\<lambda>p q n d. (take n (fst d), (drop n (fst d), snd d))), eth_tx_burst = (\<lambda>p q ms d. (length ms, d)),
     ring_dequeue_burst = (\<lambda>r n d. (take n (snd d r), (fst d, (snd d)(r := drop n (snd d r))))),
     ring_enqueue_burst = (\<lambda>r ms d. let k = min (length ms) (8 - length (snd d r)) in (k, (fst d, (snd d)(r := snd d r @ take k ms)))),
     ring_enqueue = (\<lambda>r m d. if length (snd d r) < 8 then (0, (fst d, (snd d)(r := snd d r @ [m]))) else (-105, d)),
     timer_cycles = (\<lambda>d. 5000), timer_hz = 1000000, rcu_load = (\<lambda>d. (\<lparr>rcu_ptr = Some (ex_pool [1])\<rparr>, d))\<rparr>"

fun name_id :: "string \<Rightarrow> nat" where
  "name_id [] = 0"
| "name_id (c # cs) = Suc (of_char c) + 257 * name_id cs"

definition fifo_rings :: ring_create where
  "fifo_rings name k f = Suc (name_id name)"

lemma name_id_inj: "name_id s = name_id t \<longleftrightarrow> s = t"
proof (induction s arbitrary: t)
  case Nil
  then show ?case by (cases t) simp_all
next
  case (Cons c s)
  show ?case
  proof (cases t)
    case (Cons c' t')
    have b: "(of_char c :: nat) < 256" "(of_char c' :: nat) < 256" by (rule nat_of_char_less_256)+
    have "a + 257 * x = a' + 257 * x' \<longleftrightarrow> a = a' \<and> x = x'" if "a < 256" "a' < 256" for a a' x x' :: nat
    proof -
      have "(a + 257 * x) mod 257 = a" "(a' + 257 * x') mod 257 = a'" using that by simp_all
      then show ?thesis by (metis add_left_cancel mult_cancel1 zero_neq_numeral)
    qed
    from this [OF b] have "name_id (c # s) = name_id (c' # t') \<longleftrightarrow> (of_char c :: nat) = of_char c' \<and> name_id s = name_id t'" by simp
    then show ?thesis unfolding Cons using Cons.IH [of t'] by simp
  qed simp
qed

lemma fifo_named: "rings_named fifo_rings"
  by (simp add: rings_named_def fifo_rings_def name_id_inj)

definition fifo_any :: "ex_net \<Rightarrow> bool" where
  "fifo_any d \<longleftrightarrow> True"

text \<open>Now and then a packet comes in, whatever it holds.\<close>

definition fifo_env :: "ex_net \<Rightarrow> ex_net \<Rightarrow> bool" where
  "fifo_env d d' \<longleftrightarrow> (\<exists>m. d' = (fst d @ [m], snd d))"

lemma fifo_ok: "fleet_env ex_dpdk ex_cfg fifo_dev (set (bp_slots (ex_pool [1]))) snd fifo_any fifo_env"
proof -
  have "dev_ok fifo_dev" using ex_pool_built by (simp add: dev_ok_def fifo_dev_def built_rcu_def Rcu_Load_def Let_def)
  moreover have "ring_laws fifo_dev snd" by (auto simp: ring_laws_def fifo_dev_def Let_def)
  moreover have "nic_ok ex_dpdk ex_cfg fifo_dev (set (bp_slots (ex_pool [1]))) fifo_any"
  proof -
    have "MacAddr_ok (self_mac ex_cfg)" by code_simp
    moreover have "\<forall>b \<in> set (bp_slots (ex_pool [1])). MacAddr_ok (bi_mac b)" by code_simp
    ultimately show ?thesis using ex_dpdk_local by (auto simp: nic_ok_def fifo_dev_def fifo_any_def Rcu_Load_def)
  qed
  moreover have "fifo_env d d' \<longrightarrow> fifo_any d \<longrightarrow> fifo_any d' \<and> snd d' = snd d" for d d'
    by (auto simp: fifo_env_def fifo_any_def)
  ultimately show ?thesis by (simp add: fleet_env_def)
qed

definition fifo_args :: "LcoreArg list" where
  "fifo_args = (let r = Suc (name_id ''cere_ingress_0''); e = Suc (name_id ''cere_egress'')
     in [lcore_arg ex_cfg 0 True 1 [r] e 0 0, lcore_arg ex_cfg 0 True 1 [r] e 1 0])"

lemma fifo_launch: "launch fifo_rings ex_cfg (Inr ex_port) 3 = Inr fifo_args"
proof -
  have "dec 0 = ''0''" by code_simp
  then show ?thesis
    by (simp add: two_upt launch_def Let_def kMaxLcores_def Ring_new_def fifo_rings_def fifo_args_def ex_port_def lcore_arg_def del: name_id.simps)
qed

abbreviation fifo_start :: ex_net where
  "fifo_start \<equiv> ([ex_mbuf], \<lambda>r. [])"

abbreviation fifo_step :: "ex_net fleet \<Rightarrow> ex_net fleet \<Rightarrow> bool" where
  "fifo_step \<equiv> fleet_step Generic ex_dpdk fifo_dev fifo_env"

lemma fifo_start_ok: "fifo_any fifo_start" "\<forall>r. snd fifo_start r = []"
  by (simp_all add: fifo_any_def)

theorem fleet_conserves_witness:
  "\<exists>cs. start_cores (\<lambda>_. LcoreStats_zero) fifo_start fifo_args = Some (Inr cs) \<and> length cs = 2 \<and> (\<forall>F. fifo_step\<^sup>*\<^sup>* (fleet_of fifo_start cs) F \<longrightarrow>
      (\<forall>i. core_live i F \<longrightarrow> (\<exists>F'. fleet_core Generic ex_dpdk fifo_dev i F = Inr F')))"
  using fleet_conserves [OF fifo_ok fifo_launch fifo_named fifo_start_ok, of "\<lambda>_. LcoreStats_zero" Generic]
  by (auto simp: fifo_args_def Let_def simp del: name_id.simps)

theorem fleet_fifo_witness:
  "\<exists>cs. start_cores (\<lambda>_. LcoreStats_zero) fifo_start fifo_args = Some (Inr cs) \<and> (\<forall>F. fifo_step\<^sup>*\<^sup>* (fleet_of fifo_start cs) F \<longrightarrow>
      (let r = Suc (name_id ''cere_ingress_0'')
       in on_ring r (w_ringed (co_world (fl_cores F ! 0))) = w_dequeued (co_world (fl_cores F ! 1)) @ snd (fl_dev F) r))"
proof -
  have a: "length fifo_args = 2" "la_worker_rings (fifo_args ! 0) = [Suc (name_id ''cere_ingress_0'')]"
    by (simp_all add: fifo_args_def Let_def lcore_arg_def del: name_id.simps)
  then have "2 \<le> length fifo_args" by simp
  from fleet_fifo [OF fifo_ok fifo_launch fifo_named fifo_start_ok this, of "\<lambda>_. LcoreStats_zero" Generic] a show ?thesis
    by (auto simp: Let_def simp del: name_id.simps)
qed

theorem fleet_flows_witness:
  "\<exists>cs. start_cores (\<lambda>_. LcoreStats_zero) fifo_start fifo_args = Some (Inr cs) \<and> (\<forall>F. fifo_step\<^sup>*\<^sup>* (fleet_of fifo_start cs) F \<longrightarrow>
      (\<exists>lb. w_lb (co_world (fl_cores F ! 1)) = Some lb))"
proof -
  have two: "length fifo_args = 2" by (simp add: fifo_args_def Let_def del: name_id.simps)
  then have "2 \<le> length fifo_args" by simp
  moreover have "vip ex_cfg \<noteq> self_ip ex_cfg" by code_simp
  ultimately have "\<exists>cs. start_cores (\<lambda>_. LcoreStats_zero) fifo_start fifo_args = Some (Inr cs) \<and> (\<forall>F. fifo_step\<^sup>*\<^sup>* (fleet_of fifo_start cs) F \<longrightarrow>
      (\<forall>w < length fifo_args - 1. \<exists>lb. w_lb (co_world (fl_cores F ! Suc w)) = Some lb))"
    by (rule ex_forward [OF fleet_flows [OF fifo_ok fifo_launch fifo_named fifo_start_ok, of "\<lambda>_. LcoreStats_zero" Generic]]) fast
  then show ?thesis using two by (auto simp: less_Suc_eq)
qed

text \<open>A run in which the signal comes first, and then the two cores return.\<close>

definition fifo_run :: "ex_net core list \<Rightarrow> nat \<Rightarrow> ex_net fleet" where
  "fifo_run cs k = (OnSignal (fleet_of fifo_start cs))\<lparr>fl_cores := map (\<lambda>(i, c). if i < k then c\<lparr>co_pc := kExit\<rparr> else c) (enumerate 0 cs)\<rparr>"

lemma enumerate_two: "length cs = 2 \<Longrightarrow> \<exists>a b. cs = [a, b]"
  by (auto simp: numeral_2_eq_2 length_Suc_conv)

lemma fifo_fair:
  assumes "length cs = 2" and "\<forall>c \<in> set cs. co_pc c = kLoop"
  shows "fair_run Generic ex_dpdk V fifo_env (fifo_run cs)"
proof -
  obtain a b where cs: "cs = [a, b]" using enumerate_two [OF assms(1)] by blast
  have pc: "co_pc a = kLoop" "co_pc b = kLoop" using assms(2) cs by simp_all
  have run: "fl_cores (fifo_run cs k) = [if 0 < k then a\<lparr>co_pc := kExit\<rparr> else a, if 1 < k then b\<lparr>co_pc := kExit\<rparr> else b]"
    "fl_running (fifo_run cs k) = False" "fl_dev (fifo_run cs k) = fifo_start" for k
    by (simp_all add: fifo_run_def cs OnSignal_def fleet_of_def)
  have eq: "fifo_run cs k = \<lparr>fl_dev = fifo_start, fl_cores = [if 0 < k then a\<lparr>co_pc := kExit\<rparr> else a, if 1 < k then b\<lparr>co_pc := kExit\<rparr> else b],
    fl_running = False\<rparr>" for k by (simp add: fifo_run_def cs OnSignal_def fleet_of_def)
  have c0: "fleet_core Generic ex_dpdk V 0 (fifo_run cs 0) = Inr (fifo_run cs 1)" unfolding eq using pc by (simp add: fleet_core_def core_step_def)
  have c1: "fleet_core Generic ex_dpdk V 1 (fifo_run cs 1) = Inr (fifo_run cs 2)" unfolding eq using pc by (simp add: fleet_core_def core_step_def)
  have l: "core_live 0 (fifo_run cs k) \<longleftrightarrow> k = 0" "core_live 1 (fifo_run cs k) \<longleftrightarrow> k \<le> 1" "core_live i (fifo_run cs k) \<Longrightarrow> i = 0 \<or> i = 1" for k i
    unfolding eq using pc by (auto simp: core_live_def)
  have "fleet_step Generic ex_dpdk V fifo_env (fifo_run cs k) (fifo_run cs (Suc k))" for k
  proof -
    consider "k = 0" | "k = 1" | "2 \<le> k" by linarith
    then show ?thesis
    proof cases
      case 3
      then have "fifo_run cs (Suc k) = OnSignal (fifo_run cs k)" unfolding eq by (simp add: OnSignal_def)
      then show ?thesis using fleet_step.signal by metis
    qed (use fleet_step.core [of 0 "fifo_run cs 0"] fleet_step.core [of 1 "fifo_run cs 1"] l(1,2) c0 c1 in \<open>simp_all add: numeral_2_eq_2\<close>)
  qed
  moreover have "\<exists>m \<ge> k. fleet_core Generic ex_dpdk V i (fifo_run cs m) = Inr (fifo_run cs (Suc m))" if "core_live i (fifo_run cs k)" for k i
    using l [of k] l(3) [OF that] that c0 c1 by (auto simp: numeral_2_eq_2)
  ultimately show ?thesis by (simp add: fair_run_def)
qed

theorem fleet_stops_witness:
  "\<exists>cs. start_cores (\<lambda>_. LcoreStats_zero) fifo_start fifo_args = Some (Inr cs)
    \<and> (\<exists>m. \<forall>k \<ge> m. \<forall>c \<in> set (fl_cores (fifo_run cs k)). co_pc c = kExit)"
proof -
  obtain cs where cs: "start_cores (\<lambda>_. LcoreStats_zero) fifo_start fifo_args = Some (Inr cs)" "length cs = length fifo_args" "\<forall>c \<in> set cs. co_pc c = kLoop"
    by (rule fleet_started [OF fifo_ok heads_UNIV fifo_launch fifo_named fifo_start_ok])
  have two: "length cs = 2" using cs(2) by (simp add: fifo_args_def Let_def del: name_id.simps)
  note fair = fifo_fair [OF two cs(3)]
  have "fifo_run cs 0 = OnSignal (fleet_of fifo_start cs)"
    using enumerate_two [OF two] by (auto simp: fifo_run_def fleet_of_def OnSignal_def)
  then have "fifo_step\<^sup>*\<^sup>* (fleet_of fifo_start cs) (fifo_run cs 0)" "\<not> fl_running (fifo_run cs 0)"
    using r_into_rtranclp [of fifo_step, OF fleet_step.signal] by (metis, simp add: OnSignal_def)
  with fair cs(1) fleet_stops [OF fifo_ok fifo_launch fifo_named fifo_start_ok, of "\<lambda>_. LcoreStats_zero" Generic] show ?thesis by fastforce
qed



end
