(* ===== verification/Shm_Provider.thy ===== *)
theory Shm_Provider
  imports Ipc_Types Net_Types
begin

text \<open>
  \<open>libs/ipc/src/shm_provider.cpp\<close>: creating and attaching a shared-memory segment. The answers
  of the operating system are the fields of \<open>shm_os\<close>; each call is made at most once. What the
  constructor and the destructor ask of it is recorded as a list of events, in order.
\<close>

datatype Mode = kCreate | kAttach

definition kShmPerms :: nat where "kShmPerms = 432"
definition O_RDWR :: nat where "O_RDWR = 2"
definition O_CREAT :: nat where "O_CREAT = 64"

record shm_os =
  os_open :: int
  os_fstat :: int
  os_size :: int
  os_ftruncate :: int
  os_fchmod :: int
  os_mmap :: "nat option"

datatype shm_event =
    EOpen string nat nat int
  | EStat int
  | ETruncate int nat
  | EChmod int nat
  | EMmap int nat "nat option"
  | EMunmap nat nat
  | EClose int
  | EUnlink string

record ShmProvider =
  shm_name :: string
  shm_size :: nat
  shm_mode :: Mode
  shm_fd :: int
  shm_ptr :: "nat option"

text \<open>\<open>static_cast<std::size_t>(info.st_size)\<close>: a negative size becomes a huge one.\<close>

definition VerifyAttachSize :: "shm_os \<Rightarrow> int \<Rightarrow> nat \<Rightarrow> string \<Rightarrow> unit result \<times> shm_event list" where
  "VerifyAttachSize S fd want name =
     (if os_fstat S < 0 then (Inl (RuntimeError (''fstat failed: '' @ name)), [EStat fd])
      else if unat (of_int (os_size S) :: u64) < want
      then (Inl (RuntimeError (''shm segment smaller than expected: '' @ name)), [EStat fd])
      else (Inr (), [EStat fd]))"

definition ApplyHeader :: "ShmHeader \<Rightarrow> Mode \<Rightarrow> string \<Rightarrow> ShmHeader result" where
  "ApplyHeader h mode name =
     (if mode = kCreate then Inr (InitShmHeader h)
      else if \<not> CheckShmHeader h then Inl (RuntimeError (''shm magic/version mismatch: '' @ name))
      else Inr h)"

text \<open>The \<open>try\<close> block: the mapping made so far, the header after it or the exception, the calls.\<close>

definition size_segment :: "shm_os \<Rightarrow> int \<Rightarrow> string \<Rightarrow> nat \<Rightarrow> Mode \<Rightarrow> unit result \<times> shm_event list" where
  "size_segment S fd name sz mode =
     (if mode = kCreate then
        (if os_ftruncate S < 0 then (Inl (RuntimeError ''ftruncate failed''), [ETruncate fd sz])
         else if os_fchmod S < 0 then (Inl (RuntimeError ''fchmod failed''), [ETruncate fd sz, EChmod fd kShmPerms])
         else (Inr (), [ETruncate fd sz, EChmod fd kShmPerms]))
      else VerifyAttachSize S fd sz name)"

definition map_segment :: "shm_os \<Rightarrow> int \<Rightarrow> string \<Rightarrow> nat \<Rightarrow> Mode \<Rightarrow> ShmHeader
    \<Rightarrow> nat option \<times> ShmHeader result \<times> shm_event list" where
  "map_segment S fd name sz mode h =
     (case size_segment S fd name sz mode of
        (Inl e, tr) \<Rightarrow> (None, Inl e, tr)
      | (Inr _, tr) \<Rightarrow>
          (case os_mmap S of
             None \<Rightarrow> (None, Inl (RuntimeError ''mmap failed''), tr @ [EMmap fd sz None])
           | Some p \<Rightarrow> (Some p, ApplyHeader h mode name, tr @ [EMmap fd sz (Some p)])))"

definition ShmProvider_new :: "shm_os \<Rightarrow> string \<Rightarrow> nat \<Rightarrow> Mode \<Rightarrow> ShmHeader
    \<Rightarrow> (ShmProvider \<times> ShmHeader) result \<times> shm_event list" where
  "ShmProvider_new S name sz mode h =
     (let flags = (if mode = kCreate then O_CREAT + O_RDWR else O_RDWR);
          fd = os_open S;
          tr0 = [EOpen name flags kShmPerms fd]
      in if fd < 0 then (Inl (RuntimeError (''shm_open failed: '' @ name)), tr0)
         else case map_segment S fd name sz mode h of
           (ptr, Inr h', tr) \<Rightarrow>
             (Inr (\<lparr>shm_name = name, shm_size = sz, shm_mode = mode, shm_fd = fd, shm_ptr = ptr\<rparr>, h'), tr0 @ tr)
         | (ptr, Inl e, tr) \<Rightarrow>
             (Inl e, tr0 @ tr @ (case ptr of None \<Rightarrow> [] | Some p \<Rightarrow> [EMunmap p sz]) @ [EClose fd]
                @ (if mode = kCreate then [EUnlink name] else [])))"

definition ShmProvider_dtor :: "ShmProvider \<Rightarrow> shm_event list" where
  "ShmProvider_dtor s =
     (case shm_ptr s of None \<Rightarrow> [] | Some p \<Rightarrow> [EMunmap p (shm_size s)])
     @ (if shm_fd s \<ge> 0 then [EClose (shm_fd s)] else [])
     @ (if shm_mode s = kCreate then [EUnlink (shm_name s)] else [])"

section \<open>Nothing is left behind\<close>

text \<open>The descriptors and mappings that remain after a list of events.\<close>

fun fds_left :: "shm_event list \<Rightarrow> int multiset \<Rightarrow> int multiset" where
  "fds_left [] m = m"
| "fds_left (EOpen _ _ _ fd # es) m = fds_left es (if fd < 0 then m else add_mset fd m)"
| "fds_left (EClose fd # es) m = fds_left es (m - {#fd#})"
| "fds_left (e # es) m = fds_left es m"

fun maps_left :: "shm_event list \<Rightarrow> nat multiset \<Rightarrow> nat multiset" where
  "maps_left [] m = m"
| "maps_left (EMmap _ _ (Some p) # es) m = maps_left es (add_mset p m)"
| "maps_left (EMunmap p _ # es) m = maps_left es (m - {#p#})"
| "maps_left (e # es) m = maps_left es m"

text \<open>
  C30. Whatever the operating system answers, a constructor that throws has closed what it opened
  and unmapped what it mapped, and has removed the name exactly if it was to create the
  segment and had opened it; a constructor that returns has a mapped segment with a valid
  header and, until the destructor runs, removes nothing; after the destructor nothing is left.
\<close>

theorem shm_balanced:
  "case ShmProvider_new S name sz mode h of
     (Inl e, tr) \<Rightarrow> fds_left tr {#} = {#} \<and> maps_left tr {#} = {#} \<and> (EUnlink name \<in> set tr \<longleftrightarrow> mode = kCreate \<and> 0 \<le> os_open S)
   | (Inr (s, h'), tr) \<Rightarrow> shm_ptr s \<noteq> None \<and> CheckShmHeader h' \<and> EUnlink name \<notin> set tr
       \<and> fds_left (tr @ ShmProvider_dtor s) {#} = {#} \<and> maps_left (tr @ ShmProvider_dtor s) {#} = {#}
       \<and> (EUnlink name \<in> set (ShmProvider_dtor s) \<longleftrightarrow> mode = kCreate)"
  by (cases mode; cases "os_mmap S")
    (simp_all add: ShmProvider_new_def map_segment_def size_segment_def VerifyAttachSize_def ApplyHeader_def ShmProvider_dtor_def Let_def)

text \<open>When attaching succeeds.\<close>

lemma attach_iff:
  "fst (ShmProvider_new S name sz kAttach h) = Inr (s, h') \<longleftrightarrow>
     0 \<le> os_open S \<and> 0 \<le> os_fstat S \<and> sz \<le> unat (of_int (os_size S) :: u64) \<and> hdr_magic h = kShmMagic \<and> hdr_version h = kShmVersion
     \<and> (\<exists>p. os_mmap S = Some p
         \<and> s = \<lparr>shm_name = name, shm_size = sz, shm_mode = kAttach, shm_fd = os_open S, shm_ptr = Some p\<rparr>) \<and> h' = h"
  by (cases "os_mmap S")
    (auto simp: ShmProvider_new_def map_segment_def size_segment_def VerifyAttachSize_def ApplyHeader_def CheckShmHeader_def Let_def)

end
