(* ===== verification/Lifetime.thy ===== *)
theory Lifetime
  imports Dataplane_Main Shm_Provider
begin

text \<open>
  The life of the dataplane process: \<open>main\<close> and \<open>RunDataplane\<close> of \<open>dataplane/src/main.cpp\<close> with the objects
  they own, \<open>io/eal.hpp\<close> and \<open>io/ring.hpp\<close>. What the process asks of DPDK and of the operating system is a list
  of events, in order. An object of automatic storage is destroyed when its block is left, also by an
  exception: that is \<open>scoped\<close>.
\<close>

section \<open>Events\<close>

datatype main_event =
    MEalInit "string list" int
  | MEalCleanup
  | MShm shm_event
  | MPort eth_event
  | MRingCreate string nat nat nat
  | MRingFree nat
  | MLaunch LcoreArg int
  | MWait



record main_os =
  mo_eal :: "string list \<Rightarrow> int"
  mo_stats :: shm_os
  mo_control :: shm_os
  mo_sizes :: "nat \<times> nat"
  mo_headers :: "ShmHeader \<times> ShmHeader"
  mo_eth :: eth_os
  mo_rings :: ring_create
  mo_lcores :: u32
  mo_launch :: "LcoreArg \<Rightarrow> int"
  mo_view :: ControlView
  mo_views :: "ControlView list"

section \<open>Rings\<close>




section \<open>The process\<close>





text \<open>\<open>rte_eal_remote_launch\<close> answers 0 when the core has taken the function, and a negative number otherwise; the code does not look at the answer.\<close>

definition launch_t :: "main_os \<Rightarrow> LcoreArg \<Rightarrow> main_event" where
  "launch_t M arg = MLaunch arg (mo_launch M arg)"





section \<open>What is held, and when it is given back\<close>

datatype resource = REal | RFd int | RMap nat | RRing nat | RPool nat

fun acquired :: "main_event \<Rightarrow> resource multiset" where
  "acquired (MEalInit _ rc) = (if rc < 0 then {#} else {#REal#})"
| "acquired (MShm (EOpen _ _ _ fd)) = (if fd < 0 then {#} else {#RFd fd#})"
| "acquired (MShm (EMmap _ _ (Some p))) = {#RMap p#}"
| "acquired (MPort (PPool p)) = {#RPool p#}"
| "acquired (MRingCreate _ _ _ r) = (if r = 0 then {#} else {#RRing r#})"
| "acquired _ = {#}"

fun given_back :: "main_event \<Rightarrow> resource multiset" where
  "given_back MEalCleanup = {#REal#}"
| "given_back (MShm (EClose fd)) = {#RFd fd#}"
| "given_back (MShm (EMunmap p _)) = {#RMap p#}"
| "given_back (MPort (PPoolFree p)) = {#RPool p#}"
| "given_back (MRingFree r) = {#RRing r#}"
| "given_back _ = {#}"

fun held :: "resource multiset \<Rightarrow> main_event list \<Rightarrow> resource multiset" where
  "held m [] = m"
| "held m (e # es) = held (m + acquired e - given_back e) es"

text \<open>What must not happen while cores run: giving something back, and stopping or closing the port.\<close>

definition ends_use :: "main_event \<Rightarrow> bool" where
  "ends_use e \<longleftrightarrow> given_back e \<noteq> {#} \<or> e \<in> {MPort PStop, MPort PClose}"

text \<open>Whether cores run after the events, if nothing of the kind happened while they did.\<close>

fun running_after :: "bool \<Rightarrow> main_event list \<Rightarrow> bool option" where
  "running_after r [] = Some r"
| "running_after r (e # es) =
     (case e of
        MLaunch _ rc \<Rightarrow> running_after (r \<or> rc = 0) es
      | MWait \<Rightarrow> running_after False es
      | _ \<Rightarrow> if r \<and> ends_use e then None else running_after r es)"

lemma held_append [simp]: "held m (xs @ ys) = held (held m xs) ys"
  by (induction xs arbitrary: m) simp_all

lemma running_after_append [simp]: "running_after r (xs @ ys) = Option.bind (running_after r xs) (\<lambda>r'. running_after r' ys)"
  by (induction xs arbitrary: r) (auto split: main_event.splits)

text \<open>Events that neither start nor await cores.\<close>

definition calm :: "main_event list \<Rightarrow> bool" where
  "calm tr \<longleftrightarrow> (\<forall>e \<in> set tr. e \<noteq> MWait \<and> (\<forall>a rc. e \<noteq> MLaunch a rc))"

lemma calm_simps [simp]:
  "calm []" "calm (xs @ ys) \<longleftrightarrow> calm xs \<and> calm ys" "calm (e # es) \<longleftrightarrow> e \<noteq> MWait \<and> (\<forall>a rc. e \<noteq> MLaunch a rc) \<and> calm es" "calm (map MShm es')" "calm (map MPort ps)"
  by (auto simp: calm_def)

definition launched :: "main_event list \<Rightarrow> LcoreArg list" where
  "launched tr = concat (map (\<lambda>e. case e of MLaunch a rc \<Rightarrow> [a] | _ \<Rightarrow> []) tr)"

lemma launched_simps [simp]: "launched [] = []" "launched (xs @ ys) = launched xs @ launched ys" "launched (map (launch_t M) as) = as" "launched [MWait] = []"
  by (simp_all add: launched_def comp_def launch_t_def)






section \<open>The objects\<close>











section \<open>The life of the process\<close>














end
