(* ===== verification/Health_Checker.thy ===== *)
theory Health_Checker
  imports Net_Types
begin

text \<open>
  \<open>controlplane/include/health/backend_state.hpp\<close> and \<open>src/health/health_checker.cpp\<close>: the
  thread that probes the backends. The sockets and the clock of the operating system are the
  parameter \<open>sockets\<close>, on a state of an arbitrary type. The world also lists the descriptors the
  probes have open. Only this thread writes \<open>states_\<close>, and the others read it whole under the
  mutex, so a round of the loop is one step.
\<close>

datatype HealthStatus = kUnknown | kUp | kDown | kDraining

record BackendState =
  bs_info :: BackendInfo
  bs_status :: HealthStatus
  fail_count :: u32
  success_count :: u32
  last_check_ns :: u64

record 's sockets =
  sk_socket :: "'s \<Rightarrow> int \<times> 's"
  sk_connect :: "int \<Rightarrow> u32 \<Rightarrow> u16 \<Rightarrow> 's \<Rightarrow> (int \<times> int) \<times> 's"
  sk_select :: "int \<Rightarrow> int \<Rightarrow> 's \<Rightarrow> int \<times> 's"
  sk_so_error :: "int \<Rightarrow> 's \<Rightarrow> int option \<times> 's"
  sk_close :: "int \<Rightarrow> 's \<Rightarrow> 's"
  sk_now_ns :: "'s \<Rightarrow> u64"

record 's sys =
  sys_state :: 's
  sys_fds :: "int list"

definition EINPROGRESS :: int where "EINPROGRESS = 115"
definition kProbeTimeoutSec :: int where "kProbeTimeoutSec = 1"

text \<open>\<open>getsockopt\<close>, whose result is ignored, leaves \<open>err\<close> at 0 when it fails.\<close>

definition WaitForConnect :: "'s sockets \<Rightarrow> int \<Rightarrow> 's \<Rightarrow> bool \<times> 's" where
  "WaitForConnect S fdesc s =
     (let (n, s1) = sk_select S fdesc kProbeTimeoutSec s in
      if n \<le> 0 then (False, s1)
      else let (e, s2) = sk_so_error S fdesc s1;
               err = (case e of None \<Rightarrow> 0 | Some v \<Rightarrow> v)
           in (err = 0, s2))"

definition Probe :: "'s sockets \<Rightarrow> BackendInfo \<Rightarrow> 's sys \<Rightarrow> bool \<times> 's sys" where
  "Probe S backend w =
     (let (fdesc, s1) = sk_socket S (sys_state w) in
      if fdesc < 0 then (False, w\<lparr>sys_state := s1\<rparr>)
      else let fds = fdesc # sys_fds w;
               ((rc, errno), s2) = sk_connect S fdesc (ip_value (bi_ip backend)) (bi_probe_port backend) s1;
               (healthy, s3) = (if rc = 0 then (True, s2)
                                else if errno = EINPROGRESS then WaitForConnect S fdesc s2 else (False, s2))
           in (healthy, w\<lparr>sys_state := sk_close S fdesc s3, sys_fds := remove1 fdesc fds\<rparr>))"

record HealthChecker =
  hc_cfg :: Config
  hc_states :: "BackendState list"
  hc_running :: bool

definition HealthChecker_new :: "Config \<Rightarrow> HealthChecker" where
  "HealthChecker_new cfg = \<lparr>hc_cfg = cfg,
     hc_states = map (\<lambda>b. \<lparr>bs_info = b, bs_status = kUnknown, fail_count = 0, success_count = 0, last_check_ns = 0\<rparr>) (backends cfg),
     hc_running = False\<rparr>"

definition Start :: "HealthChecker \<Rightarrow> HealthChecker" where
  "Start hc = hc\<lparr>hc_running := True\<rparr>"

definition Stop :: "HealthChecker \<Rightarrow> HealthChecker" where
  "Stop hc = hc\<lparr>hc_running := False\<rparr>"

definition States :: "HealthChecker \<Rightarrow> BackendState list" where
  "States hc = hc_states hc"

definition check_state :: "'s sockets \<Rightarrow> BackendState \<Rightarrow> 's sys \<Rightarrow> BackendState \<times> 's sys" where
  "check_state S st w =
     (let (healthy, w1) = Probe S (bs_info st) w;
          st1 = st\<lparr>bs_status := (if healthy then kUp else kDown)\<rparr>;
          st2 = (if healthy then st1\<lparr>success_count := success_count st1 + 1\<rparr> else st1\<lparr>fail_count := fail_count st1 + 1\<rparr>)
      in (st2\<lparr>last_check_ns := sk_now_ns S (sys_state w1)\<rparr>, w1))"

fun check_all :: "'s sockets \<Rightarrow> BackendState list \<Rightarrow> 's sys \<Rightarrow> BackendState list \<times> 's sys" where
  "check_all S [] w = ([], w)"
| "check_all S (st # sts) w =
     (let (st', w1) = check_state S st w; (sts', w2) = check_all S sts w1 in (st' # sts', w2))"

definition health_round :: "'s sockets \<Rightarrow> HealthChecker \<times> 's sys \<Rightarrow> HealthChecker \<times> 's sys" where
  "health_round S hw = (let (sts, w) = check_all S (hc_states (fst hw)) (snd hw) in ((fst hw)\<lparr>hc_states := sts\<rparr>, w))"

text \<open>The loop, for the number of rounds until \<open>Stop\<close>.\<close>

fun RunLoop :: "'s sockets \<Rightarrow> nat \<Rightarrow> HealthChecker \<times> 's sys \<Rightarrow> HealthChecker \<times> 's sys" where
  "RunLoop S 0 hw = hw"
| "RunLoop S (Suc n) hw = (if hc_running (fst hw) then RunLoop S n (health_round S hw) else hw)"

section \<open>What the checker knows\<close>

text \<open>The answers of the probes of a round, in order.\<close>

fun answers :: "'s sockets \<Rightarrow> BackendInfo list \<Rightarrow> 's sys \<Rightarrow> bool list" where
  "answers S [] w = []"
| "answers S (b # bs) w = (let (ok, w1) = Probe S b w in ok # answers S bs w1)"

lemma Probe_fds [simp]: "sys_fds (snd (Probe S b w)) = sys_fds w"
  by (auto simp: Probe_def Let_def split: prod.split)

lemma check_state_sel:
  assumes "check_state S st w = (st', w1)"
  shows "bs_info st' = bs_info st" and "bs_status st' = (if fst (Probe S (bs_info st) w) then kUp else kDown)"
    and "success_count st' + fail_count st' = success_count st + fail_count st + 1" and "w1 = snd (Probe S (bs_info st) w)"
  using assms by (auto simp: check_state_def Let_def algebra_simps split: prod.splits)

lemma check_all_sel:
  assumes "check_all S sts w = (sts', w')"
  shows "map bs_info sts' = map bs_info sts \<and> sys_fds w' = sys_fds w
    \<and> map bs_status sts' = map (\<lambda>ok. if ok then kUp else kDown) (answers S (map bs_info sts) w)
    \<and> map (\<lambda>s. success_count s + fail_count s) sts' = map (\<lambda>s. success_count s + fail_count s + 1) sts"
  using assms
proof (induction sts arbitrary: sts' w w')
  case Nil
  then show ?case by simp
next
  case (Cons st sts)
  obtain st1 w1 where a: "check_state S st w = (st1, w1)" by fastforce
  obtain sts1 w2 where b: "check_all S sts w1 = (sts1, w2)" by fastforce
  have out: "sts' = st1 # sts1" "w' = w2" using Cons.prems a b by simp_all
  with check_state_sel [OF a] Cons.IH [OF b] show ?case by (simp add: case_prod_beta)
qed

lemma health_round_sel:
  assumes "health_round S (hc, w) = (hc', w')"
  shows "map bs_info (hc_states hc') = map bs_info (hc_states hc)"
    and "map bs_status (hc_states hc') = map (\<lambda>ok. if ok then kUp else kDown) (answers S (map bs_info (hc_states hc)) w)"
    and "map (\<lambda>s. success_count s + fail_count s) (hc_states hc') = map (\<lambda>s. success_count s + fail_count s + 1) (hc_states hc)"
    and "sys_fds w' = sys_fds w" and "hc_running hc' = hc_running hc"
  using assms check_all_sel [of S "hc_states hc" w] by (auto simp: health_round_def split: prod.splits)

text \<open>
  C27. A round of health checks asks every backend once, in order, and records what the probes
  answered: a backend is up exactly if its probe connected, and nobody stays unknown. The
  list of backends is the configured one, each backend's successes and failures add up to the
  number of rounds (modulo two to the 32), and the probes leave no descriptor open.
\<close>

theorem health_rounds:
  "\<exists>hc w1. RunLoop S n (Start (HealthChecker_new cfg), w) = (hc, w1) \<and> map bs_info (States hc) = backends cfg
     \<and> sys_fds w1 = sys_fds w \<and> map (\<lambda>s. success_count s + fail_count s) (States hc) = map (\<lambda>b. of_nat n) (backends cfg)
     \<and> RunLoop S (Suc n) (Start (HealthChecker_new cfg), w) = health_round S (hc, w1)
     \<and> map bs_status (States (fst (health_round S (hc, w1)))) = map (\<lambda>ok. if ok then kUp else kDown) (answers S (backends cfg) w1)"
proof -
  have run: "\<exists>hc w1. RunLoop S n (h0, w) = (hc, w1) \<and> map bs_info (States hc) = map bs_info (States h0)
      \<and> sys_fds w1 = sys_fds w \<and> map (\<lambda>s. success_count s + fail_count s) (States hc) = map (\<lambda>s. success_count s + fail_count s + of_nat n) (States h0)
      \<and> RunLoop S (Suc n) (h0, w) = health_round S (hc, w1) \<and> hc_running hc" if "hc_running h0" for h0
    using that
  proof (induction n arbitrary: h0 w)
    case 0
    then show ?case by simp
  next
    case (Suc n)
    obtain h1 w1 where r: "health_round S (h0, w) = (h1, w1)" by fastforce
    note sel = health_round_sel [OF r]
    have "hc_running h1" using sel(5) Suc.prems by simp
    from Suc.IH [OF this, of w1] obtain hc w2 where h: "RunLoop S n (h1, w1) = (hc, w2)" "map bs_info (States hc) = map bs_info (States h1)"
      "sys_fds w2 = sys_fds w1" "map (\<lambda>s. success_count s + fail_count s) (States hc) = map (\<lambda>s. success_count s + fail_count s + of_nat n) (States h1)"
      "RunLoop S (Suc n) (h1, w1) = health_round S (hc, w2)" "hc_running hc" by blast
    have "map (\<lambda>s. success_count s + fail_count s + of_nat n) (States h1) = map (\<lambda>x. x + of_nat n) (map (\<lambda>s. success_count s + fail_count s) (States h1))"
      by simp
    also have "\<dots> = map (\<lambda>s. success_count s + fail_count s + of_nat (Suc n)) (States h0)"
      using sel(3) by (simp add: States_def algebra_simps)
    finally show ?case using Suc.prems r h sel(1,4) by (auto simp: States_def)
  qed
  obtain hc w1 where h: "RunLoop S n (Start (HealthChecker_new cfg), w) = (hc, w1)"
    "map bs_info (States hc) = map bs_info (States (Start (HealthChecker_new cfg)))" "sys_fds w1 = sys_fds w"
    "map (\<lambda>s. success_count s + fail_count s) (States hc) = map (\<lambda>s. success_count s + fail_count s + of_nat n) (States (Start (HealthChecker_new cfg)))"
    "RunLoop S (Suc n) (Start (HealthChecker_new cfg), w) = health_round S (hc, w1)"
    using run [of "Start (HealthChecker_new cfg)"] by (auto simp: Start_def)
  have i: "map bs_info (States hc) = backends cfg" using h(2) by (simp add: States_def Start_def HealthChecker_new_def comp_def)
  have "map (\<lambda>s. success_count s + fail_count s) (States hc) = map (\<lambda>b. of_nat n) (backends cfg)"
    using h(4) by (simp add: States_def Start_def HealthChecker_new_def comp_def)
  moreover have "map bs_status (States (fst (health_round S (hc, w1)))) = map (\<lambda>ok. if ok then kUp else kDown) (answers S (backends cfg) w1)"
    using health_round_sel(2) [of S hc w1 "fst (health_round S (hc, w1))" "snd (health_round S (hc, w1))"] i by (simp add: States_def)
  ultimately show ?thesis using h i by blast
qed

end
