(* ===== verification/Monitor.thy ===== *)
theory Monitor
  imports Health_Checker Control_View Shm_Provider
begin

text \<open>
  The control plane: \<open>controlplane/src/stats/stats_aggregator.cpp\<close>,
  \<open>src/monitor/monitor_component.cpp\<close> and the two HTTP handlers of \<open>src/api\<close>. The two
  shared-memory views are arguments and results of the operations that read and write them. The
  HTTP server and client, the periodic task and the JSON printer are userver's; a response is
  modelled up to the JSON value that is printed, a metrics export up to the request.
\<close>

section \<open>Statistics\<close>

record AggregatedStats =
  rx_pps :: u64
  tx_pps :: u64
  dropped_pps :: u64
  new_flows_ps :: u64
  ag_active_flows :: u64
  ag_backend_flows :: "u64 list"

definition AggregatedStats_zero :: AggregatedStats where
  "AggregatedStats_zero = \<lparr>rx_pps = 0, tx_pps = 0, dropped_pps = 0, new_flows_ps = 0, ag_active_flows = 0,
     ag_backend_flows = replicate kMaxBackends 0\<rparr>"

record Snapshot =
  sn_rx :: u64
  sn_tx :: u64
  sn_dropped :: u64
  sn_new_flows :: u64

definition Snapshot_zero :: Snapshot where
  "Snapshot_zero = \<lparr>sn_rx = 0, sn_tx = 0, sn_dropped = 0, sn_new_flows = 0\<rparr>"

record StatsAggregator =
  sa_n_lcores :: nat
  sa_prev :: Snapshot

definition StatsAggregator_new :: "nat \<Rightarrow> StatsAggregator" where
  "StatsAggregator_new n = \<lparr>sa_n_lcores = n, sa_prev = Snapshot_zero\<rparr>"

definition add_lcore :: "LcoreStats \<Rightarrow> Snapshot \<times> AggregatedStats \<Rightarrow> Snapshot \<times> AggregatedStats" where
  "add_lcore stats acc =
     (case acc of (current, out) \<Rightarrow>
       (\<lparr>sn_rx = sn_rx current + rx_packets stats, sn_tx = sn_tx current + tx_packets stats,
         sn_dropped = sn_dropped current + dropped stats, sn_new_flows = sn_new_flows current + new_flows stats\<rparr>,
        out\<lparr>ag_active_flows := ag_active_flows out + active_flows stats,
          ag_backend_flows := map (\<lambda>b. ag_backend_flows out ! b + backend_flows stats ! b) [0..<kMaxBackends]\<rparr>))"

definition Tick :: "StatsView \<Rightarrow> StatsAggregator \<Rightarrow> AggregatedStats \<times> StatsAggregator" where
  "Tick view agg =
     (let (current, out) = fold (\<lambda>lcore. add_lcore (sv_lcores view ! lcore)) [0..<sa_n_lcores agg] (Snapshot_zero, AggregatedStats_zero);
          prev = sa_prev agg
      in (out\<lparr>rx_pps := sn_rx current - sn_rx prev, tx_pps := sn_tx current - sn_tx prev,
            dropped_pps := sn_dropped current - sn_dropped prev, new_flows_ps := sn_new_flows current - sn_new_flows prev\<rparr>,
          agg\<lparr>sa_prev := current\<rparr>))"

section \<open>The monitor\<close>

record Monitor =
  mo_cfg :: Config
  mo_tsdb_url :: string
  mo_shm :: bool
  mo_control :: bool
  mo_published :: "u8 list"
  mo_agg :: StatsAggregator
  mo_latest :: AggregatedStats
  mo_health :: HealthChecker

text \<open>The constructor: the configuration as loaded, the export URL, and what the two attachments gave.\<close>

definition Monitor_new :: "Config result \<Rightarrow> string \<Rightarrow> (ShmProvider \<times> ShmHeader) result \<Rightarrow> (ShmProvider \<times> ShmHeader) result \<Rightarrow> Monitor result" where
  "Monitor_new loaded url stats_att control_att =
     bind_r loaded (\<lambda>cfg. Inr \<lparr>mo_cfg = cfg, mo_tsdb_url = url,
       mo_shm = (case stats_att of Inl _ \<Rightarrow> False | Inr _ \<Rightarrow> True),
       mo_control = (case control_att of Inl _ \<Rightarrow> False | Inr _ \<Rightarrow> True),
       mo_published = [], mo_agg = StatsAggregator_new kMaxLcores, mo_latest = AggregatedStats_zero,
       mo_health = Start (HealthChecker_new cfg)\<rparr>)"

definition enabled_flags :: "BackendState list \<Rightarrow> u8 list" where
  "enabled_flags states = map (\<lambda>s. if bs_status s = kUp then 1 else 0) states"

definition control_entry :: "BackendState \<Rightarrow> u8 \<Rightarrow> ControlBackend" where
  "control_entry s e = \<lparr>cb_ip = ip_value (bi_ip (bs_info s)), cb_port = bi_port (bs_info s), cb_mac = mac_bytes (bi_mac (bs_info s)),
     cb_enabled = e\<rparr>"

definition Monitor_PublishControl :: "Monitor \<Rightarrow> ControlView \<Rightarrow> Monitor \<times> ControlView" where
  "Monitor_PublishControl mo view =
     (if \<not> mo_control mo then (mo, view)
      else let states = States (mo_health mo); enabled = enabled_flags states in
        if enabled = mo_published mo then (mo, view)
        else let entries = map2 control_entry states enabled
             in (mo\<lparr>mo_published := enabled\<rparr>, PublishControl view entries (of_nat (length entries))))"

definition backend_line :: "AggregatedStats \<Rightarrow> BackendState list \<Rightarrow> nat \<Rightarrow> string" where
  "backend_line stats states i =
     (let flows = (if i < length (ag_backend_flows stats) then ag_backend_flows stats ! i else 0);
          up = (if bs_status (states ! i) = kUp then 1 else 0)
      in ''cerebellum_backend,addr='' @ IPv4Addr_ToString (bi_ip (bs_info (states ! i))) @ '':''
         @ dec (unat (bi_port (bs_info (states ! i)))) @ '' flows='' @ dec (unat flows) @ ''i,up='' @ dec up @ ''i'' @ [CHR 10])"

definition WriteMetrics :: "Monitor \<Rightarrow> AggregatedStats \<Rightarrow> (string \<times> string) option" where
  "WriteMetrics mo stats =
     (if mo_tsdb_url mo = [] then None
      else let states = States (mo_health mo);
               body = ''cerebellum_stats rx_pps='' @ dec (unat (rx_pps stats)) @ '',tx_pps='' @ dec (unat (tx_pps stats))
                 @ '',dropped_pps='' @ dec (unat (dropped_pps stats)) @ '',new_flows_ps='' @ dec (unat (new_flows_ps stats))
                 @ '',active_flows='' @ dec (unat (ag_active_flows stats)) @ [CHR 10]
                 @ concat (map (backend_line stats states) [0..<length states])
           in Some (mo_tsdb_url mo @ ''/write'', body))"

text \<open>The body of the periodic task, once a second. A failed export is ignored.\<close>

definition poll :: "StatsView \<Rightarrow> Monitor \<Rightarrow> ControlView \<Rightarrow> Monitor \<times> ControlView \<times> (string \<times> string) option" where
  "poll stats_view mo view =
     (let (agg, sa) = Tick stats_view (mo_agg mo);
          mo1 = mo\<lparr>mo_agg := sa, mo_latest := agg\<rparr>;
          (mo2, view') = Monitor_PublishControl mo1 view
      in (mo2, view', WriteMetrics mo2 agg))"

definition DataplaneConnected :: "Monitor \<Rightarrow> bool" where
  "DataplaneConnected mo = mo_shm mo"

definition Monitor_dtor :: "Monitor \<Rightarrow> Monitor" where
  "Monitor_dtor mo = mo\<lparr>mo_health := Stop (mo_health mo)\<rparr>"

section \<open>The handlers\<close>

datatype json = JString string | JInt nat | JArray "json list" | JObject "(string \<times> json) list"

definition kNsPerMs :: u64 where "kNsPerMs = 1000000"

fun StatusName :: "HealthStatus \<Rightarrow> string" where
  "StatusName kUp = ''up''"
| "StatusName kDown = ''down''"
| "StatusName kDraining = ''draining''"
| "StatusName kUnknown = ''unknown''"

definition backend_json :: "AggregatedStats \<Rightarrow> u64 \<Rightarrow> BackendState list \<Rightarrow> nat \<Rightarrow> json" where
  "backend_json stats now_ms states i =
     (let state = states ! i;
          last_ms = last_check_ns state div kNsPerMs;
          age_ms = (if now_ms > last_ms then now_ms - last_ms else 0);
          flows = (if i < length (ag_backend_flows stats) then ag_backend_flows stats ! i else 0)
      in JObject [(''ip'', JString (IPv4Addr_ToString (bi_ip (bs_info state)))), (''port'', JInt (unat (bi_port (bs_info state)))),
           (''status'', JString (StatusName (bs_status state))), (''fail_count'', JInt (unat (fail_count state))),
           (''last_check_ms'', JInt (unat age_ms)), (''flows'', JInt (unat flows))])"

definition BackendsHandler :: "Monitor \<Rightarrow> u64 \<Rightarrow> json" where
  "BackendsHandler mo now_ms =
     (let cfg = mo_cfg mo; stats = mo_latest mo; states = States (mo_health mo)
      in JObject [(''vip'', JString (IPv4Addr_ToString (vip cfg))), (''vip_port'', JInt (unat (vip_port cfg))),
           (''backends'', JArray (map (backend_json stats now_ms states) [0..<length states]))])"

definition StatsHandler :: "Monitor \<Rightarrow> json" where
  "StatsHandler mo =
     (let stats = mo_latest mo
      in JObject [(''dataplane'', JString (if DataplaneConnected mo then ''connected'' else ''detached'')),
           (''rx_pps'', JInt (unat (rx_pps stats))), (''tx_pps'', JInt (unat (tx_pps stats))),
           (''dropped_pps'', JInt (unat (dropped_pps stats))), (''new_flows_ps'', JInt (unat (new_flows_ps stats))),
           (''active_flows'', JInt (unat (ag_active_flows stats)))])"

section \<open>Rates\<close>

lemma fold_add_lcore:
  "fold add_lcore ls (c, out) =
     (\<lparr>sn_rx = sn_rx c + (\<Sum>l \<leftarrow> ls. rx_packets l), sn_tx = sn_tx c + (\<Sum>l \<leftarrow> ls. tx_packets l),
       sn_dropped = sn_dropped c + (\<Sum>l \<leftarrow> ls. dropped l), sn_new_flows = sn_new_flows c + (\<Sum>l \<leftarrow> ls. new_flows l)\<rparr>,
      out\<lparr>ag_active_flows := ag_active_flows out + (\<Sum>l \<leftarrow> ls. active_flows l),
        ag_backend_flows := (if ls = [] then ag_backend_flows out
          else map (\<lambda>b. ag_backend_flows out ! b + (\<Sum>l \<leftarrow> ls. backend_flows l ! b)) [0..<kMaxBackends])\<rparr>)"
proof (induction ls arbitrary: c out)
  case Nil
  then show ?case by simp
next
  case (Cons l ls)
  then show ?case by (auto simp: add_lcore_def algebra_simps)
qed

definition totals :: "StatsView \<Rightarrow> nat \<Rightarrow> (LcoreStats \<Rightarrow> u64) \<Rightarrow> u64" where
  "totals view n field = (\<Sum>l \<leftarrow> map (\<lambda>i. sv_lcores view ! i) [0..<n]. field l)"

lemma Tick_eq:
  assumes "0 < sa_n_lcores agg"
  defines "n \<equiv> sa_n_lcores agg"
  shows "Tick view agg =
    (\<lparr>rx_pps = totals view n rx_packets - sn_rx (sa_prev agg), tx_pps = totals view n tx_packets - sn_tx (sa_prev agg),
      dropped_pps = totals view n dropped - sn_dropped (sa_prev agg), new_flows_ps = totals view n new_flows - sn_new_flows (sa_prev agg),
      ag_active_flows = totals view n active_flows,
      ag_backend_flows = map (\<lambda>b. totals view n (\<lambda>l. backend_flows l ! b)) [0..<kMaxBackends]\<rparr>,
     agg\<lparr>sa_prev := \<lparr>sn_rx = totals view n rx_packets, sn_tx = totals view n tx_packets, sn_dropped = totals view n dropped,
       sn_new_flows = totals view n new_flows\<rparr>\<rparr>)"
proof -
  have "fold (\<lambda>lcore. add_lcore (sv_lcores view ! lcore)) [0..<n] acc = fold add_lcore (map (\<lambda>i. sv_lcores view ! i) [0..<n]) acc" for acc
    by (simp add: fold_map comp_def)
  with assms show ?thesis
    by (simp add: Tick_def fold_add_lcore totals_def Snapshot_zero_def AggregatedStats_zero_def comp_def Let_def)
qed

lemma totals_moved:
  assumes "\<And>i. i < n \<Longrightarrow> field (sv_lcores view' ! i) = field (sv_lcores view ! i) + of_nat (k i)"
  shows "totals view' n field - totals view n field = of_nat (\<Sum>i < n. k i)"
  using assms
proof (induction n)
  case 0
  then show ?case by (simp add: totals_def)
next
  case (Suc n)
  then have "totals view' n field - totals view n field = of_nat (\<Sum>i < n. k i)" by simp
  with Suc.prems [of n] show ?case by (simp add: totals_def algebra_simps)
qed

text \<open>
  C28. The rates are exact, across wrap-around. If between two ticks the counters of each core, for packets received, packets sent, packets dropped
  and flows made, advanced by some numbers, then each of the four rates reported is the sum of its numbers over
  the cores, as long as that fits 64 bits; it does not matter that the counters themselves, or
  their sum, wrap around. The number of active flows, and the flows of each of the 64 backend slots, are the sums of what the cores
  hold at the second tick, modulo \<open>2 ^ 64\<close>.
\<close>

theorem tick_rates_exact:
  assumes n: "0 < sa_n_lcores agg"
    and rx: "\<And>i. i < sa_n_lcores agg \<Longrightarrow> rx_packets (sv_lcores view' ! i) = rx_packets (sv_lcores view ! i) + of_nat (rx i)"
    and tx: "\<And>i. i < sa_n_lcores agg \<Longrightarrow> tx_packets (sv_lcores view' ! i) = tx_packets (sv_lcores view ! i) + of_nat (tx i)"
    and dr: "\<And>i. i < sa_n_lcores agg \<Longrightarrow> dropped (sv_lcores view' ! i) = dropped (sv_lcores view ! i) + of_nat (dr i)"
    and nf: "\<And>i. i < sa_n_lcores agg \<Longrightarrow> new_flows (sv_lcores view' ! i) = new_flows (sv_lcores view ! i) + of_nat (nf i)"
    and small: "(\<Sum>i < sa_n_lcores agg. rx i) < 2 ^ 64" "(\<Sum>i < sa_n_lcores agg. tx i) < 2 ^ 64"
      "(\<Sum>i < sa_n_lcores agg. dr i) < 2 ^ 64" "(\<Sum>i < sa_n_lcores agg. nf i) < 2 ^ 64"
  shows "let out = fst (Tick view' (snd (Tick view agg))) in
    unat (rx_pps out) = (\<Sum>i < sa_n_lcores agg. rx i) \<and> unat (tx_pps out) = (\<Sum>i < sa_n_lcores agg. tx i)
    \<and> unat (dropped_pps out) = (\<Sum>i < sa_n_lcores agg. dr i) \<and> unat (new_flows_ps out) = (\<Sum>i < sa_n_lcores agg. nf i)
    \<and> ag_active_flows out = (\<Sum>i \<leftarrow> [0..<sa_n_lcores agg]. active_flows (sv_lcores view' ! i))
    \<and> ag_backend_flows out = map (\<lambda>b. \<Sum>i \<leftarrow> [0..<sa_n_lcores agg]. backend_flows (sv_lcores view' ! i) ! b) [0..<64]"
proof -
  let ?n = "sa_n_lcores agg" and ?agg = "snd (Tick view agg)"
  have t: "?agg = agg\<lparr>sa_prev := \<lparr>sn_rx = totals view ?n rx_packets, sn_tx = totals view ?n tx_packets,
      sn_dropped = totals view ?n dropped, sn_new_flows = totals view ?n new_flows\<rparr>\<rparr>"
    using Tick_eq [OF n] by simp
  have n': "0 < sa_n_lcores ?agg" using n by (simp add: t)
  have eq: "fst (Tick view' ?agg) = \<lparr>rx_pps = of_nat (\<Sum>i < ?n. rx i), tx_pps = of_nat (\<Sum>i < ?n. tx i),
      dropped_pps = of_nat (\<Sum>i < ?n. dr i), new_flows_ps = of_nat (\<Sum>i < ?n. nf i), ag_active_flows = totals view' ?n active_flows,
      ag_backend_flows = map (\<lambda>b. totals view' ?n (\<lambda>l. backend_flows l ! b)) [0..<kMaxBackends]\<rparr>"
    using Tick_eq [OF n', of view'] totals_moved [of ?n rx_packets view' view rx, OF rx] totals_moved [of ?n tx_packets view' view tx, OF tx]
      totals_moved [of ?n dropped view' view dr, OF dr] totals_moved [of ?n new_flows view' view nf, OF nf] by (simp add: t)
  have u: "unat (of_nat k :: u64) = k" if "k < 2 ^ 64" for k using that by (simp add: unat_of_nat take_bit_nat_eq_self)
  show ?thesis
    unfolding eq using small by (simp add: u totals_def comp_def kMaxBackends_def del: of_nat_sum)
qed

definition ex_stats :: "u64 \<Rightarrow> StatsView" where
  "ex_stats k = \<lparr>sv_header = InitShmHeader \<lparr>hdr_magic = 0, hdr_version = 0\<rparr>,
     sv_lcores = replicate kMaxLcores (LcoreStats_zero\<lparr>rx_packets := k, dropped := k + 1\<rparr>)\<rparr>"

text \<open>Counters just below the wrap-around, and ten packets more on every core.\<close>

theorem tick_rates_exact_witness:
  "let out = fst (Tick (ex_stats 6) (snd (Tick (ex_stats (-4)) (StatsAggregator_new kMaxLcores)))) in
    unat (rx_pps out) = 320 \<and> unat (tx_pps out) = 0 \<and> unat (dropped_pps out) = 320 \<and> unat (new_flows_ps out) = 0"
  using tick_rates_exact [of "StatsAggregator_new kMaxLcores" "ex_stats 6" "ex_stats (-4)" "\<lambda>_. 10" "\<lambda>_. 0" "\<lambda>_. 10" "\<lambda>_. 0"]
  by (simp add: StatsAggregator_new_def ex_stats_def kMaxLcores_def Let_def)

section \<open>What the API reports\<close>

lemma flows_length: "length (ag_backend_flows (fst (Tick view agg))) = kMaxBackends"
proof -
  have "length (ag_backend_flows (snd (fold (\<lambda>i. add_lcore (f i)) is' acc))) = kMaxBackends"
    if "length (ag_backend_flows (snd acc)) = kMaxBackends" for f is' acc
    using that by (induction is' arbitrary: acc) (auto simp: add_lcore_def split: prod.splits)
  from this [of "(Snapshot_zero, AggregatedStats_zero)"] show ?thesis
    by (simp add: Tick_def Let_def case_prod_beta AggregatedStats_zero_def)
qed

lemma backend_json_eq:
  assumes "length (ag_backend_flows stats) = kMaxBackends"
  shows "backend_json stats now_ms states i =
    JObject [(''ip'', JString (IPv4Addr_ToString (bi_ip (bs_info (states ! i))))), (''port'', JInt (unat (bi_port (bs_info (states ! i))))),
      (''status'', JString (StatusName (bs_status (states ! i)))), (''fail_count'', JInt (unat (fail_count (states ! i)))),
      (''last_check_ms'', JInt (unat now_ms - unat (last_check_ns (states ! i)) div 1000000)),
      (''flows'', JInt (if i < 64 then unat (ag_backend_flows stats ! i) else 0))]"
proof -
  have d: "unat (last_check_ns (states ! i) div kNsPerMs) = unat (last_check_ns (states ! i)) div 1000000"
    by (simp add: kNsPerMs_def unat_div_distrib)
  have "unat (if now_ms > last_check_ns (states ! i) div kNsPerMs then now_ms - last_check_ns (states ! i) div kNsPerMs else 0)
      = unat now_ms - unat (last_check_ns (states ! i)) div 1000000"
    by (auto simp: unat_sub_if' word_less_nat_alt d)
  then show ?thesis using assms by (simp add: backend_json_def Let_def kMaxBackends_def)
qed

text \<open>
  What the backends endpoint reports after a poll: every backend in order, with the time since
  its last check as the difference in milliseconds, and as 0 when the clock is behind that check, so
  that it never wraps around; and with the flows of its slot, summed over the cores at that poll.
  Backends beyond the 64 the statistics have room for are reported with no flows.
\<close>

theorem backend_report:
  "case poll sv mo view of (mo', view', req) \<Rightarrow>
     BackendsHandler mo' now_ms = JObject [(''vip'', JString (IPv4Addr_ToString (vip (mo_cfg mo)))), (''vip_port'', JInt (unat (vip_port (mo_cfg mo)))),
       (''backends'', JArray (map (\<lambda>i. let s = States (mo_health mo) ! i in
          JObject [(''ip'', JString (IPv4Addr_ToString (bi_ip (bs_info s)))), (''port'', JInt (unat (bi_port (bs_info s)))),
            (''status'', JString (StatusName (bs_status s))), (''fail_count'', JInt (unat (fail_count s))),
            (''last_check_ms'', JInt (unat now_ms - unat (last_check_ns s) div 1000000)),
            (''flows'', JInt (if i < 64 then unat (ag_backend_flows (fst (Tick sv (mo_agg mo))) ! i) else 0))])
          [0..<length (States (mo_health mo))]))]"
proof -
  have "mo_health (fst (Monitor_PublishControl m v)) = mo_health m" "mo_latest (fst (Monitor_PublishControl m v)) = mo_latest m"
    "mo_cfg (fst (Monitor_PublishControl m v)) = mo_cfg m" for m v
    by (simp_all add: Monitor_PublishControl_def Let_def)
  then show ?thesis
    by (simp add: poll_def Let_def case_prod_beta BackendsHandler_def backend_json_eq flows_length)
qed

end
