(* ===== verification/System.thy ===== *)
theory System
  imports Dataplane_Main Monitor
begin

text \<open>
  The control plane and the dataplane together: what the health checker finds out reaches the
  load balancer through the monitor, the shared view and the control loop.
\<close>

section \<open>The control plane at work\<close>

text \<open>The monitor attached to a view no one else writes: rounds of the health checker and polls
  of the periodic task, in any order.\<close>

inductive cp_reach :: "'s sockets \<Rightarrow> Config \<Rightarrow> Monitor \<Rightarrow> 's sys \<Rightarrow> ControlView \<Rightarrow> bool" for S cfg where
  start: "Monitor_new (Inr cfg) url stats_att (Inr control_att) = Inr mo \<Longrightarrow> quiet view \<Longrightarrow> cp_reach S cfg mo w view"
| health: "cp_reach S cfg mo w view \<Longrightarrow> hc_running (mo_health mo) \<Longrightarrow> health_round S (mo_health mo, w) = (h, w')
    \<Longrightarrow> cp_reach S cfg (mo\<lparr>mo_health := h\<rparr>) w' view"
| polled: "cp_reach S cfg mo w view \<Longrightarrow> poll sv mo view = (mo', view', req) \<Longrightarrow> cp_reach S cfg mo' w view'"

text \<open>The entries for the given backends and flags, and those that say what the checker knows.\<close>

definition entries_of :: "BackendInfo list \<Rightarrow> u8 list \<Rightarrow> ControlBackend list" where
  "entries_of bs es = map2 (\<lambda>b e. \<lparr>cb_ip = ip_value (bi_ip b), cb_port = bi_port b, cb_mac = mac_bytes (bi_mac b), cb_enabled = e\<rparr>) bs es"

definition cp_inv :: "Config \<Rightarrow> Monitor \<Rightarrow> ControlView \<Rightarrow> bool" where
  "cp_inv cfg mo view \<longleftrightarrow> mo_control mo \<and> quiet view \<and> map bs_info (States (mo_health mo)) = backends cfg
     \<and> (mo_published mo \<noteq> [] \<longrightarrow> contents view = take kMaxBackends (entries_of (backends cfg) (mo_published mo)))"

lemma control_entries: "map2 control_entry sts es = entries_of (map bs_info sts) es"
  by (simp add: entries_of_def control_entry_def zip_map1 case_prod_beta)

lemma length_entries_of: "length (entries_of bs es) = min (length bs) (length es)"
  by (simp add: entries_of_def)

lemma Monitor_PublishControl_step:
  assumes inv: "cp_inv cfg mo view" and len: "length (backends cfg) < 2 ^ 32" and pub: "Monitor_PublishControl mo view = (mo', view')"
  defines "es \<equiv> enabled_flags (States (mo_health mo))"
  shows "cp_inv cfg mo' view'" and "mo_published mo' = es" and "mo_health mo' = mo_health mo"
    and "view' = (if es = mo_published mo then view else publish (entries_of (backends cfg) es) view)"
proof -
  have i: "mo_control mo" "quiet view" "map bs_info (States (mo_health mo)) = backends cfg" using inv by (simp_all add: cp_inv_def)
  have le: "length es = length (backends cfg)" using i(3) by (metis es_def enabled_flags_def length_map)
  have all: "mo_published mo' = es \<and> mo_health mo' = mo_health mo \<and> mo_control mo'
      \<and> view' = (if es = mo_published mo then view else publish (entries_of (backends cfg) es) view)"
    using pub i(1,3) by (auto simp: Monitor_PublishControl_def Let_def es_def publish_def control_entries split: if_splits)
  then show p: "mo_published mo' = es" "mo_health mo' = mo_health mo"
    and v: "view' = (if es = mo_published mo then view else publish (entries_of (backends cfg) es) view)" by auto
  have "length (entries_of (backends cfg) es) < 2 ^ 32" using len le by (simp add: length_entries_of)
  note q = publish_quiet [OF i(2) this]
  show "cp_inv cfg mo' view'" using inv i all q by (auto simp: cp_inv_def)
qed

lemma poll_publish:
  assumes "poll sv mo view = (mo', view', req)"
  obtains mo1 where "Monitor_PublishControl mo1 view = (mo', view')" "mo_health mo1 = mo_health mo"
    "mo_published mo1 = mo_published mo" "\<And>cfg. cp_inv cfg mo1 view = cp_inv cfg mo view"
proof
  let ?mo1 = "mo\<lparr>mo_agg := snd (Tick sv (mo_agg mo)), mo_latest := fst (Tick sv (mo_agg mo))\<rparr>"
  show "Monitor_PublishControl ?mo1 view = (mo', view')" using assms by (auto simp: poll_def Let_def case_prod_beta split: prod.splits)
qed (simp_all add: cp_inv_def)

lemma cp_reach_inv:
  assumes "cp_reach S cfg mo w view" and "length (backends cfg) < 2 ^ 32"
  shows "cp_inv cfg mo view"
  using assms
proof (induction rule: cp_reach.induct)
  case (start url stats_att control_att mo view w)
  then show ?case
    by (auto simp: cp_inv_def Monitor_new_def Start_def States_def HealthChecker_new_def comp_def)
next
  case (health mo w view h w')
  then show ?case using health_round_sel(1) [OF health.hyps(3)] by (auto simp: cp_inv_def States_def)
next
  case (polled mo w view sv mo' view' req)
  obtain mo1 where m: "Monitor_PublishControl mo1 view = (mo', view')" "cp_inv cfg mo1 view = cp_inv cfg mo view"
    using poll_publish [OF polled.hyps(2)] by metis
  then show ?case using Monitor_PublishControl_step(1) [OF _ polled.prems m(1)] polled.IH polled.prems by simp
qed

text \<open>What a poll leaves in the view, and how many publications that took.\<close>

lemma poll_result:
  assumes r: "cp_reach S cfg mo w view" and len: "length (backends cfg) < 2 ^ 32" and p: "poll sv mo view = (mo', view', req)"
    and ne: "backends cfg \<noteq> []"
  defines "es \<equiv> enabled_flags (States (mo_health mo))"
  shows "contents view' = take kMaxBackends (entries_of (backends cfg) es)"
    and "\<exists>ps. view' = fold publish ps view \<and> length ps \<le> 1 \<and> (\<forall>e \<in> set ps. length e < 2 ^ 32)"
proof -
  have inv: "cp_inv cfg mo view" by (rule cp_reach_inv [OF r len])
  obtain mo1 where m: "Monitor_PublishControl mo1 view = (mo', view')" "mo_health mo1 = mo_health mo" "mo_published mo1 = mo_published mo"
    "cp_inv cfg mo1 view" using poll_publish [OF p] inv by metis
  note st = Monitor_PublishControl_step [OF m(4) len m(1)]
  have le: "length es = length (backends cfg)"
    using inv by (metis cp_inv_def es_def enabled_flags_def length_map)
  then have es: "es \<noteq> []" using ne by auto
  have pe: "mo_published mo' = es" using st(2) m(2) by (simp add: es_def)
  show "contents view' = take kMaxBackends (entries_of (backends cfg) es)"
    using st(1) es unfolding cp_inv_def pe by blast
  have v: "view' = (if es = mo_published mo then view else publish (entries_of (backends cfg) es) view)"
    using st(4) m(2,3) by (simp add: es_def)
  have "length (entries_of (backends cfg) es) < 2 ^ 32" using len le by (simp add: length_entries_of)
  then show "\<exists>ps. view' = fold publish ps view \<and> length ps \<le> 1 \<and> (\<forall>e \<in> set ps. length e < 2 ^ 32)"
    using v by (cases "es = mo_published mo") (auto intro: exI [of _ "[]"] exI [of _ "[entries_of (backends cfg) es]"])
qed

lemma active_of_entries:
  assumes "length es = length bs" and "length bs \<le> kMaxBackends"
  shows "bp_active (pool_of (entries_of bs es)) = map of_nat (filter (\<lambda>i. es ! i \<noteq> 0) [0..<length bs])"
proof -
  have "filter (\<lambda>i. cb_enabled (entries_of bs es ! i) \<noteq> 0) [0..<length bs] = filter (\<lambda>i. es ! i \<noteq> 0) [0..<length bs]"
    using assms(1) by (intro filter_cong) (auto simp: entries_of_def)
  then show ?thesis using assms(1) by (simp add: pool_of_def length_entries_of)
qed

section \<open>From a probe to the pool\<close>

lemma health_pool:
  assumes r: "cp_reach S cfg mo w view" and p: "poll sv mo view = (mo', view', req)"
    and cfg: "backends cfg \<noteq> []" "length (backends cfg) \<le> kMaxBackends" and snap: "length snapshot = kMaxBackends"
  shows "\<exists>pool. RunControlLoop [view'] snapshot \<lparr>rcu_ptr = Some (pool_of (contents view))\<rparr> (cv_seq view) =
      Some (Inr (\<lparr>rcu_ptr = Some pool\<rparr>, cv_seq view'))
    \<and> map bi_ip (bp_slots pool) = map bi_ip (backends cfg) \<and> map bi_port (bp_slots pool) = map bi_port (backends cfg)
    \<and> bp_active pool = map of_nat (filter (\<lambda>i. bs_status (States (mo_health mo) ! i) = kUp) [0..<length (backends cfg)])
    \<and> built_pool pool"
proof -
  let ?es = "enabled_flags (States (mo_health mo))"
  have len: "length (backends cfg) < 2 ^ 32" using cfg(2) by (simp add: kMaxBackends_def)
  have inv: "cp_inv cfg mo view" by (rule cp_reach_inv [OF r len])
  then have i: "map bs_info (States (mo_health mo)) = backends cfg" "quiet view" by (simp_all add: cp_inv_def)
  have le: "length (States (mo_health mo)) = length (backends cfg)" using i(1) by (metis length_map)
  note pr = poll_result [OF r len p cfg(1)]
  have c: "contents view' = entries_of (backends cfg) ?es" using pr(1) cfg(2) le by (simp add: length_entries_of)
  obtain ps where ps: "view' = fold publish ps view" "length ps \<le> 1" "\<forall>e \<in> set ps. length e < 2 ^ 32" using pr(2) by blast
  have run: "RunControlLoop [view'] snapshot \<lparr>rcu_ptr = Some (pool_of (contents view))\<rparr> (cv_seq view) =
      Some (Inr (\<lparr>rcu_ptr = Some (pool_of (contents view'))\<rparr>, cv_seq view')) \<and> built_pool (pool_of (contents view'))"
    using control_loop_run [OF i(2) snap, of "[ps]"] ps by simp
  have "filter (\<lambda>i. ?es ! i \<noteq> 0) [0..<length (backends cfg)] =
      filter (\<lambda>i. bs_status (States (mo_health mo) ! i) = kUp) [0..<length (backends cfg)]"
    using le by (intro filter_cong) (simp_all add: enabled_flags_def)
  with active_of_entries [of ?es "backends cfg"] cfg(2) le
  have "bp_active (pool_of (contents view')) = map of_nat (filter (\<lambda>i. bs_status (States (mo_health mo) ! i) = kUp) [0..<length (backends cfg)])"
    by (simp add: c enabled_flags_def)
  moreover have "map bi_ip (bp_slots (pool_of (contents view'))) = map bi_ip (backends cfg)"
    "map bi_port (bp_slots (pool_of (contents view'))) = map bi_port (backends cfg)"
    unfolding c using le by (auto simp: pool_of_def entries_of_def slot_of_def enabled_flags_def intro!: nth_equalityI)
  ultimately show ?thesis using run by blast
qed

text \<open>
  What the health checker finds out is what the load balancer uses. Take any history of the
  control plane, and a dataplane that is up to date with the view. After the next poll of the
  monitor and the next round of the control loop, the pool in place has a slot for every
  configured backend, at most 64, and the active ones are exactly those whose last probe
  connected; and it is a pool the load balancer can work with.
\<close>

theorem health_reaches_pool:
  assumes r: "cp_reach S cfg mo w view" and p: "poll sv mo view = (mo', view', req)"
    and cfg: "backends cfg \<noteq> []" "length (backends cfg) \<le> kMaxBackends" and snap: "length snapshot = kMaxBackends"
  shows "\<exists>pool. RunControlLoop [view'] snapshot \<lparr>rcu_ptr = Some (pool_of (contents view))\<rparr> (cv_seq view) =
      Some (Inr (\<lparr>rcu_ptr = Some pool\<rparr>, cv_seq view'))
    \<and> map bi_ip (bp_slots pool) = map bi_ip (backends cfg) \<and> map bi_port (bp_slots pool) = map bi_port (backends cfg)
    \<and> bp_active pool = map of_nat (filter (\<lambda>i. bs_status (States (mo_health mo) ! i) = kUp) [0..<length (backends cfg)])
    \<and> built_pool pool"
  by (rule health_pool [OF r p cfg snap])

text \<open>A backend whose probe connects at once, on a system whose state is the next descriptor.\<close>

definition ex_sockets :: "int sockets" where
  "ex_sockets = \<lparr>sk_socket = (\<lambda>s. (s, s + 1)), sk_connect = (\<lambda>fd ip port s. ((0, 0), s)), sk_select = (\<lambda>fd t s. (1, s)),
     sk_so_error = (\<lambda>fd s. (Some 0, s)), sk_close = (\<lambda>fd s. s), sk_now_ns = (\<lambda>s. 1000000)\<rparr>"

definition ex_cp_cfg :: Config where
  "ex_cp_cfg = ex_cfg\<lparr>backends := [\<lparr>bi_ip = \<lparr>ip_value = 0x0A000101\<rparr>, bi_mac = \<lparr>mac_bytes = [2,0,0,0,1,1]\<rparr>, bi_port = 8080,
     bi_probe_port = 8080\<rparr>]\<rparr>"

definition ex_shm :: "ShmProvider \<times> ShmHeader" where
  "ex_shm = (\<lparr>shm_name = ''/cerebellum_control'', shm_size = 1, shm_mode = kAttach, shm_fd = 3, shm_ptr = Some 1\<rparr>,
     InitShmHeader \<lparr>hdr_magic = 0, hdr_version = 0\<rparr>)"

definition ex_monitor :: Monitor where
  "ex_monitor = \<lparr>mo_cfg = ex_cp_cfg, mo_tsdb_url = [], mo_shm = True, mo_control = True, mo_published = [],
     mo_agg = StatsAggregator_new kMaxLcores, mo_latest = AggregatedStats_zero, mo_health = Start (HealthChecker_new ex_cp_cfg)\<rparr>"

lemma ex_monitor_new: "Monitor_new (Inr ex_cp_cfg) [] (Inr ex_shm) (Inr ex_shm) = Inr ex_monitor"
  by (simp add: Monitor_new_def ex_monitor_def)

lemma ex_view_quiet: "quiet ex_view"
  by (simp add: quiet_def view_ok_def ex_view_def)

definition ex_checked :: "HealthChecker \<times> int sys" where
  "ex_checked = health_round ex_sockets (mo_health ex_monitor, \<lparr>sys_state = 3, sys_fds = []\<rparr>)"

lemma ex_checked_up: "map bs_status (States (fst ex_checked)) = [kUp]"
  unfolding ex_checked_def by code_simp

theorem health_reaches_pool_witness:
  "\<exists>view' pool seq. RunControlLoop [view'] (replicate kMaxBackends ex_backend) \<lparr>rcu_ptr = Some (pool_of (contents ex_view))\<rparr> 0 =
      Some (Inr (\<lparr>rcu_ptr = Some pool\<rparr>, seq)) \<and> bp_active pool = [0]"
proof -
  let ?mo = "ex_monitor\<lparr>mo_health := fst ex_checked\<rparr>"
  have "cp_reach ex_sockets ex_cp_cfg ex_monitor \<lparr>sys_state = 3, sys_fds = []\<rparr> ex_view"
    by (rule cp_reach.start [OF ex_monitor_new ex_view_quiet])
  moreover have "hc_running (mo_health ex_monitor)" by (simp add: ex_monitor_def Start_def)
  ultimately have reach: "cp_reach ex_sockets ex_cp_cfg ?mo (snd ex_checked) ex_view"
    by (rule cp_reach.health) (simp add: ex_checked_def)
  obtain mo' view' req where p: "poll (ex_stats 0) ?mo ex_view = (mo', view', req)" by (metis prod_cases3)
  have cfg: "backends ex_cp_cfg \<noteq> []" "length (backends ex_cp_cfg) \<le> kMaxBackends" "length (backends ex_cp_cfg) = 1"
    by (simp_all add: ex_cp_cfg_def kMaxBackends_def)
  have up: "bs_status (States (mo_health ?mo) ! 0) = kUp" using ex_checked_up by (auto simp: map_eq_Cons_conv)
  have seq: "cv_seq ex_view = 0" by (simp add: ex_view_def)
  from health_reaches_pool [OF reach p cfg(1,2), of "replicate kMaxBackends ex_backend"] obtain pool where
    "RunControlLoop [view'] (replicate kMaxBackends ex_backend) \<lparr>rcu_ptr = Some (pool_of (contents ex_view))\<rparr> (cv_seq ex_view) =
      Some (Inr (\<lparr>rcu_ptr = Some pool\<rparr>, cv_seq view'))"
    "bp_active pool = map of_nat (filter (\<lambda>i. bs_status (States (mo_health ?mo) ! i) = kUp) [0..<length (backends ex_cp_cfg)])"
    by auto
  then show ?thesis unfolding cfg(3) seq using up by auto
qed

section \<open>Two ways to lose service\<close>

text \<open>
  C31. The first poll of a monitor that has just started, before the first round of health checks has
  ended, publishes every backend as disabled, although the dataplane was serving them: after its
  next round the control loop has put a pool with no active backend in place, and the load balancer
  drops every packet, of established connections too.
\<close>

theorem startup_outage:
  assumes new: "Monitor_new (Inr cfg) url stats_att (Inr control_att) = Inr mo" and q: "quiet view"
    and p: "poll sv mo view = (mo', view', req)" and cfg: "backends cfg \<noteq> []" "length (backends cfg) \<le> kMaxBackends"
    and snap: "length snapshot = kMaxBackends"
  shows "\<exists>pool. RunControlLoop [view'] snapshot \<lparr>rcu_ptr = Some (pool_of (contents view))\<rparr> (cv_seq view) =
      Some (Inr (\<lparr>rcu_ptr = Some pool\<rparr>, cv_seq view'))
    \<and> Lb_Process I st \<lparr>rcu_ptr = Some pool\<rparr> now ms = Inr (st, map (\<lambda>m. (m, kNextDrop_lb)) ms)"
proof -
  have "cp_reach S cfg mo w view" for S :: "int sockets" and w by (rule cp_reach.start [OF new q])
  from health_pool [OF this p cfg snap] obtain pool where h: "RunControlLoop [view'] snapshot \<lparr>rcu_ptr = Some (pool_of (contents view))\<rparr> (cv_seq view) =
      Some (Inr (\<lparr>rcu_ptr = Some pool\<rparr>, cv_seq view'))"
    "bp_active pool = map of_nat (filter (\<lambda>i. bs_status (States (mo_health mo) ! i) = kUp) [0..<length (backends cfg)])" by blast
  have "States (mo_health mo) = map (\<lambda>b. \<lparr>bs_info = b, bs_status = kUnknown, fail_count = 0, success_count = 0, last_check_ns = 0\<rparr>) (backends cfg)"
    using new by (auto simp: Monitor_new_def Start_def States_def HealthChecker_new_def)
  then have "filter (\<lambda>i. bs_status (States (mo_health mo) ! i) = kUp) [0..<length (backends cfg)] = []" by (auto simp: filter_empty_conv)
  then have "ActiveCount pool = 0" using h(2) by (simp add: ActiveCount_def)
  with h(1) show ?thesis by (auto simp: Lb_Process_def Rcu_Load_def)
qed

theorem startup_outage_witness:
  "\<exists>view' pool seq. RunControlLoop [view'] (replicate kMaxBackends ex_backend) \<lparr>rcu_ptr = Some (pool_of (contents (publish [ex_backend] ex_view)))\<rparr> 2 =
      Some (Inr (\<lparr>rcu_ptr = Some pool\<rparr>, seq))
    \<and> Lb_Process Generic ex_boot \<lparr>rcu_ptr = Some pool\<rparr> 5 [ex_meta 40000 2] = Inr (ex_boot, [(ex_meta 40000 2, kNextDrop_lb)])"
proof -
  let ?view = "publish [ex_backend] ex_view"
  have e: "length [ex_backend] < 2 ^ 32" by simp
  note q = publish_quiet [OF ex_view_quiet e]
  have seq: "cv_seq ?view = 2" using q(2) by (simp add: ex_view_def)
  obtain mo' view' req where p: "poll (ex_stats 0) ex_monitor ?view = (mo', view', req)" by (metis prod_cases3)
  have cfg: "backends ex_cp_cfg \<noteq> []" "length (backends ex_cp_cfg) \<le> kMaxBackends"
    by (simp_all add: ex_cp_cfg_def kMaxBackends_def)
  from startup_outage [OF ex_monitor_new q(1) p cfg, of "replicate kMaxBackends ex_backend" Generic ex_boot 5 "[ex_meta 40000 2]"]
  show ?thesis unfolding seq by auto
qed

lemma ReadControl_odd:
  assumes "cv_seq view AND 1 \<noteq> 0"
  shows "ReadControl view out \<noteq> Some r"
proof
  assume run: "ReadControl view out = Some r"
  have "cv_seq view AND 1 \<noteq> 0 \<longrightarrow> False"
  proof (rule ReadControl.raw_induct [where P = "\<lambda>view out r. cv_seq view AND 1 \<noteq> 0 \<longrightarrow> False", OF _ run])
    fix f view out r
    assume IH: "\<And>view out r. f view out = Some r \<Longrightarrow> cv_seq view AND 1 \<noteq> 0 \<longrightarrow> False"
      and eq: "(let seq_before = cv_seq view in
        if seq_before AND 1 \<noteq> 0 then f view out
        else let cnt = clamp_count (cv_count view); out' = copy_entries 0 (unat cnt) (cv_backends view) out
             in if cv_seq view = seq_before then Some (seq_before, cnt, out') else f view out') = Some r"
    show "cv_seq view AND 1 \<noteq> 0 \<longrightarrow> False"
      using IH [of view out r] eq unfolding Let_def by presburger
  qed
  with assms show False by blast
qed

lemma even_plus2_iff: "((x :: u32) + 2) AND 1 = 0 \<longleftrightarrow> x AND 1 = 0"
  by (simp add: and_one_eq even_iff_mod_2_eq_zero [symmetric])

text \<open>
  C32. A writer that dies between its two stores to the sequence number leaves it odd, and nothing
  repairs this: a publication on such a view leaves it odd, every read of it spins for ever, and a
  dataplane that starts on the left-over segment (creating it neither clears nor replaces an
  existing one) seeds it, and never comes to launch its cores.
\<close>

theorem torn_publication_hangs:
  assumes odd: "cv_seq view AND 1 \<noteq> 0"
  shows "cv_seq (PublishControl view src cnt) AND 1 \<noteq> 0 \<and> ReadControl (PublishControl view src cnt) out = None
    \<and> RunDataplane rc cfg port lcore_count view snapshot = None"
proof -
  have two: "cv_seq (PublishControl view s c) AND 1 \<noteq> 0" for s c
  proof -
    have "cv_seq (PublishControl view s c) = cv_seq view + 2" by (simp add: PublishControl_def Let_def)
    then show ?thesis using odd even_plus2_iff by metis
  qed
  have "ReadControl (PublishControl view s c) o' = None" for s c o'
    using ReadControl_odd [OF two] by (cases "ReadControl (PublishControl view s c) o'") auto
  with two show ?thesis by (simp add: RunDataplane_def SeedControl_def Let_def)
qed

theorem torn_publication_hangs_witness:
  "RunDataplane ex_rings ex_cfg (Inr ex_port) 3 (ex_view\<lparr>cv_seq := 1\<rparr>) (replicate kMaxBackends ex_backend) = None"
  using torn_publication_hangs [of "ex_view\<lparr>cv_seq := 1\<rparr>"] by simp

end
