(* ===== verification/Whole_System.thy ===== *)
theory Whole_System
  imports Fleet_Props System
begin

text \<open>
  The whole program at work: the cores of the dataplane, the thread that follows the control view, the network card
  and the signal handler, interleaved with the control plane, which may be started and stopped at any time, probes the
  backends, reads the counters of the cores and publishes. What \<open>Fleet\<close> takes from its environment, the pools
  that the nodes load, is here what the control thread has stored; what \<open>System\<close> takes as an argument, the counters, is what
  the cores have counted.
  A poll of the monitor and a round of the control loop are one step each; that reading the view while it is written gives the
  view of before or after is shown in \<open>Control_View\<close>.
\<close>

section \<open>The machine\<close>

text \<open>The devices with a cell of the given contents: a node loads what is there at that moment.\<close>

definition with_cell :: "BackendPool AtomicRcu \<Rightarrow> 'd dev \<Rightarrow> 'd dev" where
  "with_cell rcu V = V\<lparr>rcu_load := (\<lambda>d. (rcu, d))\<rparr>"

text \<open>The body of \<open>RunControlLoop\<close>: the buffer for the entries, the cell and the number last applied.\<close>

definition control_round :: "ControlView \<Rightarrow> ControlBackend list \<times> BackendPool AtomicRcu \<times> u32
    \<Rightarrow> (ControlBackend list \<times> BackendPool AtomicRcu \<times> u32) result option" where
  "control_round view st =
     (case st of (snapshot, rcu, applied_seq) \<Rightarrow>
       case ReadControl view snapshot of
         None \<Rightarrow> None
       | Some (seq, cnt, snapshot') \<Rightarrow>
           if seq \<noteq> applied_seq then
             (case BuildPool snapshot' cnt of
                None \<Rightarrow> None
              | Some (Inl e) \<Rightarrow> Some (Inl e)
              | Some (Inr pool) \<Rightarrow> Some (Inr (snapshot', Rcu_Store pool rcu, seq)))
           else Some (Inr (snapshot', rcu, applied_seq)))"

text \<open>The loop is the iteration of its body.\<close>

lemma RunControlLoop_rounds:
  "RunControlLoop (view # views) snapshot rcu seq =
     (case control_round view (snapshot, rcu, seq) of
        None \<Rightarrow> None
      | Some (Inl e) \<Rightarrow> Some (Inl e)
      | Some (Inr (snapshot', rcu', seq')) \<Rightarrow> RunControlLoop views snapshot' rcu' seq')"
  by (simp add: control_round_def split: option.split sum.split prod.split)

text \<open>The statistics view: the entry of a core is where that core counts, the others are as they were. A monitor that
  could not attach the view reads one of its own, which is zero.\<close>

definition stats_view :: "(nat \<Rightarrow> LcoreStats) \<Rightarrow> 'd core list \<Rightarrow> StatsView" where
  "stats_view S cs = \<lparr>sv_header = InitShmHeader \<lparr>hdr_magic = 0, hdr_version = 0\<rparr>,
     sv_lcores = map (\<lambda>i. case find (\<lambda>c. la_stats (co_arg c) = i) cs of None \<Rightarrow> S i | Some c \<Rightarrow> w_stats (co_world c)) [0..<kMaxLcores]\<rparr>"

definition fallback :: StatsView where
  "fallback = \<lparr>sv_header = \<lparr>hdr_magic = 0, hdr_version = 0\<rparr>, sv_lcores = replicate kMaxLcores LcoreStats_zero\<rparr>"

definition monitor_view :: "Monitor \<Rightarrow> StatsView \<Rightarrow> StatsView" where
  "monitor_view mo sv = (if mo_shm mo then sv else fallback)"

text \<open>The number of publications since the control loop last built a pool, \<open>sy_missed\<close>, and what the cores had counted at the last
  poll of this monitor, \<open>sy_seen\<close>, are history; nothing depends on them.\<close>

record ('d, 's) system =
  sy_fleet :: "'d fleet"
  sy_control :: "ControlBackend list \<times> BackendPool AtomicRcu \<times> u32"
  sy_view :: ControlView
  sy_monitor :: "Monitor option"
  sy_os :: "'s sys"
  sy_missed :: nat
  sy_seen :: "(nat \<times> nat) option"

definition sy_rcu :: "('d, 's) system \<Rightarrow> BackendPool AtomicRcu" where
  "sy_rcu s = fst (snd (sy_control s))"

definition received :: "'d fleet \<Rightarrow> nat" where
  "received F = (\<Sum>c\<leftarrow>fl_cores F. length (w_received (co_world c)))"

definition transmitted :: "'d fleet \<Rightarrow> nat" where
  "transmitted F = (\<Sum>c\<leftarrow>fl_cores F. length (w_sent (co_world c)))"

definition poll_system :: "(nat \<Rightarrow> LcoreStats) \<Rightarrow> Monitor \<Rightarrow> ('d, 's) system \<Rightarrow> ('d, 's) system" where
  "poll_system S mo s =
     (case poll (monitor_view mo (stats_view S (fl_cores (sy_fleet s)))) mo (sy_view s) of (mo', view', req) \<Rightarrow>
       s\<lparr>sy_monitor := Some mo', sy_view := view', sy_missed := (if cv_seq view' = cv_seq (sy_view s) then sy_missed s else Suc (sy_missed s)),
         sy_seen := Some (received (sy_fleet s), transmitted (sy_fleet s))\<rparr>)"

text \<open>\<open>C\<close> holds the configurations the control plane is ever started with.\<close>

text \<open>What moves in the dataplane's process: a core, the network or a signal, with the pool that is in the cell then; or the control thread,
  one round of its loop.\<close>

inductive dp_step :: "isa \<Rightarrow> dpdk \<Rightarrow> 'd dev \<Rightarrow> ('d \<Rightarrow> 'd \<Rightarrow> bool) \<Rightarrow> ('d, 's) system \<Rightarrow> ('d, 's) system \<Rightarrow> bool" for I D V E where
  dataplane: "fleet_step I D (with_cell (sy_rcu s) V) E (sy_fleet s) F \<Longrightarrow> dp_step I D V E s (s\<lparr>sy_fleet := F\<rparr>)"
| control: "fl_running (sy_fleet s) \<Longrightarrow> control_round (sy_view s) (sy_control s) = Some (Inr st)
    \<Longrightarrow> dp_step I D V E s (s\<lparr>sy_control := st, sy_missed := (if snd (snd st) = snd (snd (sy_control s)) then sy_missed s else 0)\<rparr>)"

text \<open>What moves in the control plane's: the component is constructed or ends, its health checker goes round, its timer polls.\<close>

inductive cp_step :: "(nat \<Rightarrow> LcoreStats) \<Rightarrow> 's sockets \<Rightarrow> Config set \<Rightarrow> ('d, 's) system \<Rightarrow> ('d, 's) system \<Rightarrow> bool" for S sk C where
  start: "sy_monitor s = None \<Longrightarrow> ccfg \<in> C \<Longrightarrow> Monitor_new (Inr ccfg) url stats_att control_att = Inr mo
    \<Longrightarrow> cp_step S sk C s (s\<lparr>sy_monitor := Some mo, sy_seen := None\<rparr>)"
| stop: "cp_step S sk C s (s\<lparr>sy_monitor := None, sy_seen := None\<rparr>)"
| health: "sy_monitor s = Some mo \<Longrightarrow> hc_running (mo_health mo) \<Longrightarrow> health_round sk (mo_health mo, sy_os s) = (h, w)
    \<Longrightarrow> cp_step S sk C s (s\<lparr>sy_monitor := Some (mo\<lparr>mo_health := h\<rparr>), sy_os := w\<rparr>)"
| poll: "sy_monitor s = Some mo \<Longrightarrow> cp_step S sk C s (poll_system S mo s)"

text \<open>The two processes run side by side.\<close>

inductive sys_step :: "isa \<Rightarrow> dpdk \<Rightarrow> 'd dev \<Rightarrow> ('d \<Rightarrow> 'd \<Rightarrow> bool) \<Rightarrow> (nat \<Rightarrow> LcoreStats) \<Rightarrow> 's sockets \<Rightarrow> Config set
    \<Rightarrow> ('d, 's) system \<Rightarrow> ('d, 's) system \<Rightarrow> bool" for I D V E S sk C where
  dp: "dp_step I D V E s s' \<Longrightarrow> sys_step I D V E S sk C s s'"
| cp: "cp_step S sk C s s' \<Longrightarrow> sys_step I D V E S sk C s s'"

text \<open>\<open>RunDataplane\<close> when it has launched the cores and begins to follow the view; \<open>RunControlLoop\<close> has a buffer of its own.\<close>

definition system_of :: "'d \<Rightarrow> 'd core list \<Rightarrow> ControlView \<Rightarrow> BackendPool AtomicRcu \<Rightarrow> u32 \<Rightarrow> ControlBackend list \<Rightarrow> 's sys \<Rightarrow> ('d, 's) system" where
  "system_of d cs view rcu seq snapshot w = \<lparr>sy_fleet = fleet_of d cs, sy_control = (snapshot, rcu, seq), sy_view = view, sy_monitor = None,
     sy_os = w, sy_missed = 0, sy_seen = None\<rparr>"

lemma sys_step_elim [consumes 1, case_names dataplane control start stop health poll]:
  assumes "sys_step I D V E S sk C s s'"
  obtains F where "s' = s\<lparr>sy_fleet := F\<rparr>" and "fleet_step I D (with_cell (sy_rcu s) V) E (sy_fleet s) F"
  | st where "s' = s\<lparr>sy_control := st, sy_missed := (if snd (snd st) = snd (snd (sy_control s)) then sy_missed s else 0)\<rparr>"
      and "fl_running (sy_fleet s)" and "control_round (sy_view s) (sy_control s) = Some (Inr st)"
  | ccfg url stats_att control_att mo where "s' = s\<lparr>sy_monitor := Some mo, sy_seen := None\<rparr>" and "sy_monitor s = None" and "ccfg \<in> C"
      and "Monitor_new (Inr ccfg) url stats_att control_att = Inr mo"
  | "s' = s\<lparr>sy_monitor := None, sy_seen := None\<rparr>"
  | mo h w where "s' = s\<lparr>sy_monitor := Some (mo\<lparr>mo_health := h\<rparr>), sy_os := w\<rparr>" and "sy_monitor s = Some mo" and "hc_running (mo_health mo)"
      and "health_round sk (mo_health mo, sy_os s) = (h, w)"
  | mo where "s' = poll_system S mo s" and "sy_monitor s = Some mo"
  using assms by (elim sys_step.cases dp_step.cases cp_step.cases) metis+

section \<open>The environment\<close>

text \<open>The devices and the network keep their promises, the pools apart.\<close>

definition hw_env :: "dpdk \<Rightarrow> Config \<Rightarrow> 'd dev \<Rightarrow> BackendInfo set \<Rightarrow> ('d \<Rightarrow> nat \<Rightarrow> mbuf list) \<Rightarrow> ('d \<Rightarrow> bool) \<Rightarrow> ('d \<Rightarrow> 'd \<Rightarrow> bool) \<Rightarrow> bool" where
  "hw_env D cfg V B rq K E \<longleftrightarrow> fleet_env D cfg (with_cell \<lparr>rcu_ptr = None\<rparr> V) B rq K E"

definition good_cell :: "BackendInfo set \<Rightarrow> BackendPool AtomicRcu \<Rightarrow> bool" where
  "good_cell B rcu \<longleftrightarrow> (\<exists>pool. rcu = \<lparr>rcu_ptr = Some pool\<rparr> \<and> built_pool pool \<and> set (bp_slots pool) \<subseteq> B)"

lemma with_cell_sel [simp]:
  "eth_rx_burst (with_cell rcu V) = eth_rx_burst V" "eth_tx_burst (with_cell rcu V) = eth_tx_burst V"
  "ring_dequeue_burst (with_cell rcu V) = ring_dequeue_burst V" "ring_enqueue_burst (with_cell rcu V) = ring_enqueue_burst V"
  "ring_enqueue (with_cell rcu V) = ring_enqueue V" "rcu_load (with_cell rcu V) = (\<lambda>d. (rcu, d))"
  by (simp_all add: with_cell_def)

text \<open>With any pool of known backends in the cell, they are an environment the cores can work in.\<close>

lemma hw_env_cell:
  assumes hw: "hw_env D cfg V B rq K E" and cell: "good_cell B rcu"
  shows "fleet_env D cfg (with_cell rcu V) B rq K E"
proof -
  obtain pool where p: "rcu = \<lparr>rcu_ptr = Some pool\<rparr>" "built_pool pool" "set (bp_slots pool) \<subseteq> B" using cell by (auto simp: good_cell_def)
  have h: "dev_ok (with_cell \<lparr>rcu_ptr = None\<rparr> V)" "ring_laws (with_cell \<lparr>rcu_ptr = None\<rparr> V) rq" "nic_ok D cfg (with_cell \<lparr>rcu_ptr = None\<rparr> V) B K"
    "\<forall>d d'. E d d' \<longrightarrow> K d \<longrightarrow> K d' \<and> rq d' = rq d" using hw by (simp_all add: hw_env_def fleet_env_def)
  have "dev_ok (with_cell rcu V)" using h(1) p(1,2) by (simp add: dev_ok_def built_rcu_def Rcu_Load_def)
  moreover have "ring_laws (with_cell rcu V) rq" using h(2) by (simp add: ring_laws_def)
  moreover have "nic_ok D cfg (with_cell rcu V) B K" using h(3) p(1,3) by (simp add: nic_ok_def Rcu_Load_def)
  ultimately show ?thesis using h(4) by (simp add: fleet_env_def)
qed

text \<open>The invariant of the cores depends on the devices only in that they keep their promises.\<close>

lemma world_ok_dev: "dev_ok V \<Longrightarrow> dev_ok V' \<Longrightarrow> world_ok I V = world_ok I V'"
  by (intro ext) (simp add: world_ok_def)

lemma core_ok_dev:
  assumes ok: "core_ok I D V B Z s c" and V': "dev_ok V'"
  shows "core_ok I D V' B Z s c"
proof -
  have "dev_ok V" using ok by (simp add: core_ok_def world_ok_def)
  from world_ok_dev [OF this V', of I] have w: "world_ok I V = world_ok I V'" .
  have "disp_at I D V B Z s arg k w st x = disp_at I D V' B Z s arg k w st x" for arg k w st x
    by (cases x) (auto simp: w)
  with ok w show ?thesis by (simp add: core_ok_def pc_ok_def split: core_pc.splits)
qed

lemma fleet_ok_dev:
  assumes "fleet_ok I D cfg V B Z rq K S args F" and "dev_ok V'" and "heads D V' Z"
  shows "fleet_ok I D cfg V' B Z rq K S args F"
  using assms core_ok_dev [OF _ assms(2)] unfolding fleet_ok_def by blast

lemma heads_cell [simp]: "heads D (with_cell rcu V) Z = heads D V Z"
  by (simp add: heads_def)

section \<open>What a core's step leaves of its node and its logs\<close>

text \<open>One call of \<open>Process\<close>: the logs grow, and only the load balancer changes its table.\<close>

definition grown :: "'d world \<Rightarrow> 'd world \<Rightarrow> bool" where
  "grown w w' \<longleftrightarrow> prefix (w_received w) (w_received w') \<and> prefix (w_sent w) (w_sent w')"

lemma grown_same: "w_received w' = w_received w \<Longrightarrow> w_sent w' = w_sent w \<Longrightarrow> grown w w'"
  by (simp add: grown_def)

lemma route_world: "route w outs nexts = Inr (w', x, os) \<Longrightarrow> w' = w"
  by (auto simp: route_def bind_r_def split: sum.splits)

lemma Steer_loop_world:
  "Steer_loop I D cfg V rings n ms w nexts = Inr (w', nexts') \<Longrightarrow> w_lb w' = w_lb w \<and> w_received w' = w_received w \<and> w_sent w' = w_sent w"
proof (induction ms arbitrary: w nexts)
  case (Cons m ms)
  then show ?case
    by (auto simp: Let_def bind_r_def add_dropped_def mbuf_free_def split: SteerClass.splits sum.splits if_splits prod.splits)
qed simp

lemma Process_world:
  assumes run: "Process I D cfg V nd w x nexts = Inr (w', x', outs)"
  shows "grown w w'" and "(\<forall>a b. nd \<noteq> LbNode a b) \<Longrightarrow> w_lb w' = w_lb w"
proof -
  have "grown w w' \<and> ((\<forall>a b. nd \<noteq> LbNode a b) \<longrightarrow> w_lb w' = w_lb w)"
  proof (cases nd)
    case (SteerNode rings n)
    with run Steer_loop_world show ?thesis by (fastforce simp: Steer_Process_def bind_r_def grown_def split: sum.splits)
  qed (use run in \<open>auto simp: grown_def Rx_Process_def Tx_Process_def Drop_Process_def RingRx_Process_def RingTx_Process_def LbN_Process_def Let_def bind_r_def
    add_rx_def add_tx_def add_dropped_def mbuf_free_def case_prod_beta dest!: route_world split: sum.splits option.splits if_splits prod.splits\<close>)
  then show "grown w w'" "(\<forall>a b. nd \<noteq> LbNode a b) \<Longrightarrow> w_lb w' = w_lb w" by blast+
qed

definition table_from :: "BackendPool \<Rightarrow> 'd world \<Rightarrow> 'd world \<Rightarrow> bool" where
  "table_from pool w w' \<longleftrightarrow> (\<forall>lb'. w_lb w' = Some lb' \<longrightarrow> (\<exists>lb. w_lb w = Some lb \<and> flows_all (flows_from (lb_nat lb) pool) (lb_nat lb')))"

lemma table_from_same: "w_lb w' = w_lb w \<Longrightarrow> table_from pool w w'"
  by (auto simp: table_from_def flows_all_def flows_from_def)

lemma Process_table:
  assumes run: "Process I D cfg (with_cell \<lparr>rcu_ptr = Some pool\<rparr> V) nd w x nexts = Inr (w', x', outs)" and pool: "built_pool pool"
    and w: "world_ok I V' s nodes w" "nd \<in> set nodes"
  shows "table_from pool w w'"
proof (cases "\<exists>a b. nd = LbNode a b")
  case True
  then obtain a b where nd: "nd = LbNode a b" by blast
  obtain lb where lb: "w_lb w = Some lb" "lb_inv I (all_ports a b) lb" using w nd unfolding world_ok_def by blast
  let ?lb = "lb\<lparr>lb_stats := w_stats w\<rparr>"
  obtain now lb' os where h: "Lb_Process I ?lb \<lparr>rcu_ptr = Some pool\<rparr> now (map mb_meta x) = Inr (lb', os)" "w_lb w' = Some lb'"
    using run lb(1) by (auto simp: nd LbN_Process_def bind_r_def dest!: route_world split: sum.splits)
  have "lb_inv I (all_ports a b) ?lb" using lb(2) by (simp add: lb_stats_inv)
  from Lb_Process_flows [OF this pool h(1)] lb(1) h(2) show ?thesis by (simp add: table_from_def)
next
  case False
  then have "\<forall>a b. nd \<noteq> LbNode a b" by blast
  from Process_world(2) [OF run this] show ?thesis by (rule table_from_same)
qed

lemma core_step_world:
  assumes ok: "core_ok I D V' B Z s c" and pool: "built_pool pool"
    and step: "core_step I D (with_cell \<lparr>rcu_ptr = Some pool\<rparr> V) running c d = Inr (c', d')"
  shows "grown (co_world c) (co_world c') \<and> table_from pool (co_world c) (co_world c')"
proof (cases "\<exists>k n f fs. co_pc c = kPass k (Some (n, f # fs))")
  case True
  then obtain k n f fs where pc: "co_pc c = kPass k (Some (n, f # fs))" by blast
  let ?g = "arg_graph (co_arg c) k" and ?cfg = "la_cfg (co_arg c)" and ?w = "(co_world c)\<lparr>w_dev := d\<rparr>" and ?V = "with_cell \<lparr>rcu_ptr = Some pool\<rparr> V"
  have k: "k < n_graphs (co_arg c)" "core_draining I V' s (co_arg c) k n (f # fs) (co_world c) (co_disps c ! k)"
    using ok pc by (simp_all add: core_ok_def pc_ok_def)
  have g: "core_graph c k = ?g" using core_graph_eq [OF ok k(1)] by simp
  have "n < length (gr_nodes ?g)" using k(2) by (simp add: net.draining_def)
  then have n: "gr_nodes ?g ! n \<in> set (arg_nodes (co_arg c))" using nth_mem arg_nodes_sub [of "co_arg c" k] by blast
  have "\<exists>st'. RunNode (proc_of I D ?cfg ?V ?g) ?g n f ?w (co_disps c ! k) = Inr (co_world c', st')"
    using step pc g by (auto simp: core_step_def bind_r_def split: sum.splits)
  then obtain x' outs where run: "Process I D ?cfg ?V (gr_nodes ?g ! n) ?w (frame_at (co_disps c ! k) f) (replicate (Fanout ?g n) []) = Inr (co_world c', x', outs)"
    using RunNode_process by (fastforce simp: proc_of_def)
  have "world_ok I V' s (arg_nodes (co_arg c)) ?w" using ok by (simp add: core_ok_def)
  from Process_table [OF run pool this n] Process_world(1) [OF run] show ?thesis by (simp add: grown_def table_from_def)
next
  case False
  then have "co_world c' = co_world c"
    using step by (auto simp: core_step_def Let_def begin_pass_def split: core_pc.splits option.splits list.splits if_splits prod.splits)
  then show ?thesis by (simp add: grown_same table_from_same)
qed

lemma fleet_core_world:
  assumes ok: "fleet_ok I D cfg V' B Z rq K S args F" and pool: "built_pool pool" and i: "i < length (fl_cores F)"
    and step: "fleet_core I D (with_cell \<lparr>rcu_ptr = Some pool\<rparr> V) i F = Inr F'"
  shows "grown (co_world (fl_cores F ! i)) (co_world (fl_cores F' ! i))"
    and "table_from pool (co_world (fl_cores F ! i)) (co_world (fl_cores F' ! i))"
    and "length (fl_cores F') = length (fl_cores F)" and "j \<noteq> i \<Longrightarrow> fl_cores F' ! j = fl_cores F ! j"
proof -
  obtain c d where h: "core_step I D (with_cell \<lparr>rcu_ptr = Some pool\<rparr> V) (fl_running F) (fl_cores F ! i) (fl_dev F) = Inr (c, d)"
    "F' = F\<lparr>fl_dev := d, fl_cores := (fl_cores F)[i := c]\<rparr>" using step by (auto simp: fleet_core_def bind_r_def split: sum.splits)
  from core_step_world [OF fleet_okD(3) [OF ok nth_mem [OF i]] pool h(1)] h(2) i
  show "grown (co_world (fl_cores F ! i)) (co_world (fl_cores F' ! i))" "table_from pool (co_world (fl_cores F ! i)) (co_world (fl_cores F' ! i))"
    "length (fl_cores F') = length (fl_cores F)" "j \<noteq> i \<Longrightarrow> fl_cores F' ! j = fl_cores F ! j" by simp_all
qed

text \<open>The numbers of packets never decrease.\<close>

lemma fleet_step_grows:
  assumes ok: "fleet_ok I D cfg V' B Z rq K S args F" and cell: "good_cell B' rcu" and step: "fleet_step I D (with_cell rcu V) E F F'"
  shows "received F \<le> received F' \<and> transmitted F \<le> transmitted F'"
  using step
proof cases
  case (core i)
  obtain pool where p: "rcu = \<lparr>rcu_ptr = Some pool\<rparr>" "built_pool pool" using cell by (auto simp: good_cell_def)
  have i: "i < length (fl_cores F)" using core(1) by (simp add: core_live_def)
  note w = fleet_core_world [OF ok p(2) i core(2) [unfolded p(1)]]
  have "length (w_received (co_world (fl_cores F ! j))) \<le> length (w_received (co_world (fl_cores F' ! j)))
      \<and> length (w_sent (co_world (fl_cores F ! j))) \<le> length (w_sent (co_world (fl_cores F' ! j)))" for j
    using w(1) w(4) [of j] by (cases "j = i") (auto simp: grown_def dest: prefix_length_le)
  then show ?thesis using w(3) by (auto simp: received_def transmitted_def sum_list_sum_nth intro!: sum_mono)
qed (simp_all add: received_def transmitted_def OnSignal_def)

section \<open>Backends\<close>

text \<open>A configured backend as a pool has it.\<close>

definition served :: "BackendInfo \<Rightarrow> BackendInfo" where
  "served b = slot_of (seed_entry b)"

definition known :: "Config \<Rightarrow> Config set \<Rightarrow> BackendInfo set" where
  "known cfg C = served ` (set (backends cfg) \<union> (\<Union>c \<in> C. set (backends c)))"

lemma slots_entries_of: "length es = length bs \<Longrightarrow> map slot_of (entries_of bs es) = map served bs"
  by (rule nth_equalityI) (simp_all add: entries_of_def served_def slot_of_def seed_entry_def)

lemma slots_seed: "map slot_of (map seed_entry bs) = map served bs"
  by (simp add: served_def)

lemma pool_slots: "bp_slots (pool_of es) = map slot_of es"
  by (simp add: pool_of_def)

section \<open>The invariant\<close>

definition monitor_ok :: "Config set \<Rightarrow> ControlView \<Rightarrow> Monitor \<Rightarrow> bool" where
  "monitor_ok C view mo \<longleftrightarrow> mo_cfg mo \<in> C \<and> map bs_info (States (mo_health mo)) = backends (mo_cfg mo) \<and> hc_running (mo_health mo)
     \<and> (mo_control mo \<longrightarrow> cp_inv (mo_cfg mo) mo view) \<and> (mo_published mo \<noteq> [] \<longrightarrow> length (mo_published mo) = length (backends (mo_cfg mo))) \<and> sa_n_lcores (mo_agg mo) = kMaxLcores"

definition control_ok :: "BackendInfo set \<Rightarrow> ('d, 's) system \<Rightarrow> bool" where
  "control_ok B s \<longleftrightarrow> good_cell B (sy_rcu s) \<and> length (fst (sy_control s)) = kMaxBackends \<and> Dataplane_Main.quiet (sy_view s)
     \<and> slot_of ` set (contents (sy_view s)) \<subseteq> B \<and> cv_seq (sy_view s) = snd (snd (sy_control s)) + 2 * of_nat (sy_missed s)
     \<and> (sy_missed s = 0 \<longrightarrow> sy_rcu s = \<lparr>rcu_ptr = Some (pool_of (contents (sy_view s)))\<rparr>)"

text \<open>What the monitor's aggregator remembers of its last tick: the sums of the counters then.\<close>

definition seen_ok :: "(nat \<Rightarrow> LcoreStats) \<Rightarrow> Monitor \<Rightarrow> nat \<times> nat \<Rightarrow> bool" where
  "seen_ok S mo seen \<longleftrightarrow> mo_shm mo \<longrightarrow>
     sn_rx (sa_prev (mo_agg mo)) = (\<Sum>i\<leftarrow>[0..<kMaxLcores]. rx_packets (S i)) + of_nat (fst seen)
     \<and> sn_tx (sa_prev (mo_agg mo)) = (\<Sum>i\<leftarrow>[0..<kMaxLcores]. tx_packets (S i)) + of_nat (snd seen)"

definition sys_ok :: "isa \<Rightarrow> dpdk \<Rightarrow> Config \<Rightarrow> 'd dev \<Rightarrow> BackendInfo set \<Rightarrow> nat set \<Rightarrow> ('d \<Rightarrow> nat \<Rightarrow> mbuf list) \<Rightarrow> ('d \<Rightarrow> bool)
    \<Rightarrow> (nat \<Rightarrow> LcoreStats) \<Rightarrow> LcoreArg list \<Rightarrow> Config set \<Rightarrow> ('d, 's) system \<Rightarrow> bool" where
  "sys_ok I D cfg V B Z rq K S args C s \<longleftrightarrow> fleet_ok I D cfg (with_cell (sy_rcu s) V) B Z rq K S args (sy_fleet s) \<and> control_ok B s
     \<and> (\<forall>mo. sy_monitor s = Some mo \<longrightarrow> monitor_ok C (sy_view s) mo \<and> (\<forall>seen. sy_seen s = Some seen \<longrightarrow> seen_ok S mo seen)
       \<and> (\<forall>r t. sy_seen s = Some (r, t) \<longrightarrow> r \<le> received (sy_fleet s) \<and> t \<le> transmitted (sy_fleet s)))"

section \<open>A round of the control loop\<close>

lemma Rcu_Store_eq: "Rcu_Store pool rcu = \<lparr>rcu_ptr = Some pool\<rparr>"
  by (cases rcu) (simp add: Rcu_Store_def)

lemma control_round_eq:
  assumes ok: "control_ok B s"
  defines "now \<equiv> \<lparr>rcu_ptr = Some (pool_of (contents (sy_view s)))\<rparr>" and "uptodate \<equiv> cv_seq (sy_view s) = snd (snd (sy_control s))"
  shows "\<exists>snapshot. control_round (sy_view s) (sy_control s) = Some (Inr (snapshot, if uptodate then sy_rcu s else now, cv_seq (sy_view s)))
    \<and> length snapshot = kMaxBackends \<and> good_cell B now"
proof -
  obtain snap rcu seq where st: "sy_control s = (snap, rcu, seq)" by (metis prod_cases3)
  have c: "length snap = kMaxBackends" "Dataplane_Main.quiet (sy_view s)" "slot_of ` set (contents (sy_view s)) \<subseteq> B"
    using ok by (simp_all add: control_ok_def st)
  obtain snap' where r: "ReadControl (sy_view s) snap = Some (cv_seq (sy_view s), cv_count (sy_view s), snap')" "length snap' = kMaxBackends"
    "BuildPool snap' (cv_count (sy_view s)) = Some (Inr (pool_of (contents (sy_view s))))" "built_pool (pool_of (contents (sy_view s)))"
    by (rule poll_once [OF c(2,1)])
  have "good_cell B now" using r(4) c(3) by (simp add: good_cell_def pool_slots now_def)
  with r show ?thesis by (auto simp: control_round_def st Rcu_Store_eq sy_rcu_def now_def uptodate_def)
qed

lemma seq_back: "(x :: u32) + 2 * of_nat k = x \<Longrightarrow> k < 2 ^ 31 \<Longrightarrow> k = 0"
proof -
  assume "x + 2 * of_nat k = x" and k: "k < 2 ^ 31"
  then have "unat (of_nat (2 * k) :: u32) = 0" by simp
  then show "k = 0" using k by (simp add: unat_of_nat take_bit_nat_eq_self del: of_nat_mult)
qed

text \<open>Unless the sequence number has come back to an old value, a round leaves the pool of the view in place.\<close>

lemma control_round_ok:
  assumes ok: "control_ok B s" and few: "sy_missed s < 2 ^ 31"
  shows "\<exists>snapshot. control_round (sy_view s) (sy_control s) = Some (Inr (snapshot, \<lparr>rcu_ptr = Some (pool_of (contents (sy_view s)))\<rparr>, cv_seq (sy_view s)))"
proof -
  have "sy_missed s = 0" if "cv_seq (sy_view s) = snd (snd (sy_control s))"
    using ok that few by (intro seq_back [OF _ few]) (simp add: control_ok_def)
  then have "cv_seq (sy_view s) = snd (snd (sy_control s)) \<longrightarrow> sy_rcu s = \<lparr>rcu_ptr = Some (pool_of (contents (sy_view s)))\<rparr>"
    using ok by (simp add: control_ok_def)
  with control_round_eq [OF ok] show ?thesis by (auto split: if_splits)
qed

lemma control_step_ok:
  assumes ok: "control_ok B s" and run: "control_round (sy_view s) (sy_control s) = Some (Inr st)"
  defines "s' \<equiv> s\<lparr>sy_control := st, sy_missed := (if snd (snd st) = snd (snd (sy_control s)) then sy_missed s else 0)\<rparr>"
  shows "control_ok B s'"
proof -
  obtain snap where st: "st = (snap, if cv_seq (sy_view s) = snd (snd (sy_control s)) then sy_rcu s
      else \<lparr>rcu_ptr = Some (pool_of (contents (sy_view s)))\<rparr>, cv_seq (sy_view s))" "length snap = kMaxBackends"
    "good_cell B \<lparr>rcu_ptr = Some (pool_of (contents (sy_view s)))\<rparr>" using control_round_eq [OF ok] run by auto
  show ?thesis using ok st(2,3) by (auto simp: s'_def st(1) control_ok_def sy_rcu_def [of "s\<lparr>sy_control := x, sy_missed := y\<rparr>" for x y])
qed

section \<open>A poll\<close>

lemma poll_sel:
  assumes "poll sv mo view = (mo', view', req)"
  shows "mo_cfg mo' = mo_cfg mo" and "mo_shm mo' = mo_shm mo" and "mo_control mo' = mo_control mo" and "mo_health mo' = mo_health mo"
    and "mo_agg mo' = snd (Tick sv (mo_agg mo))" and "mo_latest mo' = fst (Tick sv (mo_agg mo))"
    and "\<not> mo_control mo \<Longrightarrow> view' = view \<and> mo_published mo' = mo_published mo"
  using assms by (auto simp: poll_def Monitor_PublishControl_def Let_def case_prod_beta split: if_splits)

lemma Tick_lcores: "sa_n_lcores (snd (Tick sv agg)) = sa_n_lcores agg"
  by (simp add: Tick_def Let_def case_prod_beta)

lemma poll_ok:
  assumes mo: "monitor_ok C view mo" and C: "\<forall>c \<in> C. length (backends c) < 2 ^ 32" and q: "Dataplane_Main.quiet view"
    and p: "poll sv mo view = (mo', view', req)"
  defines "es \<equiv> enabled_flags (States (mo_health mo))"
  shows "monitor_ok C view' mo'" and "length es = length (backends (mo_cfg mo))" and "mo_control mo \<Longrightarrow> mo_published mo' = es"
    and "view' = view \<or> view' = publish (entries_of (backends (mo_cfg mo)) es) view"
proof -
  note sel = poll_sel [OF p]
  have m: "map bs_info (States (mo_health mo)) = backends (mo_cfg mo)" "length (backends (mo_cfg mo)) < 2 ^ 32"
    using mo C by (simp_all add: monitor_ok_def)
  show le: "length es = length (backends (mo_cfg mo))" using m(1) by (metis es_def enabled_flags_def length_map)
  have "cp_inv (mo_cfg mo) mo' view' \<and> mo_published mo' = es \<and> (view' = view \<or> view' = publish (entries_of (backends (mo_cfg mo)) es) view)" if c: "mo_control mo"
  proof -
    have inv: "cp_inv (mo_cfg mo) mo view" using mo c by (simp add: monitor_ok_def)
    obtain mo1 where h: "Monitor_PublishControl mo1 view = (mo', view')" "mo_health mo1 = mo_health mo" "cp_inv (mo_cfg mo) mo1 view"
      using poll_publish [OF p] inv by metis
    from Monitor_PublishControl_step [OF h(3) m(2) h(1)] h(2) show ?thesis by (simp add: es_def)
  qed
  then show "monitor_ok C view' mo'" "mo_control mo \<Longrightarrow> mo_published mo' = es"
    "view' = view \<or> view' = publish (entries_of (backends (mo_cfg mo)) es) view"
    using mo sel le by (auto simp: monitor_ok_def Tick_lcores)
qed

text \<open>The counters in the view are what they were at the launch and what the cores have received and transmitted since.\<close>

lemma padded_sum:
  assumes "length cs \<le> n"
  shows "(\<Sum>i\<leftarrow>[0..<n]. if i < length cs then f (cs ! i) else 0) = (\<Sum>c\<leftarrow>cs. f c :: nat)"
proof -
  have up: "[0..<n] = [0..<length cs] @ [length cs..<n]" using assms by (metis le_add_diff_inverse upt_add_eq_append zero_le)
  moreover have "(\<Sum>i\<leftarrow>[length cs..<n]. if i < length cs then f (cs ! i) else 0) = 0" by (simp add: sum_list_eq_0_iff)
  moreover have "map (\<lambda>i. if i < length cs then f (cs ! i) else 0) [0..<length cs] = map f cs" by (rule nth_equalityI) simp_all
  ultimately show ?thesis by (simp only: up map_append sum_list_append add_0_right)
qed

lemma find_core:
  assumes "\<And>i. i < length cs \<Longrightarrow> la_stats (co_arg (cs ! i)) = i"
  shows "find (\<lambda>c. la_stats (co_arg c) = i) cs = (if i < length cs then Some (cs ! i) else None)"
proof (cases "i < length cs")
  case True
  then have "la_stats (co_arg (cs ! i)) = i" "\<forall>j < i. la_stats (co_arg (cs ! j)) \<noteq> i" using assms by simp_all
  with True have "find (\<lambda>c. la_stats (co_arg c) = i) cs = Some (cs ! i)" unfolding find_Some_iff by blast
  with True show ?thesis by simp
next
  case False
  then show ?thesis using assms by (auto simp: find_None_iff in_set_conv_nth)
qed

lemma stats_totals:
  assumes n: "length cs \<le> kMaxLcores" and idx: "\<And>i. i < length cs \<Longrightarrow> la_stats (co_arg (cs ! i)) = i"
    and f: "\<And>i. i < length cs \<Longrightarrow> field (w_stats (co_world (cs ! i))) = field (S i) + of_nat (k (cs ! i))"
  shows "totals (stats_view S cs) kMaxLcores field = (\<Sum>i\<leftarrow>[0..<kMaxLcores]. field (S i)) + of_nat (\<Sum>c\<leftarrow>cs. k c)"
proof -
  let ?k = "\<lambda>i. if i < length cs then k (cs ! i) else 0"
  have "field (sv_lcores (stats_view S cs) ! i) = field (S i) + of_nat (?k i)" if "i < kMaxLcores" for i
    using that f [of i] by (simp add: stats_view_def find_core [OF idx])
  then have "totals (stats_view S cs) kMaxLcores field = (\<Sum>i\<leftarrow>[0..<kMaxLcores]. field (S i) + of_nat (?k i))"
    unfolding totals_def by (intro arg_cong [of _ _ sum_list]) (simp add: comp_def)
  also have "\<dots> = (\<Sum>i\<leftarrow>[0..<kMaxLcores]. field (S i)) + of_nat (\<Sum>i\<leftarrow>[0..<kMaxLcores]. ?k i)"
    by (simp add: sum_list_addf flip: sum_list_of_nat) (simp add: comp_def sum_list_of_nat)
  finally show ?thesis by (simp only: padded_sum [OF n])
qed

section \<open>Every step keeps the invariant\<close>

text \<open>Every core has an entry of the statistics view of its own.\<close>

lemma launch_stats:
  assumes l: "launch rc cfg (Inr pt) n = Inr args"
  shows "length args \<le> kMaxLcores" and "i < length args \<Longrightarrow> la_stats (args ! i) = i"
proof -
  show "length args \<le> kMaxLcores" using launch_length [OF l] launch_cases(2) [OF l] by simp
  show "la_stats (args ! i) = i" if i: "i < length args"
  proof (cases "2 \<le> unat (n - 1)")
    case True
    with distributor_roles(4) [OF l True i] show ?thesis by simp
  next
    case False
    then have "unat (n - 1) = 1" using launch_cases(1) [OF l] by simp
    with launch_cases(3) [OF l] i show ?thesis by (simp add: lcore_arg_def)
  qed
qed

lemma fleet_totals:
  assumes ok: "fleet_ok I D cfg V B Z rq K S args F" and l: "launch rc cfg (Inr pt) n = Inr args"
  shows "totals (stats_view S (fl_cores F)) kMaxLcores rx_packets = (\<Sum>i\<leftarrow>[0..<kMaxLcores]. rx_packets (S i)) + of_nat (received F)"
    and "totals (stats_view S (fl_cores F)) kMaxLcores tx_packets = (\<Sum>i\<leftarrow>[0..<kMaxLcores]. tx_packets (S i)) + of_nat (transmitted F)"
proof -
  have len: "length (fl_cores F) = length args" by (rule fleet_okD(1) [OF ok])
  have n: "length (fl_cores F) \<le> kMaxLcores" using launch_stats(1) [OF l] len by simp
  have idx: "la_stats (co_arg (fl_cores F ! i)) = i" if "i < length (fl_cores F)" for i
    using that fleet_okD(2) [OF ok] launch_stats(2) [OF l] len by simp
  have "counted (S i) (co_world (fl_cores F ! i))" if "i < length (fl_cores F)" for i
    using fleet_okD(3) [OF ok nth_mem [OF that]] idx [OF that] by (simp add: core_ok_def world_ok_def)
  then show "totals (stats_view S (fl_cores F)) kMaxLcores rx_packets = (\<Sum>i\<leftarrow>[0..<kMaxLcores]. rx_packets (S i)) + of_nat (received F)"
    and "totals (stats_view S (fl_cores F)) kMaxLcores tx_packets = (\<Sum>i\<leftarrow>[0..<kMaxLcores]. tx_packets (S i)) + of_nat (transmitted F)"
    unfolding received_def transmitted_def by (auto intro!: stats_totals [OF n idx] simp: counted_def)
qed

lemma poll_system_ok:
  assumes ok: "sys_ok I D cfg V B Z rq K S args C s" and l: "launch rc cfg (Inr pt) n = Inr args" and mo: "sy_monitor s = Some mo"
    and C: "\<forall>c \<in> C. length (backends c) < 2 ^ 32" and B: "\<forall>c \<in> C. served ` set (backends c) \<subseteq> B"
  shows "sys_ok I D cfg V B Z rq K S args C (poll_system S mo s)"
proof -
  let ?sv = "monitor_view mo (stats_view S (fl_cores (sy_fleet s)))"
  obtain mo' view' req where p: "poll ?sv mo (sy_view s) = (mo', view', req)" by (metis prod_cases3)
  let ?s = "poll_system S mo s" and ?es = "enabled_flags (States (mo_health mo))" and ?bs = "backends (mo_cfg mo)"
  have sel: "sy_fleet ?s = sy_fleet s" "sy_control ?s = sy_control s" "sy_view ?s = view'" "sy_monitor ?s = Some mo'"
    "sy_missed ?s = (if cv_seq view' = cv_seq (sy_view s) then sy_missed s else Suc (sy_missed s))"
    "sy_seen ?s = Some (received (sy_fleet s), transmitted (sy_fleet s))" "sy_rcu ?s = sy_rcu s" using p by (simp_all add: poll_system_def sy_rcu_def)
  have c: "control_ok B s" "fleet_ok I D cfg (with_cell (sy_rcu s) V) B Z rq K S args (sy_fleet s)" "monitor_ok C (sy_view s) mo"
    using ok mo by (simp_all add: sys_ok_def)
  have q: "Dataplane_Main.quiet (sy_view s)" using c(1) by (simp add: control_ok_def)
  note pl = poll_ok [OF c(3) C q p]
  have cc: "mo_cfg mo \<in> C" "sa_n_lcores (mo_agg mo) = kMaxLcores" using c(3) by (simp_all add: monitor_ok_def)
  have "control_ok B ?s"
  proof (cases "view' = sy_view s")
    case True
    with c(1) sel show ?thesis by (simp add: control_ok_def)
  next
    case False
    then have v: "view' = publish (entries_of ?bs ?es) (sy_view s)" using pl(4) by blast
    have "length (entries_of ?bs ?es) < 2 ^ 32" using C cc(1) pl(2) by (simp add: length_entries_of)
    note pq = publish_quiet [OF q this, folded v]
    have "slot_of ` set (contents view') \<subseteq> slot_of ` set (entries_of ?bs ?es)" unfolding pq(3) by (intro image_mono set_take_subset)
    also have "\<dots> = set (map slot_of (entries_of ?bs ?es))" by simp
    also have "\<dots> \<subseteq> B" using B cc(1) unfolding slots_entries_of [OF pl(2)] by auto
    finally have "slot_of ` set (contents view') \<subseteq> B" .
    with c(1) sel pq(1,2) show ?thesis by (simp add: control_ok_def algebra_simps)
  qed
  moreover have "seen_ok S mo' (received (sy_fleet s), transmitted (sy_fleet s))"
    using fleet_totals [OF c(2) l] poll_sel(2,5) [OF p] cc(2) Tick_eq [of "mo_agg mo" ?sv]
    by (simp add: seen_ok_def monitor_view_def kMaxLcores_def)
  ultimately show ?thesis using c(2) pl(1) sel by (simp add: sys_ok_def)
qed

text \<open>The control plane only publishes backends from \<open>B\<close>.\<close>

definition cp_sane :: "BackendInfo set \<Rightarrow> Config set \<Rightarrow> bool" where
  "cp_sane B C \<longleftrightarrow> (\<forall>c \<in> C. length (backends c) < 2 ^ 32 \<and> served ` set (backends c) \<subseteq> B)"

lemma monitor_start_ok:
  assumes "Monitor_new (Inr ccfg) url stats_att control_att = Inr mo" and "ccfg \<in> C" and "Dataplane_Main.quiet view"
  shows "monitor_ok C view mo"
  using assms by (auto simp: monitor_ok_def cp_inv_def Monitor_new_def Start_def States_def HealthChecker_new_def StatsAggregator_new_def comp_def)

lemma health_ok:
  assumes "monitor_ok C view mo" and "health_round sk (mo_health mo, w) = (h, w')"
  shows "monitor_ok C view (mo\<lparr>mo_health := h\<rparr>)"
  using assms(1) health_round_sel(1,5) [OF assms(2)] by (auto simp: monitor_ok_def cp_inv_def States_def)

lemma sys_step_ok:
  assumes hw: "hw_env D cfg V B rq K E" and l: "launch rc cfg (Inr pt) n = Inr args" and args: "fleet_args cfg args" and C: "cp_sane B C"
    and ok: "sys_ok I D cfg V B Z rq K S args C s" and step: "sys_step I D V E S sk C s s'"
  shows "sys_ok I D cfg V B Z rq K S args C s'"
  using step
proof (cases rule: sys_step_elim)
  case (dataplane F)
  have f: "fleet_ok I D cfg (with_cell (sy_rcu s) V) B Z rq K S args (sy_fleet s)" "control_ok B s" using ok by (simp_all add: sys_ok_def)
  have g: "good_cell B (sy_rcu s)" using f(2) by (simp add: control_ok_def)
  have "received (sy_fleet s) \<le> received F \<and> transmitted (sy_fleet s) \<le> transmitted F" by (rule fleet_step_grows [OF f(1) g dataplane(2)])
  with fleet_step_ok [OF hw_env_cell [OF hw g] args f(1) dataplane(2)] ok show ?thesis
    by (fastforce simp: dataplane(1) sys_ok_def control_ok_def sy_rcu_def)
next
  case (control st)
  have f: "fleet_ok I D cfg (with_cell (sy_rcu s) V) B Z rq K S args (sy_fleet s)" "control_ok B s" using ok by (simp_all add: sys_ok_def)
  note c = control_step_ok [OF f(2) control(3), folded control(1)]
  have "good_cell B (sy_rcu s')" using c by (simp add: control_ok_def)
  then have "dev_ok (with_cell (sy_rcu s') V)" using hw_env_cell [OF hw] by (simp add: fleet_env_def)
  moreover have "heads D (with_cell (sy_rcu s') V) Z" using f(1) by (simp add: fleet_ok_def)
  ultimately have "fleet_ok I D cfg (with_cell (sy_rcu s') V) B Z rq K S args (sy_fleet s)" by (rule fleet_ok_dev [OF f(1)])
  with c ok show ?thesis by (simp add: sys_ok_def) (simp add: control(1))
next
  case (start ccfg url stats_att control_att mo)
  have "Dataplane_Main.quiet (sy_view s)" using ok by (simp add: sys_ok_def control_ok_def)
  from monitor_start_ok [OF start(4,3) this] ok show ?thesis by (simp add: start(1) sys_ok_def control_ok_def sy_rcu_def)
next
  case stop
  with ok show ?thesis by (simp add: sys_ok_def control_ok_def sy_rcu_def)
next
  case (health mo h w)
  from health_ok [OF _ health(4), of C "sy_view s"] ok health(2) show ?thesis
    by (simp add: health(1) sys_ok_def control_ok_def sy_rcu_def seen_ok_def)
next
  case (poll mo)
  from poll_system_ok [OF ok l poll(2)] C show ?thesis by (simp add: poll(1) cp_sane_def)
qed

lemma sys_reach_ok:
  assumes "hw_env D cfg V B rq K E" and "launch rc cfg (Inr pt) n = Inr args" and "fleet_args cfg args" and "cp_sane B C"
    and "(sys_step I D V E S sk C)\<^sup>*\<^sup>* s s'" and "sys_ok I D cfg V B Z rq K S args C s"
  shows "sys_ok I D cfg V B Z rq K S args C s'"
  using assms(5,6) by (induction rule: rtranclp_induct) (auto intro: sys_step_ok [OF assms(1-4)])

section \<open>The start\<close>

lemma RunDataplane_eq:
  assumes q: "Dataplane_Main.quiet view0" and snap: "length snapshot0 = kMaxBackends" and cfg: "length (backends cfg) < 2 ^ 32"
  defines "view \<equiv> SeedControl view0 cfg"
  shows "RunDataplane rc cfg port n view0 snapshot0 = Some (bind_r (launch rc cfg port n) (\<lambda>args.
      Inr (view, \<lparr>rcu_ptr = Some (pool_of (contents view))\<rparr>, cv_seq view, args)))"
    and "Dataplane_Main.quiet view" and "built_pool (pool_of (contents view))" and "contents view = map seed_entry (take kMaxBackends (backends cfg))"
proof -
  have v: "view = publish (map seed_entry (backends cfg)) view0" by (simp add: SeedControl_def publish_def view_def)
  have "length (map seed_entry (backends cfg)) < 2 ^ 32" using cfg by simp
  note p = publish_quiet [OF q this, folded v]
  obtain s where s: "ReadControl view snapshot0 = Some (cv_seq view, cv_count view, s)"
    "BuildPool s (cv_count view) = Some (Inr (pool_of (contents view)))" "built_pool (pool_of (contents view))"
    by (rule poll_once [OF p(1) snap])
  then show "RunDataplane rc cfg port n view0 snapshot0 = Some (bind_r (launch rc cfg port n) (\<lambda>args.
      Inr (view, \<lparr>rcu_ptr = Some (pool_of (contents view))\<rparr>, cv_seq view, args)))"
    by (simp add: RunDataplane_def view_def Let_def Rcu_Store_eq)
  from p s(3) show "Dataplane_Main.quiet view" "built_pool (pool_of (contents view))"
    "contents view = map seed_entry (take kMaxBackends (backends cfg))" by (simp_all add: take_map)
qed

lemma RunDataplane_launched:
  assumes run: "RunDataplane rc cfg (Inr pt) n view0 snapshot0 = Some (Inr (view, rcu, seq, args))" and q: "Dataplane_Main.quiet view0"
    and snap: "length snapshot0 = kMaxBackends" and cfg: "length (backends cfg) < 2 ^ 32"
  shows "launch rc cfg (Inr pt) n = Inr args" and "Dataplane_Main.quiet view" and "seq = cv_seq view"
    and "rcu = \<lparr>rcu_ptr = Some (pool_of (contents view))\<rparr>" and "built_pool (pool_of (contents view))"
    and "contents view = map seed_entry (take kMaxBackends (backends cfg))"
proof -
  note eq = RunDataplane_eq [OF q snap cfg]
  have "launch rc cfg (Inr pt) n = Inr args \<and> view = SeedControl view0 cfg \<and> rcu = \<lparr>rcu_ptr = Some (pool_of (contents view))\<rparr> \<and> seq = cv_seq view"
    using run unfolding eq(1) by (auto simp: bind_r_def split: sum.splits)
  with eq(2-4) show "launch rc cfg (Inr pt) n = Inr args" "Dataplane_Main.quiet view" "seq = cv_seq view"
    "rcu = \<lparr>rcu_ptr = Some (pool_of (contents view))\<rparr>" "built_pool (pool_of (contents view))"
    "contents view = map seed_entry (take kMaxBackends (backends cfg))" by simp_all
qed

text \<open>The situation all theorems below start from: the dataplane has come up on devices that keep their promises, on a
  shared view that is not torn, and the control plane will be started with the given configurations.\<close>

definition comes_up :: "dpdk \<Rightarrow> 'd dev \<Rightarrow> ('d \<Rightarrow> 'd \<Rightarrow> bool) \<Rightarrow> ('d \<Rightarrow> nat \<Rightarrow> mbuf list) \<Rightarrow> ('d \<Rightarrow> bool) \<Rightarrow> Config set \<Rightarrow> ring_create \<Rightarrow> Config
    \<Rightarrow> DpdkPort \<Rightarrow> u32 \<Rightarrow> ControlView \<Rightarrow> ControlBackend list \<Rightarrow> 'd \<Rightarrow> (ControlView \<times> BackendPool AtomicRcu \<times> u32 \<times> LcoreArg list) \<Rightarrow> bool" where
  "comes_up D V E rq K C rc cfg pt n view0 snapshot d up \<longleftrightarrow> hw_env D cfg V (known cfg C) rq K E \<and> rings_named rc \<and> K d \<and> (\<forall>r. rq d r = [])
     \<and> Dataplane_Main.quiet view0 \<and> length snapshot = kMaxBackends \<and> length (backends cfg) < 2 ^ 32 \<and> (\<forall>c \<in> C. length (backends c) < 2 ^ 32)
     \<and> RunDataplane rc cfg (Inr pt) n view0 snapshot = Some (Inr up)"

lemma system_started:
  assumes up: "comes_up D V E rq K C rc cfg pt n view0 snapshot d (view, rcu, seq, args)" and h: "heads D V Z"
  obtains cs where "start_cores S d args = Some (Inr cs)" "launch rc cfg (Inr pt) n = Inr args" "length cs = length args" "fleet_args cfg args"
    "\<forall>s. (sys_step I D V E S sk C)\<^sup>*\<^sup>* (system_of d cs view rcu seq snapshot w) s \<longrightarrow> sys_ok I D cfg V (known cfg C) Z rq K S args C s"
proof -
  let ?B = "known cfg C"
  have u: "hw_env D cfg V ?B rq K E" "rings_named rc" "K d" "\<forall>r. rq d r = []" "Dataplane_Main.quiet view0" "length snapshot = kMaxBackends"
    "length (backends cfg) < 2 ^ 32" "\<forall>c \<in> C. length (backends c) < 2 ^ 32" "RunDataplane rc cfg (Inr pt) n view0 snapshot = Some (Inr (view, rcu, seq, args))"
    using up by (simp_all add: comes_up_def)
  note r = RunDataplane_launched [OF u(9,5,6,7)]
  have slots: "slot_of ` set (contents view) \<subseteq> ?B"
    unfolding r(6) by (auto simp: known_def served_def dest: in_set_takeD)
  then have cell: "good_cell ?B rcu" using r(4,5) by (simp add: good_cell_def pool_slots)
  have "heads D (with_cell rcu V) Z" using h by simp
  then obtain cs where cs: "start_cores S d args = Some (Inr cs)" "fleet_args cfg args" "fleet_ok I D cfg (with_cell rcu V) ?B Z rq K S args (fleet_of d cs)"
    "length cs = length args" by (rule fleet_started [OF hw_env_cell [OF u(1) cell] _ r(1) u(2-4)])
  have ok: "sys_ok I D cfg V ?B Z rq K S args C (system_of d cs view rcu seq snapshot w)"
    using cs(3) cell slots u(6) r(2,3,4) by (simp add: sys_ok_def control_ok_def system_of_def sy_rcu_def)
  have "cp_sane ?B C" using u(8) by (auto simp: cp_sane_def known_def)
  from sys_reach_ok [OF u(1) r(1) cs(2) this _ ok] that cs r(1) show ?thesis by blast
qed

end
