(* ===== verification/Wire_Runs.thy ===== *)
theory Wire_Runs
  imports Whole_System
begin

text \<open>
  From the invariant, which is relative to a set \<open>Z\<close> of buffers in which packets with a short header may arrive, to single runs,
  of which nothing is assumed. A run in which the packets with short headers that arrived were all in buffers of \<open>Z\<close> is also a run
  with a port that only ever delivers such packets, so the invariant for \<open>Z\<close> holds at its end.
\<close>

section \<open>A port that keeps short headers to the given buffers\<close>

definition strict :: "dpdk \<Rightarrow> nat set \<Rightarrow> 'd dev \<Rightarrow> 'd dev" where
  "strict D Z V = V\<lparr>eth_rx_burst := (\<lambda>p q n d.
     if \<forall>m \<in> set (fst (eth_rx_burst V p q n d)). whole D Z m then eth_rx_burst V p q n d else ([], d))\<rparr>"

lemma strict_sel [simp]:
  "eth_tx_burst (strict D Z V) = eth_tx_burst V" "ring_dequeue_burst (strict D Z V) = ring_dequeue_burst V"
  "ring_enqueue_burst (strict D Z V) = ring_enqueue_burst V" "ring_enqueue (strict D Z V) = ring_enqueue V" "rcu_load (strict D Z V) = rcu_load V"
  "timer_cycles (strict D Z V) = timer_cycles V" "timer_hz (strict D Z V) = timer_hz V"
  by (simp_all add: strict_def)

lemma strict_rx: "eth_rx_burst (strict D Z V) p q n d =
    (if \<forall>m \<in> set (fst (eth_rx_burst V p q n d)). whole D Z m then eth_rx_burst V p q n d else ([], d))"
  by (simp add: strict_def)

lemma strict_cell: "with_cell rcu (strict D Z V) = strict D Z (with_cell rcu V)"
  by (cases V) (simp add: with_cell_def strict_def cong: if_cong)

lemma strict_heads: "heads D (strict D Z V) Z"
  by (auto simp: heads_def strict_rx)

lemma strict_hw:
  assumes "hw_env D cfg V B rq K E"
  shows "hw_env D cfg (strict D Z V) B rq K E"
proof -
  let ?V = "with_cell \<lparr>rcu_ptr = None\<rparr> V"
  have h: "dev_ok ?V" "ring_laws ?V rq" "nic_ok D cfg ?V B K" "\<forall>d d'. E d d' \<longrightarrow> K d \<longrightarrow> K d' \<and> rq d' = rq d"
    using assms by (simp_all add: hw_env_def fleet_env_def)
  have "dev_ok (strict D Z ?V)" using h(1) by (auto simp: dev_ok_def strict_rx)
  moreover have "ring_laws (strict D Z ?V) rq" using h(2) by (auto simp: ring_laws_def strict_rx)
  moreover have "nic_ok D cfg (strict D Z ?V) B K" using h(3) by (auto simp: nic_ok_def strict_rx)
  ultimately show ?thesis using h(4) by (simp add: hw_env_def fleet_env_def strict_cell)
qed

lemma strict_up:
  assumes "comes_up D V E rq K C rc cfg pt n view0 snapshot d up"
  shows "comes_up D (strict D Z V) E rq K C rc cfg pt n view0 snapshot d up"
  using assms strict_hw by (auto simp: comes_up_def)

section \<open>Runs with that port\<close>

lemma Steer_loop_strict: "Steer_loop I D cfg (strict D' Z V) rings n ms w nexts = Steer_loop I D cfg V rings n ms w nexts"
proof (induction ms arbitrary: w nexts)
  case (Cons m ms)
  have "Steer_loop I D cfg (strict D' Z V) rings n ms = Steer_loop I D cfg V rings n ms" by (intro ext Cons.IH)
  then show ?case unfolding Steer_loop.simps strict_sel by (elim ssubst) (rule refl)
qed simp

lemma others_strict:
  "Tx_Process (strict D Z V) p q w ms nexts = Tx_Process V p q w ms nexts" "LbN_Process I (strict D Z V) w ms nexts = LbN_Process I V w ms nexts"
  "RingTx_Process (strict D Z V) r w ms nexts = RingTx_Process V r w ms nexts" "RingRx_Process (strict D Z V) r w nexts = RingRx_Process V r w nexts"
  "Steer_Process I D cfg (strict D Z V) rings k w ms nexts = Steer_Process I D cfg V rings k w ms nexts"
  unfolding Tx_Process_def LbN_Process_def RingTx_Process_def RingRx_Process_def Steer_Process_def strict_sel Steer_loop_strict by (rule refl)+

lemma Process_strict:
  assumes run: "Process I D cfg V nd w x nexts = Inr (w', x', outs)" and "\<forall>m \<in> set (w_received w'). whole D Z m"
  shows "Process I D cfg (strict D Z V) nd w x nexts = Inr (w', x', outs)"
proof (cases nd)
  case (RxNode p q)
  with assms have "\<forall>m \<in> set (fst (eth_rx_burst V p q kBurstSize (w_dev w))). whole D Z m"
    by (auto simp: Rx_Process_def Let_def bind_r_def add_rx_def case_prod_beta split: sum.splits)
  with run RxNode show ?thesis by (simp add: Rx_Process_def strict_rx)
qed (use run in \<open>simp_all add: others_strict\<close>)

lemma core_step_strict:
  assumes step: "core_step I D V running c d = Inr (c', d')" and "\<forall>m \<in> set (w_received (co_world c')). whole D Z m"
  shows "core_step I D (strict D Z V) running c d = Inr (c', d')"
proof (cases "\<exists>k n f fs. co_pc c = kPass k (Some (n, f # fs))")
  case True
  then obtain k n f fs where pc: "co_pc c = kPass k (Some (n, f # fs))" by blast
  let ?g = "core_graph c k" and ?cfg = "la_cfg (co_arg c)" and ?w = "(co_world c)\<lparr>w_dev := d\<rparr>"
  have "\<exists>st'. RunNode (proc_of I D ?cfg V ?g) ?g n f ?w (co_disps c ! k) = Inr (co_world c', st')"
    using step pc by (auto simp: core_step_def bind_r_def split: sum.splits)
  then obtain x' outs where run: "Process I D ?cfg V (gr_nodes ?g ! n) ?w (frame_at (co_disps c ! k) f) (replicate (Fanout ?g n) []) = Inr (co_world c', x', outs)"
    using RunNode_process by (fastforce simp: proc_of_def)
  from step pc show ?thesis by (simp add: core_step_def RunNode_def proc_of_def run Process_strict [OF run assms(2)])
next
  case False
  with step show ?thesis by (auto simp: core_step_def Let_def split: core_pc.splits option.splits list.splits if_splits prod.splits)
qed

text \<open>A packet that any core has received.\<close>

definition arrived :: "'d fleet \<Rightarrow> mbuf \<Rightarrow> bool" where
  "arrived F m \<longleftrightarrow> (\<exists>c \<in> set (fl_cores F). m \<in> set (w_received (co_world c)))"

lemma core_step_received:
  assumes step: "core_step I D V running c d = Inr (c', d')"
  shows "set (w_received (co_world c)) \<subseteq> set (w_received (co_world c'))"
proof (cases "\<exists>k n f fs. co_pc c = kPass k (Some (n, f # fs))")
  case True
  then obtain k n f fs where pc: "co_pc c = kPass k (Some (n, f # fs))" by blast
  let ?g = "core_graph c k" and ?cfg = "la_cfg (co_arg c)" and ?w = "(co_world c)\<lparr>w_dev := d\<rparr>"
  have "\<exists>st'. RunNode (proc_of I D ?cfg V ?g) ?g n f ?w (co_disps c ! k) = Inr (co_world c', st')"
    using step pc by (auto simp: core_step_def bind_r_def split: sum.splits)
  then obtain x' outs where run: "Process I D ?cfg V (gr_nodes ?g ! n) ?w (frame_at (co_disps c ! k) f) (replicate (Fanout ?g n) []) = Inr (co_world c', x', outs)"
    using RunNode_process by (fastforce simp: proc_of_def)
  from Process_world(1) [OF run] show ?thesis by (auto simp: grown_def dest: set_mono_prefix)
next
  case False
  then have "co_world c' = co_world c"
    using step by (auto simp: core_step_def Let_def begin_pass_def split: core_pc.splits option.splits list.splits if_splits prod.splits)
  then show ?thesis by simp
qed

lemma fleet_step_strict:
  assumes step: "fleet_step I D V E F F'"
  shows "arrived F m \<Longrightarrow> arrived F' m" and "(\<And>m. arrived F' m \<Longrightarrow> whole D Z m) \<Longrightarrow> fleet_step I D (strict D Z V) E F F'"
proof -
  have "(arrived F m \<longrightarrow> arrived F' m) \<and> ((\<forall>m. arrived F' m \<longrightarrow> whole D Z m) \<longrightarrow> fleet_step I D (strict D Z V) E F F')" for m
    using step
  proof cases
    case (core i)
    have i: "i < length (fl_cores F)" using core(1) by (simp add: core_live_def)
    obtain c d where h: "core_step I D V (fl_running F) (fl_cores F ! i) (fl_dev F) = Inr (c, d)"
      "F' = F\<lparr>fl_dev := d, fl_cores := (fl_cores F)[i := c]\<rparr>" using core(2) by (auto simp: fleet_core_def bind_r_def split: sum.splits)
    have c: "c \<in> set (fl_cores F')" using i by (simp add: h(2) set_update_memI)
    have "arrived F' m" if a: "arrived F m"
    proof -
      obtain j where j: "j < length (fl_cores F)" "m \<in> set (w_received (co_world (fl_cores F ! j)))"
        using a unfolding arrived_def by (metis in_set_conv_nth)
      show ?thesis
      proof (cases "j = i")
        case True
        with j(2) core_step_received [OF h(1)] c show ?thesis by (auto simp: arrived_def)
      next
        case False
        then have "fl_cores F' ! j = fl_cores F ! j" "j < length (fl_cores F')" using j(1) by (simp_all add: h(2))
        with j(2) show ?thesis unfolding arrived_def by (metis nth_mem)
      qed
    qed
    moreover have "fleet_step I D (strict D Z V) E F F'" if a: "\<forall>m. arrived F' m \<longrightarrow> whole D Z m"
    proof -
      have "\<forall>m \<in> set (w_received (co_world c)). whole D Z m" using a c by (auto simp: arrived_def)
      from core_step_strict [OF h(1) this] have "fleet_core I D (strict D Z V) i F = Inr F'" by (simp add: fleet_core_def h(2))
      with core(1) show ?thesis by (rule fleet_step.core)
    qed
    ultimately show ?thesis by blast
  qed (auto simp: arrived_def OnSignal_def intro: fleet_step.intros fleet_step.signal [unfolded OnSignal_def])
  then show "arrived F m \<Longrightarrow> arrived F' m" "(\<And>m. arrived F' m \<Longrightarrow> whole D Z m) \<Longrightarrow> fleet_step I D (strict D Z V) E F F'" by blast+
qed

lemma sys_step_strict:
  assumes step: "sys_step I D V E S sk C s s'"
  shows "arrived (sy_fleet s) m \<Longrightarrow> arrived (sy_fleet s') m"
    and "(\<And>m. arrived (sy_fleet s') m \<Longrightarrow> whole D Z m) \<Longrightarrow> sys_step I D (strict D Z V) E S sk C s s'"
proof -
  show "arrived (sy_fleet s) m \<Longrightarrow> arrived (sy_fleet s') m"
    using step by (cases rule: sys_step_elim) (auto simp: poll_system_def dest: fleet_step_strict(1) split: prod.splits)
  show "sys_step I D (strict D Z V) E S sk C s s'" if a: "\<And>m. arrived (sy_fleet s') m \<Longrightarrow> whole D Z m"
    using step
  proof cases
    case dp
    then show ?thesis
    proof cases
      case (dataplane F)
      then have "fleet_step I D (with_cell (sy_rcu s) (strict D Z V)) E (sy_fleet s) F"
        using fleet_step_strict(2) [OF dataplane(2)] a by (simp add: strict_cell)
      then show ?thesis unfolding dataplane(1) by (intro sys_step.dp dp_step.dataplane)
    next
      case (control st)
      then show ?thesis unfolding control(1) by (intro sys_step.dp dp_step.control)
    qed
  qed (rule sys_step.cp)
qed

lemma sys_reach_strict:
  assumes "(sys_step I D V E S sk C)\<^sup>*\<^sup>* s s'" and "\<And>m. arrived (sy_fleet s') m \<Longrightarrow> whole D Z m"
  shows "(sys_step I D (strict D Z V) E S sk C)\<^sup>*\<^sup>* s s'"
  using assms
proof (induction rule: rtranclp_induct)
  case (step t t')
  have "(sys_step I D (strict D Z V) E S sk C)\<^sup>*\<^sup>* s t" using step.IH step.prems sys_step_strict(1) [OF step.hyps(2)] by blast
  moreover have "sys_step I D (strict D Z V) E S sk C t t'" by (rule sys_step_strict(2) [OF step.hyps(2) step.prems])
  ultimately show ?case by (rule rtranclp.rtrancl_into_rtrancl)
qed simp

section \<open>What is transmitted\<close>

text \<open>A frame is fit for the wire when no packet with a short header came in under its identity.\<close>

lemma sent_on_the_wire:
  assumes up: "comes_up D V E rq K C rc cfg pt n view0 snapshot d (view, rcu, seq, args)" and cs: "start_cores S d args = Some (Inr cs)"
    and r: "(sys_step I D V E S sk C)\<^sup>*\<^sup>* (system_of d cs view rcu seq snapshot w) s"
    and c: "c \<in> set (fl_cores (sy_fleet s))" "m \<in> set (w_sent (co_world c))"
    and long: "\<And>p. arrived (sy_fleet s) p \<Longrightarrow> mb_id p = mb_id m \<Longrightarrow> long_header D p"
  shows "wire_ok D cfg (known cfg C) m"
proof -
  let ?Z = "- {mb_id m}"
  let ?V = "strict D ?Z V"
  obtain cs' where h: "start_cores S d args = Some (Inr cs')" "fleet_args cfg args"
    "\<forall>s. (sys_step I D ?V E S sk C)\<^sup>*\<^sup>* (system_of d cs' view rcu seq snapshot w) s \<longrightarrow> sys_ok I D cfg ?V (known cfg C) ?Z rq K S args C s"
    by (rule system_started [OF strict_up [OF up] strict_heads])
  have "(sys_step I D ?V E S sk C)\<^sup>*\<^sup>* (system_of d cs view rcu seq snapshot w) s"
    using long by (intro sys_reach_strict [OF r]) (auto simp: whole_def)
  then have "sys_ok I D cfg ?V (known cfg C) ?Z rq K S args C s" using h(1,3) cs by simp
  then have ok: "fleet_ok I D cfg (with_cell (sy_rcu s) ?V) (known cfg C) ?Z rq K S args (sy_fleet s)" by (simp add: sys_ok_def)
  have "la_cfg (co_arg c) = cfg" using fleet_okD(5) [OF ok c(1)] h(2) unfolding fleet_args_def by blast
  with fleet_okD(3) [OF ok c(1)] c(2) show ?thesis by (auto simp: core_ok_def local_frames_def sendable_def)
qed

end
