(* ===== verification/Whole_Props.thy ===== *)
theory Whole_Props
  imports Wire_Runs
begin

text \<open>
  What holds of the whole program in every state that the dataplane, the network, a signal and a control plane that comes and goes can bring about: nothing
  aborts and no packet is lost, the pool follows the health checker, a backend that is down gets no new connection, the rates on the
  API are the packets that went through, and a signal stops the dataplane whatever the control plane does.
\<close>

section \<open>The program as a whole\<close>

text \<open>
  C1. Nothing the program does stops it. The dataplane comes up, and then its cores, its control thread, the network card, a
  signal, and a control plane that is started and stopped at will (with any of the configurations \<open>C\<close>, and whether or not it could attach the
  shared views) act in any order. In every state they reach: no core aborts, with the pool that is in the cell at that moment; the
  control loop's next round returns; every packet received is transmitted, freed, with a core or on a ring, exactly once; and
  a frame transmitted is fit for the wire and, when it goes to a backend, goes to one that the dataplane's configuration or one of
  the control plane's names, unless the packet received under its identity claims an IPv4 header of less than 20 bytes (no node rejects
  such a packet, and \<open>short_header_overwritten\<close> shows what becomes of it). Nothing is assumed of the packets that arrive.
\<close>

theorem system_safe:
  assumes up: "comes_up D V E rq K C rc cfg pt n view0 snapshot d (view, rcu, seq, args)"
  shows "\<exists>cs. start_cores S d args = Some (Inr cs) \<and> (\<forall>s. (sys_step I D V E S sk C)\<^sup>*\<^sup>* (system_of d cs view rcu seq snapshot w) s \<longrightarrow>
      (\<forall>i. core_live i (sy_fleet s) \<longrightarrow> (\<exists>F. fleet_core I D (with_cell (sy_rcu s) V) i (sy_fleet s) = Inr F))
    \<and> (\<exists>st. control_round (sy_view s) (sy_control s) = Some (Inr st))
    \<and> (\<Sum>c\<leftarrow>fl_cores (sy_fleet s). ids (w_received (co_world c))) =
        (\<Sum>c\<leftarrow>fl_cores (sy_fleet s). ids (w_sent (co_world c)) + ids (w_freed (co_world c)) + image_mset mb_id (core_flight c))
        + (\<Sum>r\<in>fleet_rings args. ids (rq (fl_dev (sy_fleet s)) r))
    \<and> (\<forall>c \<in> set (fl_cores (sy_fleet s)). \<forall>m \<in> set (w_sent (co_world c)).
        (\<forall>p. arrived (sy_fleet s) p \<and> mb_id p = mb_id m \<longrightarrow> long_header D p) \<longrightarrow> wire_ok D cfg (known cfg C) m))"
proof -
  have hw: "hw_env D cfg V (known cfg C) rq K E" using up by (simp add: comes_up_def)
  obtain cs where cs: "start_cores S d args = Some (Inr cs)" "fleet_args cfg args"
    "\<forall>s. (sys_step I D V E S sk C)\<^sup>*\<^sup>* (system_of d cs view rcu seq snapshot w) s \<longrightarrow> sys_ok I D cfg V (known cfg C) UNIV rq K S args C s"
    by (rule system_started [OF up heads_UNIV])
  show ?thesis
  proof (intro exI [of _ cs] conjI allI impI cs(1))
    fix s :: "('a, 'b) system"
    assume r: "(sys_step I D V E S sk C)\<^sup>*\<^sup>* (system_of d cs view rcu seq snapshot w) s"
    have ok: "fleet_ok I D cfg (with_cell (sy_rcu s) V) (known cfg C) UNIV rq K S args (sy_fleet s)" "control_ok (known cfg C) s"
      using cs(3) r by (simp_all add: sys_ok_def)
    have g: "good_cell (known cfg C) (sy_rcu s)" using ok(2) by (simp add: control_ok_def)
    show "\<exists>F. fleet_core I D (with_cell (sy_rcu s) V) i (sy_fleet s) = Inr F" if "core_live i (sy_fleet s)" for i
      by (rule fleet_live_step [OF hw_env_cell [OF hw g] cs(2) ok(1) that])
    show "\<exists>st. control_round (sy_view s) (sy_control s) = Some (Inr st)" using control_round_eq [OF ok(2)] by blast
    show "(\<Sum>c\<leftarrow>fl_cores (sy_fleet s). ids (w_received (co_world c))) =
        (\<Sum>c\<leftarrow>fl_cores (sy_fleet s). ids (w_sent (co_world c)) + ids (w_freed (co_world c)) + image_mset mb_id (core_flight c))
        + (\<Sum>r\<in>fleet_rings args. ids (rq (fl_dev (sy_fleet s)) r))" by (rule fleet_balance [OF ok(1)])
    show "\<forall>c \<in> set (fl_cores (sy_fleet s)). \<forall>m \<in> set (w_sent (co_world c)).
        (\<forall>p. arrived (sy_fleet s) p \<and> mb_id p = mb_id m \<longrightarrow> long_header D p) \<longrightarrow> wire_ok D cfg (known cfg C) m"
      using sent_on_the_wire [OF up cs(1) r] by blast
  qed
qed

text \<open>The pool of what the monitor has published.\<close>

lemma take_entries_of: "take k (entries_of bs es) = entries_of (take k bs) (take k es)"
  by (simp add: entries_of_def take_map take_zip)

lemma published_pool:
  assumes ok: "sys_ok I D cfg V B Z rq K S args C s" and mo: "sy_monitor s = Some mo" "mo_control mo" "mo_published mo \<noteq> []"
  defines "bs \<equiv> take kMaxBackends (backends (mo_cfg mo))"
  shows "bp_slots (pool_of (contents (sy_view s))) = map served bs"
    and "bp_active (pool_of (contents (sy_view s))) = map of_nat (filter (\<lambda>i. mo_published mo ! i \<noteq> 0) [0..<length bs])"
proof -
  let ?es = "take kMaxBackends (mo_published mo)"
  have "cp_inv (mo_cfg mo) mo (sy_view s)" and len: "length (mo_published mo) = length (backends (mo_cfg mo))"
    using ok mo by (simp_all add: sys_ok_def monitor_ok_def)
  then have c: "contents (sy_view s) = entries_of bs ?es" using mo(3) by (simp add: cp_inv_def take_entries_of bs_def)
  have le: "length ?es = length bs" "length bs \<le> kMaxBackends" using len by (simp_all add: bs_def)
  have "filter (\<lambda>i. ?es ! i \<noteq> 0) [0..<length bs] = filter (\<lambda>i. mo_published mo ! i \<noteq> 0) [0..<length bs]"
    using le(2) by (intro filter_cong) auto
  with c slots_entries_of [OF le(1)] active_of_entries [OF le] show "bp_slots (pool_of (contents (sy_view s))) = map served bs"
    "bp_active (pool_of (contents (sy_view s))) = map of_nat (filter (\<lambda>i. mo_published mo ! i \<noteq> 0) [0..<length bs])"
    by (simp_all add: pool_slots)
qed

lemma flows_published:
  assumes f: "flows_from t pool f" and pool: "bp_slots pool = map served bs" "bp_active pool = map of_nat (filter (\<lambda>i. es ! i \<noteq> 0) [0..<length bs])"
    and few: "length bs \<le> kMaxBackends"
  shows "core f \<in> core ` {g \<in> set (nt_slots t). live g}
    \<or> (\<exists>b < length bs. backend_idx f = of_nat b \<and> es ! b \<noteq> 0 \<and> backend_ip f = ip_value (bi_ip (bs ! b)) \<and> backend_port f = bi_port (bs ! b))"
proof (cases "core f \<in> core ` {g \<in> set (nt_slots t). live g}")
  case False
  then obtain b where b: "b < length bs" "es ! b \<noteq> 0" "unat (of_nat b :: u8) < length bs" "backend_idx f = of_nat b"
    "backend_ip f = ip_value (bi_ip (map served bs ! unat (of_nat b :: u8)))" "backend_port f = bi_port (map served bs ! unat (of_nat b :: u8))"
    using f by (auto simp: flows_from_def pool)
  moreover have "unat (of_nat b :: u8) = b" using b(1) few by (simp add: unat_of_nat take_bit_nat_eq_self kMaxBackends_def)
  ultimately show ?thesis by (auto simp: served_def slot_of_def seed_entry_def)
qed simp

lemma poll_system_monitor:
  assumes ok: "sys_ok I D cfg V B Z rq K S args C s" and mo: "sy_monitor s = Some mo" "mo_control mo"
    and C: "\<forall>c \<in> C. length (backends c) < 2 ^ 32"
  obtains mo' where "sy_monitor (poll_system S mo s) = Some mo'" "mo_cfg mo' = mo_cfg mo" "mo_control mo'"
    "mo_published mo' = enabled_flags (States (mo_health mo))" "length (States (mo_health mo)) = length (backends (mo_cfg mo))"
proof -
  let ?sv = "monitor_view mo (stats_view S (fl_cores (sy_fleet s)))"
  obtain mo' view' req where p: "poll ?sv mo (sy_view s) = (mo', view', req)" by (metis prod_cases3)
  have c: "monitor_ok C (sy_view s) mo" "Dataplane_Main.quiet (sy_view s)" using ok mo by (simp_all add: sys_ok_def control_ok_def)
  note pl = poll_ok [OF c(1) C c(2) p] and sel = poll_sel [OF p]
  have "sy_monitor (poll_system S mo s) = Some mo'" using p by (simp add: poll_system_def)
  with that [of mo'] pl(2,3) sel(1,3) mo(2) show ?thesis by (simp add: enabled_flags_def)
qed

lemma polled_pool:
  assumes ok: "sys_ok I D cfg V B Z rq K S args C s" "sys_ok I D cfg V B Z rq K S args C (poll_system S mo s)" "control_ok B s'"
    and mo: "sy_monitor s = Some mo" "mo_control mo" and C: "\<forall>c \<in> C. length (backends c) < 2 ^ 32"
    and n: "backends (mo_cfg mo) \<noteq> []"
    and v: "sy_view s' = sy_view (poll_system S mo s)" and few: "sy_missed s' < 2 ^ 31"
  defines "bs \<equiv> take kMaxBackends (backends (mo_cfg mo))"
  shows "\<exists>pool snap. control_round (sy_view s') (sy_control s') = Some (Inr (snap, \<lparr>rcu_ptr = Some pool\<rparr>, cv_seq (sy_view s')))
        \<and> map bi_ip (bp_slots pool) = map bi_ip bs \<and> map bi_port (bp_slots pool) = map bi_port bs
        \<and> bp_active pool = map of_nat (filter (\<lambda>i. bs_status (States (mo_health mo) ! i) = kUp) [0..<length bs])
        \<and> (sy_missed s' = 0 \<longrightarrow> sy_rcu s' = \<lparr>rcu_ptr = Some pool\<rparr>)"
proof -
  obtain mo' where m: "sy_monitor (poll_system S mo s) = Some mo'" "mo_cfg mo' = mo_cfg mo" "mo_control mo'"
    "mo_published mo' = enabled_flags (States (mo_health mo))" "length (States (mo_health mo)) = length (backends (mo_cfg mo))"
    by (rule poll_system_monitor [OF ok(1) mo C])
  let ?pool = "pool_of (contents (sy_view s'))"
  have "mo_published mo' \<noteq> []" using n m(4,5) by (auto simp: enabled_flags_def)
  note pp = published_pool [OF ok(2) m(1,3) this, folded v, unfolded m(2,4), folded bs_def]
  have "filter (\<lambda>i. enabled_flags (States (mo_health mo)) ! i \<noteq> 0) [0..<length bs] =
      filter (\<lambda>i. bs_status (States (mo_health mo) ! i) = kUp) [0..<length bs]"
    using m(5) by (intro filter_cong) (simp_all add: enabled_flags_def bs_def)
  then have "bp_active ?pool = map of_nat (filter (\<lambda>i. bs_status (States (mo_health mo) ! i) = kUp) [0..<length bs])"
    using pp(2) by simp
  moreover have "map bi_ip (bp_slots ?pool) = map bi_ip bs" "map bi_port (bp_slots ?pool) = map bi_port bs"
    unfolding pp(1) by (simp_all add: served_def slot_of_def seed_entry_def comp_def)
  moreover have "sy_missed s' = 0 \<longrightarrow> sy_rcu s' = \<lparr>rcu_ptr = Some ?pool\<rparr>" using ok(3) by (simp add: control_ok_def)
  ultimately show ?thesis using control_round_ok [OF ok(3) few] by (intro exI [of _ ?pool]) simp
qed

text \<open>
  C2. The pool the cores balance over is what the health checker found. Take any state the program can reach in which a monitor with at least
  one backend is attached to the control view, and let it poll. Whatever the cores, the network, the health checker or a
  signal do then, as long as nothing more is published (the view is still that of the poll): if fewer than two to the 31 publications have gone unseen, the
  control loop's next round leaves in the cell a pool with a slot for each of the monitor's first 64 backends, in their order, and
  active are exactly those that were up at the poll.
\<close>

theorem system_follows:
  assumes up: "comes_up D V E rq K C rc cfg pt n view0 snapshot d (view, rcu, seq, args)"
  shows "\<exists>cs. start_cores S d args = Some (Inr cs) \<and> (\<forall>s mo s'.
      (sys_step I D V E S sk C)\<^sup>*\<^sup>* (system_of d cs view rcu seq snapshot w) s \<and> sy_monitor s = Some mo \<and> mo_control mo
      \<and> backends (mo_cfg mo) \<noteq> []
      \<and> (sys_step I D V E S sk C)\<^sup>*\<^sup>* (poll_system S mo s) s' \<and> sy_view s' = sy_view (poll_system S mo s) \<and> sy_missed s' < 2 ^ 31 \<longrightarrow>
      (\<exists>pool snap. control_round (sy_view s') (sy_control s') = Some (Inr (snap, \<lparr>rcu_ptr = Some pool\<rparr>, cv_seq (sy_view s')))
        \<and> map bi_ip (bp_slots pool) = map bi_ip (take kMaxBackends (backends (mo_cfg mo))) \<and> map bi_port (bp_slots pool) = map bi_port (take kMaxBackends (backends (mo_cfg mo)))
        \<and> bp_active pool = map of_nat (filter (\<lambda>i. bs_status (States (mo_health mo) ! i) = kUp) [0..<length (take kMaxBackends (backends (mo_cfg mo)))])
        \<and> (sy_missed s' = 0 \<longrightarrow> sy_rcu s' = \<lparr>rcu_ptr = Some pool\<rparr>)))"
proof -
  have C: "\<forall>c \<in> C. length (backends c) < 2 ^ 32" using up by (simp add: comes_up_def)
  obtain cs where cs: "start_cores S d args = Some (Inr cs)"
    "\<forall>s. (sys_step I D V E S sk C)\<^sup>*\<^sup>* (system_of d cs view rcu seq snapshot w) s \<longrightarrow> sys_ok I D cfg V (known cfg C) UNIV rq K S args C s"
    by (rule system_started [OF up heads_UNIV])
  show ?thesis
  proof (intro exI [of _ cs] conjI allI impI cs(1), elim conjE)
    fix s mo s'
    assume r: "(sys_step I D V E S sk C)\<^sup>*\<^sup>* (system_of d cs view rcu seq snapshot w) s" and mo: "sy_monitor s = Some mo" "mo_control mo"
      and n: "backends (mo_cfg mo) \<noteq> []"
      and r': "(sys_step I D V E S sk C)\<^sup>*\<^sup>* (poll_system S mo s) s'" and v: "sy_view s' = sy_view (poll_system S mo s)" "sy_missed s' < 2 ^ 31"
    have r1: "(sys_step I D V E S sk C)\<^sup>*\<^sup>* (system_of d cs view rcu seq snapshot w) (poll_system S mo s)"
      using r sys_step.cp [OF cp_step.poll [OF mo(1)]] by (rule rtranclp.rtrancl_into_rtrancl)
    then have "(sys_step I D V E S sk C)\<^sup>*\<^sup>* (system_of d cs view rcu seq snapshot w) s'" using r' by (rule rtranclp_trans)
    then have ok: "sys_ok I D cfg V (known cfg C) UNIV rq K S args C s" "sys_ok I D cfg V (known cfg C) UNIV rq K S args C (poll_system S mo s)"
      "control_ok (known cfg C) s'" using cs(2) r r1 by (simp_all add: sys_ok_def)
    show "\<exists>pool snap. control_round (sy_view s') (sy_control s') = Some (Inr (snap, \<lparr>rcu_ptr = Some pool\<rparr>, cv_seq (sy_view s')))
        \<and> map bi_ip (bp_slots pool) = map bi_ip (take kMaxBackends (backends (mo_cfg mo))) \<and> map bi_port (bp_slots pool) = map bi_port (take kMaxBackends (backends (mo_cfg mo)))
        \<and> bp_active pool = map of_nat (filter (\<lambda>i. bs_status (States (mo_health mo) ! i) = kUp) [0..<length (take kMaxBackends (backends (mo_cfg mo)))])
        \<and> (sy_missed s' = 0 \<longrightarrow> sy_rcu s' = \<lparr>rcu_ptr = Some pool\<rparr>)"
      by (rule polled_pool [OF ok mo C n v])
  qed
qed

text \<open>
  C3. Once a backend is known to be down, it gets no new connection. In any state the program can reach in which the control loop has
  applied what a monitor of at most 64 backends has published, let any core take any step. Every connection its node has afterwards, it
  had before, or its backend is one that the monitor published as up, with the address and port of the monitor's configuration.
\<close>

theorem system_avoids_down:
  assumes up: "comes_up D V E rq K C rc cfg pt n view0 snapshot d (view, rcu, seq, args)"
  shows "\<exists>cs. start_cores S d args = Some (Inr cs) \<and> (\<forall>s mo i F lb'.
      (sys_step I D V E S sk C)\<^sup>*\<^sup>* (system_of d cs view rcu seq snapshot w) s \<and> sy_monitor s = Some mo \<and> mo_control mo
      \<and> mo_published mo \<noteq> [] \<and> length (backends (mo_cfg mo)) \<le> kMaxBackends \<and> sy_missed s = 0
      \<and> core_live i (sy_fleet s) \<and> fleet_core I D (with_cell (sy_rcu s) V) i (sy_fleet s) = Inr F
      \<and> w_lb (co_world (fl_cores F ! i)) = Some lb' \<longrightarrow> (\<forall>f \<in> set (nt_slots (lb_nat lb')). live f \<longrightarrow>
      (\<exists>lb g. w_lb (co_world (fl_cores (sy_fleet s) ! i)) = Some lb \<and> g \<in> set (nt_slots (lb_nat lb)) \<and> live g \<and> core g = core f)
      \<or> (\<exists>b < length (backends (mo_cfg mo)). backend_idx f = of_nat b \<and> mo_published mo ! b \<noteq> 0
          \<and> backend_ip f = ip_value (bi_ip (backends (mo_cfg mo) ! b)) \<and> backend_port f = bi_port (backends (mo_cfg mo) ! b))))"
proof -
  obtain cs where cs: "start_cores S d args = Some (Inr cs)"
    "\<forall>s. (sys_step I D V E S sk C)\<^sup>*\<^sup>* (system_of d cs view rcu seq snapshot w) s \<longrightarrow> sys_ok I D cfg V (known cfg C) UNIV rq K S args C s"
    by (rule system_started [OF up heads_UNIV])
  show ?thesis
  proof (intro exI [of _ cs] conjI allI impI ballI cs(1), elim conjE)
    fix s mo i F lb' f
    assume r: "(sys_step I D V E S sk C)\<^sup>*\<^sup>* (system_of d cs view rcu seq snapshot w) s"
      and mo: "sy_monitor s = Some mo" "mo_control mo" "mo_published mo \<noteq> []" "length (backends (mo_cfg mo)) \<le> kMaxBackends"
      and z: "sy_missed s = 0" and step: "core_live i (sy_fleet s)" "fleet_core I D (with_cell (sy_rcu s) V) i (sy_fleet s) = Inr F"
      and lb': "w_lb (co_world (fl_cores F ! i)) = Some lb'" and f: "f \<in> set (nt_slots (lb_nat lb'))" "live f"
    have ok: "sys_ok I D cfg V (known cfg C) UNIV rq K S args C s" using cs(2) r by blast
    then have fo: "fleet_ok I D cfg (with_cell (sy_rcu s) V) (known cfg C) UNIV rq K S args (sy_fleet s)" "control_ok (known cfg C) s"
      by (simp_all add: sys_ok_def)
    let ?pool = "pool_of (contents (sy_view s))" and ?bs = "backends (mo_cfg mo)"
    have cell: "sy_rcu s = \<lparr>rcu_ptr = Some ?pool\<rparr>" and "good_cell (known cfg C) (sy_rcu s)" using fo(2) z unfolding control_ok_def by blast+
    then have built: "built_pool ?pool" by (auto simp: good_cell_def)
    have i: "i < length (fl_cores (sy_fleet s))" using step(1) by (simp add: core_live_def)
    note pp = published_pool [OF ok mo(1-3), unfolded take_all [OF mo(4)]]
    from fleet_core_world(2) [OF fo(1) built i step(2) [unfolded cell]] lb' f obtain lb where lb: "w_lb (co_world (fl_cores (sy_fleet s) ! i)) = Some lb"
      "flows_from (lb_nat lb) ?pool f" by (auto simp: table_from_def flows_all_def)
    show "(\<exists>lb g. w_lb (co_world (fl_cores (sy_fleet s) ! i)) = Some lb \<and> g \<in> set (nt_slots (lb_nat lb)) \<and> live g \<and> core g = core f)
      \<or> (\<exists>b < length ?bs. backend_idx f = of_nat b \<and> mo_published mo ! b \<noteq> 0
          \<and> backend_ip f = ip_value (bi_ip (?bs ! b)) \<and> backend_port f = bi_port (?bs ! b))"
      using lb flows_published [OF lb(2) pp mo(4)] by auto
  qed
qed

text \<open>
  C12. The rates on the API count packets. In any state the program can reach, let a monitor that is attached to the statistics view poll, when
  the cores together had received \<open>r\<close> and transmitted \<open>t\<close> packets at its previous poll: what the endpoint then reports as \<open>rx_pps\<close> and \<open>tx_pps\<close> are
  the packets that all cores have received and transmitted since, however their counters wrapped around meanwhile.
\<close>

theorem system_rates:
  assumes up: "comes_up D V E rq K C rc cfg pt n view0 snapshot d (view, rcu, seq, args)"
  shows "\<exists>cs. start_cores S d args = Some (Inr cs) \<and> (\<forall>s mo r t.
      (sys_step I D V E S sk C)\<^sup>*\<^sup>* (system_of d cs view rcu seq snapshot w) s \<and> sy_monitor s = Some mo \<and> mo_shm mo \<and> sy_seen s = Some (r, t)
      \<and> received (sy_fleet s) - r < 2 ^ 64 \<and> transmitted (sy_fleet s) - t < 2 ^ 64 \<longrightarrow>
      r \<le> received (sy_fleet s) \<and> t \<le> transmitted (sy_fleet s)
      \<and> (\<exists>mo' a b c. sy_monitor (poll_system S mo s) = Some mo'
        \<and> StatsHandler mo' = JObject [(''dataplane'', JString ''connected''), (''rx_pps'', JInt (received (sy_fleet s) - r)),
            (''tx_pps'', JInt (transmitted (sy_fleet s) - t)), (''dropped_pps'', JInt a), (''new_flows_ps'', JInt b), (''active_flows'', JInt c)]))"
proof -
  obtain cs where cs: "start_cores S d args = Some (Inr cs)" "launch rc cfg (Inr pt) n = Inr args"
    "\<forall>s. (sys_step I D V E S sk C)\<^sup>*\<^sup>* (system_of d cs view rcu seq snapshot w) s \<longrightarrow> sys_ok I D cfg V (known cfg C) UNIV rq K S args C s"
    by (rule system_started [OF up heads_UNIV])
  show ?thesis
  proof (intro exI [of _ cs] conjI allI impI cs(1); elim conjE)
    fix s mo r t
    assume reach: "(sys_step I D V E S sk C)\<^sup>*\<^sup>* (system_of d cs view rcu seq snapshot w) s" and mo: "sy_monitor s = Some mo" "mo_shm mo"
      and seen: "sy_seen s = Some (r, t)" and small: "received (sy_fleet s) - r < 2 ^ 64" "transmitted (sy_fleet s) - t < 2 ^ 64"
    have ok: "sys_ok I D cfg V (known cfg C) UNIV rq K S args C s" using cs(3) reach by blast
    then show le: "r \<le> received (sy_fleet s)" "t \<le> transmitted (sy_fleet s)" using mo(1) seen by (simp_all add: sys_ok_def)
    have fo: "fleet_ok I D cfg (with_cell (sy_rcu s) V) (known cfg C) UNIV rq K S args (sy_fleet s)" "seen_ok S mo (r, t)" "0 < sa_n_lcores (mo_agg mo)"
      "sa_n_lcores (mo_agg mo) = kMaxLcores" using ok mo(1) seen by (auto simp: sys_ok_def monitor_ok_def kMaxLcores_def)
    let ?sv = "stats_view S (fl_cores (sy_fleet s))"
    obtain mo' view' req where p: "poll ?sv mo (sy_view s) = (mo', view', req)" by (metis prod_cases3)
    have l: "mo_latest mo' = fst (Tick ?sv (mo_agg mo))" "mo_shm mo'" using poll_sel(2,6) [OF p] mo(2) by simp_all
    have "rx_pps (mo_latest mo') = of_nat (received (sy_fleet s) - r)" "tx_pps (mo_latest mo') = of_nat (transmitted (sy_fleet s) - t)"
      using fleet_totals [OF fo(1) cs(2)] fo(2) mo(2) le unfolding l(1) Tick_eq [OF fo(3)] by (simp_all add: fo(4) seen_ok_def of_nat_diff)
    then have "unat (rx_pps (mo_latest mo')) = received (sy_fleet s) - r" "unat (tx_pps (mo_latest mo')) = transmitted (sy_fleet s) - t"
      using small by (simp_all add: unat_of_nat take_bit_nat_eq_self)
    moreover have "sy_monitor (poll_system S mo s) = Some mo'" using p mo(2) by (simp add: poll_system_def monitor_view_def)
    ultimately show "\<exists>mo' a b c. sy_monitor (poll_system S mo s) = Some mo'
        \<and> StatsHandler mo' = JObject [(''dataplane'', JString ''connected''), (''rx_pps'', JInt (received (sy_fleet s) - r)),
            (''tx_pps'', JInt (transmitted (sy_fleet s) - t)), (''dropped_pps'', JInt a), (''new_flows_ps'', JInt b), (''active_flows'', JInt c)]"
      using l(2) by (simp add: StatsHandler_def DataplaneConnected_def Let_def)
  qed
qed

section \<open>Stopping\<close>

text \<open>A run of the program in which every core that has not returned takes another step at some time.\<close>

definition fair_system :: "isa \<Rightarrow> dpdk \<Rightarrow> 'd dev \<Rightarrow> ('d \<Rightarrow> 'd \<Rightarrow> bool) \<Rightarrow> (nat \<Rightarrow> LcoreStats) \<Rightarrow> 's sockets \<Rightarrow> Config set \<Rightarrow> (nat \<Rightarrow> ('d, 's) system) \<Rightarrow> bool" where
  "fair_system I D V E S sk C \<sigma> \<longleftrightarrow> (\<forall>k. sys_step I D V E S sk C (\<sigma> k) (\<sigma> (Suc k)))
     \<and> (\<forall>k i. core_live i (sy_fleet (\<sigma> k)) \<longrightarrow>
         (\<exists>m \<ge> k. fleet_core I D (with_cell (sy_rcu (\<sigma> m)) V) i (sy_fleet (\<sigma> m)) = Inr (sy_fleet (\<sigma> (Suc m)))))"

lemma sys_step_fleet:
  assumes "sys_step I D V E S sk C s s'"
  shows "sy_fleet s' = sy_fleet s \<or> fleet_step I D (with_cell (sy_rcu s) V) E (sy_fleet s) (sy_fleet s')"
  using assms by (cases rule: sys_step_elim) (auto simp: poll_system_def split: prod.splits)

lemma sys_stopping:
  assumes hw: "hw_env D cfg V B rq K E" and args: "fleet_args cfg args" and ok: "sys_ok I D cfg V B Z rq K S args C s"
    and stop: "\<not> fl_running (sy_fleet s)" and step: "sys_step I D V E S sk C s s'" and i: "i < length args"
  shows "\<not> fl_running (sy_fleet s')" and "(work_of (fl_cores (sy_fleet s') ! i), work_of (fl_cores (sy_fleet s) ! i)) \<in> work_less\<^sup>="
    and "\<not> core_live i (sy_fleet s) \<Longrightarrow> \<not> core_live i (sy_fleet s')"
proof -
  have f: "fleet_ok I D cfg (with_cell (sy_rcu s) V) B Z rq K S args (sy_fleet s)" "good_cell B (sy_rcu s)"
    using ok by (simp_all add: sys_ok_def control_ok_def)
  note st = stopping_step [OF hw_env_cell [OF hw f(2)] args f(1) stop _ i]
  from sys_step_fleet [OF step] st stop
  show "\<not> fl_running (sy_fleet s')" "(work_of (fl_cores (sy_fleet s') ! i), work_of (fl_cores (sy_fleet s) ! i)) \<in> work_less\<^sup>="
    "\<not> core_live i (sy_fleet s) \<Longrightarrow> \<not> core_live i (sy_fleet s')" by auto
qed

lemma sys_core_stops:
  assumes hw: "hw_env D cfg V B rq K E" and args: "fleet_args cfg args" and ok: "\<And>k. sys_ok I D cfg V B Z rq K S args C (\<sigma> k)"
    and stop: "\<not> fl_running (sy_fleet (\<sigma> 0))" and fair: "fair_system I D V E S sk C \<sigma>" and i: "i < length args"
  shows "\<exists>m. \<forall>k \<ge> m. \<not> core_live i (sy_fleet (\<sigma> k))"
proof (rule work_runs_out [OF wf_work_less, where W = "\<lambda>k. work_of (fl_cores (sy_fleet (\<sigma> k)) ! i)"])
  have step: "sys_step I D V E S sk C (\<sigma> k) (\<sigma> (Suc k))" for k using fair by (simp add: fair_system_def)
  have st: "\<not> fl_running (sy_fleet (\<sigma> k))" for k by (induction k) (use stop sys_stopping(1) [OF hw args ok _ step i] in blast)+
  note ss = sys_stopping(2,3) [OF hw args ok st step i]
  show "(work_of (fl_cores (sy_fleet (\<sigma> (Suc k))) ! i), work_of (fl_cores (sy_fleet (\<sigma> k)) ! i)) \<in> work_less\<^sup>=" for k by (rule ss)
  show "\<not> core_live i (sy_fleet (\<sigma> k)) \<Longrightarrow> \<not> core_live i (sy_fleet (\<sigma> (Suc k)))" for k by (rule ss)
  show "\<exists>m \<ge> k. core_live i (sy_fleet (\<sigma> m)) \<longrightarrow> (work_of (fl_cores (sy_fleet (\<sigma> (Suc m))) ! i), work_of (fl_cores (sy_fleet (\<sigma> m)) ! i)) \<in> work_less"
    if live: "core_live i (sy_fleet (\<sigma> k))" for k
  proof -
    obtain m where m: "k \<le> m" "fleet_core I D (with_cell (sy_rcu (\<sigma> m)) V) i (sy_fleet (\<sigma> m)) = Inr (sy_fleet (\<sigma> (Suc m)))"
      using fair live unfolding fair_system_def by blast
    have f: "fleet_ok I D cfg (with_cell (sy_rcu (\<sigma> m)) V) B Z rq K S args (sy_fleet (\<sigma> m))" "good_cell B (sy_rcu (\<sigma> m))"
      using ok [of m] by (simp_all add: sys_ok_def control_ok_def)
    show ?thesis using fleet_core_ok [OF hw_env_cell [OF hw f(2)] args f(1) i] m st by (intro exI [of _ m]) auto
  qed
qed

text \<open>
  C4. A signal stops the dataplane, whatever the control plane does meanwhile. From any state of the program that is reachable and in which the signal has come, in every run in which
  no core is kept from running for ever, there is a time from which on all cores have returned, so that the main thread, which waits for them, goes
  on. Then no core holds a packet: what was received has been transmitted, has been freed, or is on a ring.
\<close>

theorem system_stops:
  assumes up: "comes_up D V E rq K C rc cfg pt n view0 snapshot d (view, rcu, seq, args)"
  shows "\<exists>cs. start_cores S d args = Some (Inr cs) \<and> (\<forall>\<sigma>. (sys_step I D V E S sk C)\<^sup>*\<^sup>* (system_of d cs view rcu seq snapshot w) (\<sigma> 0)
      \<and> \<not> fl_running (sy_fleet (\<sigma> 0)) \<and> fair_system I D V E S sk C \<sigma> \<longrightarrow>
      (\<exists>m. \<forall>k \<ge> m. (\<forall>c \<in> set (fl_cores (sy_fleet (\<sigma> k))). co_pc c = kExit)
        \<and> (\<Sum>c\<leftarrow>fl_cores (sy_fleet (\<sigma> k)). ids (w_received (co_world c))) =
            (\<Sum>c\<leftarrow>fl_cores (sy_fleet (\<sigma> k)). ids (w_sent (co_world c)) + ids (w_freed (co_world c)))
            + (\<Sum>r\<in>fleet_rings args. ids (rq (fl_dev (sy_fleet (\<sigma> k))) r))))"
proof -
  have hw: "hw_env D cfg V (known cfg C) rq K E" using up by (simp add: comes_up_def)
  obtain cs where cs: "start_cores S d args = Some (Inr cs)" "fleet_args cfg args"
    "\<forall>s. (sys_step I D V E S sk C)\<^sup>*\<^sup>* (system_of d cs view rcu seq snapshot w) s \<longrightarrow> sys_ok I D cfg V (known cfg C) UNIV rq K S args C s"
    by (rule system_started [OF up heads_UNIV])
  show ?thesis
  proof (intro exI [of _ cs] conjI allI impI cs(1), elim conjE)
    fix \<sigma>
    assume r: "(sys_step I D V E S sk C)\<^sup>*\<^sup>* (system_of d cs view rcu seq snapshot w) (\<sigma> 0)" and stop: "\<not> fl_running (sy_fleet (\<sigma> 0))"
      and fair: "fair_system I D V E S sk C \<sigma>"
    have "(sys_step I D V E S sk C)\<^sup>*\<^sup>* (system_of d cs view rcu seq snapshot w) (\<sigma> k)" for k
      by (induction k) (use r fair in \<open>auto simp: fair_system_def intro: rtranclp.rtrancl_into_rtrancl\<close>)
    then have ok: "sys_ok I D cfg V (known cfg C) UNIV rq K S args C (\<sigma> k)" for k using cs(3) by blast
    obtain m where "\<forall>k \<ge> m. \<forall>i < length args. \<not> core_live i (sy_fleet (\<sigma> k))"
      using eventually_all [of "length args" "\<lambda>i k. \<not> core_live i (sy_fleet (\<sigma> k))"] sys_core_stops [OF hw cs(2) ok stop fair] by blast
    moreover have "fleet_ok I D cfg (with_cell (sy_rcu (\<sigma> k)) V) (known cfg C) UNIV rq K S args (sy_fleet (\<sigma> k))" for k using ok [of k] by (simp add: sys_ok_def)
    ultimately show "\<exists>m. \<forall>k \<ge> m. (\<forall>c \<in> set (fl_cores (sy_fleet (\<sigma> k))). co_pc c = kExit)
        \<and> (\<Sum>c\<leftarrow>fl_cores (sy_fleet (\<sigma> k)). ids (w_received (co_world c))) =
            (\<Sum>c\<leftarrow>fl_cores (sy_fleet (\<sigma> k)). ids (w_sent (co_world c)) + ids (w_freed (co_world c)))
            + (\<Sum>r\<in>fleet_rings args. ids (rq (fl_dev (sy_fleet (\<sigma> k))) r))"
      by (intro exI [of _ m] allI impI fleet_at_rest) auto
  qed
qed

section \<open>An example\<close>

text \<open>The dataplane of \<open>Fleet_Props\<close>, which knows no backend, and a control plane with one whose probe connects.\<close>

lemma ex_hw: "hw_env ex_dpdk ex_cfg fifo_dev (known ex_cfg {ex_cp_cfg}) snd fifo_any fifo_env"
proof -
  have f: "dev_ok fifo_dev" "ring_laws fifo_dev snd" "nic_ok ex_dpdk ex_cfg fifo_dev (set (bp_slots (ex_pool [1]))) fifo_any"
    "\<forall>d d'. fifo_env d d' \<longrightarrow> fifo_any d \<longrightarrow> fifo_any d' \<and> snd d' = snd d" using fifo_ok by (simp_all add: fleet_env_def)
  have "\<forall>b \<in> known ex_cfg {ex_cp_cfg}. MacAddr_ok (bi_mac b)"
    by (simp add: known_def served_def slot_of_def seed_entry_def ex_cfg_def ex_cp_cfg_def Config_default_def MacAddr_ok_def)
  with f(3) have "nic_ok ex_dpdk ex_cfg (with_cell \<lparr>rcu_ptr = None\<rparr> fifo_dev) (known ex_cfg {ex_cp_cfg}) fifo_any"
    by (simp add: nic_ok_def Rcu_Load_def)
  moreover have "dev_ok (with_cell \<lparr>rcu_ptr = None\<rparr> fifo_dev)" using f(1) by (simp add: dev_ok_def built_rcu_def Rcu_Load_def)
  moreover have "ring_laws (with_cell \<lparr>rcu_ptr = None\<rparr> fifo_dev) snd" using f(2) by (simp add: ring_laws_def)
  ultimately show ?thesis using f(4) by (simp add: hw_env_def fleet_env_def)
qed

abbreviation ex_seeded :: ControlView where
  "ex_seeded \<equiv> SeedControl ex_view ex_cfg"

abbreviation ex_buffer :: "ControlBackend list" where
  "ex_buffer \<equiv> replicate kMaxBackends ex_backend"

abbreviation ex_counters :: "nat \<Rightarrow> LcoreStats" where
  "ex_counters \<equiv> (\<lambda>_. LcoreStats_zero)"

abbreviation ex_cell :: "BackendPool AtomicRcu" where
  "ex_cell \<equiv> \<lparr>rcu_ptr = Some (pool_of (contents ex_seeded))\<rparr>"

lemma ex_comes_up:
  "comes_up ex_dpdk fifo_dev fifo_env snd fifo_any {ex_cp_cfg} fifo_rings ex_cfg ex_port 3 ex_view ex_buffer fifo_start (ex_seeded, ex_cell, cv_seq ex_seeded, fifo_args)"
proof -
  have c: "length (backends ex_cfg) < 2 ^ 32" "\<forall>c \<in> {ex_cp_cfg}. length (backends c) < 2 ^ 32"
    by (simp_all add: ex_cfg_def ex_cp_cfg_def Config_default_def)
  have "RunDataplane fifo_rings ex_cfg (Inr ex_port) 3 ex_view ex_buffer = Some (Inr (ex_seeded, ex_cell, cv_seq ex_seeded, fifo_args))"
    using RunDataplane_eq(1) [OF ex_view_quiet _ c(1), of ex_buffer fifo_rings "Inr ex_port" 3] by (simp add: fifo_launch)
  then show ?thesis using ex_hw fifo_named fifo_start_ok ex_view_quiet c by (simp add: comes_up_def)
qed

abbreviation ex_sys_step :: "(ex_net, int) system \<Rightarrow> (ex_net, int) system \<Rightarrow> bool" where
  "ex_sys_step \<equiv> sys_step Generic ex_dpdk fifo_dev fifo_env ex_counters ex_sockets {ex_cp_cfg}"

abbreviation ex_sys :: "ex_net core list \<Rightarrow> (ex_net, int) system" where
  "ex_sys cs \<equiv> system_of fifo_start cs ex_seeded ex_cell (cv_seq ex_seeded) ex_buffer \<lparr>sys_state = 3, sys_fds = []\<rparr>"

text \<open>The control plane has started, and has probed its backend.\<close>

definition ex_probed :: "ex_net core list \<Rightarrow> (ex_net, int) system" where
  "ex_probed cs = (ex_sys cs)\<lparr>sy_monitor := Some (ex_monitor\<lparr>mo_health := fst ex_checked\<rparr>), sy_os := snd ex_checked\<rparr>"

lemma ex_probed_reach: "ex_sys_step\<^sup>*\<^sup>* (ex_sys cs) (ex_probed cs)"
proof -
  let ?s = "(ex_sys cs)\<lparr>sy_monitor := Some ex_monitor, sy_seen := None\<rparr>"
  have a: "ex_sys_step (ex_sys cs) ?s" by (rule sys_step.cp, rule cp_step.start [OF _ _ ex_monitor_new]) (simp_all add: system_of_def)
  have b: "ex_sys_step ?s (?s\<lparr>sy_monitor := Some (ex_monitor\<lparr>mo_health := fst ex_checked\<rparr>), sy_os := snd ex_checked\<rparr>)"
    by (rule sys_step.cp, rule cp_step.health) (simp_all add: system_of_def ex_monitor_def Start_def ex_checked_def)
  have "?s\<lparr>sy_monitor := Some (ex_monitor\<lparr>mo_health := fst ex_checked\<rparr>), sy_os := snd ex_checked\<rparr> = ex_probed cs"
    by (simp add: ex_probed_def system_of_def)
  from b [unfolded this] show ?thesis using a by (intro rtranclp_trans [of ex_sys_step, OF r_into_rtranclp r_into_rtranclp])
qed

lemma ex_probed_sel [simp]:
  "sy_monitor (ex_probed cs) = Some (ex_monitor\<lparr>mo_health := fst ex_checked\<rparr>)" "sy_fleet (ex_probed cs) = fleet_of fifo_start cs"
  "sy_control (ex_probed cs) = (ex_buffer, ex_cell, cv_seq ex_seeded)" "sy_view (ex_probed cs) = ex_seeded" "sy_missed (ex_probed cs) = 0"
  by (simp_all add: ex_probed_def system_of_def)

lemma ex_monitor_sel [simp]:
  "mo_control (ex_monitor\<lparr>mo_health := h\<rparr>)" "mo_shm (ex_monitor\<lparr>mo_health := h\<rparr>)" "mo_cfg (ex_monitor\<lparr>mo_health := h\<rparr>) = ex_cp_cfg"
  "length (backends ex_cp_cfg) = 1"
  by (simp_all add: ex_monitor_def ex_cp_cfg_def)

abbreviation ex_polled :: "ex_net core list \<Rightarrow> (ex_net, int) system" where
  "ex_polled cs \<equiv> poll_system ex_counters (ex_monitor\<lparr>mo_health := fst ex_checked\<rparr>) (ex_probed cs)"

lemma ex_polled_reach: "ex_sys_step\<^sup>*\<^sup>* (ex_sys cs) (ex_polled cs)"
  using ex_probed_reach sys_step.cp [OF cp_step.poll [OF ex_probed_sel(1)]] by (rule rtranclp.rtrancl_into_rtrancl)

theorem system_safe_witness:
  "\<exists>cs. start_cores ex_counters fifo_start fifo_args = Some (Inr cs)
    \<and> (\<exists>st. control_round (sy_view (ex_polled cs)) (sy_control (ex_polled cs)) = Some (Inr st))"
  using system_safe [OF ex_comes_up, of ex_counters Generic ex_sockets "\<lparr>sys_state = 3, sys_fds = []\<rparr>"] ex_polled_reach by blast

theorem system_follows_witness:
  "\<exists>cs pool snap seq. start_cores ex_counters fifo_start fifo_args = Some (Inr cs)
    \<and> control_round (sy_view (ex_polled cs)) (sy_control (ex_polled cs)) = Some (Inr (snap, \<lparr>rcu_ptr = Some pool\<rparr>, seq)) \<and> bp_active pool = [0]"
proof -
  let ?mo = "ex_monitor\<lparr>mo_health := fst ex_checked\<rparr>"
  have up: "bs_status (States (fst ex_checked) ! 0) = kUp" using ex_checked_up by (auto simp: map_eq_Cons_conv)
  have few: "sy_missed (ex_polled cs) < 2 ^ 31" for cs by (simp add: poll_system_def split: prod.split)
  have n: "backends (mo_cfg ?mo) \<noteq> []" by (simp add: ex_cp_cfg_def ex_monitor_def)
  show ?thesis
  proof (rule ex_forward [OF system_follows [OF ex_comes_up, of ex_counters Generic ex_sockets "\<lparr>sys_state = 3, sys_fds = []\<rparr>"]], elim conjE, goal_cases)
    case (1 cs)
    have "ex_sys_step\<^sup>*\<^sup>* (ex_sys cs) (ex_probed cs) \<and> sy_monitor (ex_probed cs) = Some ?mo \<and> mo_control ?mo \<and> backends (mo_cfg ?mo) \<noteq> []
        \<and> ex_sys_step\<^sup>*\<^sup>* (ex_polled cs) (ex_polled cs) \<and> sy_view (ex_polled cs) = sy_view (ex_polled cs)
        \<and> sy_missed (ex_polled cs) < 2 ^ 31"
      by (intro conjI ex_probed_reach ex_probed_sel(1) ex_monitor_sel(1) n few rtranclp.rtrancl_refl refl)
    from 1(2) [rule_format, OF this] obtain pool snap where p:
      "control_round (sy_view (ex_polled cs)) (sy_control (ex_polled cs)) = Some (Inr (snap, \<lparr>rcu_ptr = Some pool\<rparr>, cv_seq (sy_view (ex_polled cs))))"
      "bp_active pool = map of_nat (filter (\<lambda>i. bs_status (States (mo_health ?mo) ! i) = kUp) [0..<length (take kMaxBackends (backends (mo_cfg ?mo)))])"
      by blast
    have "bp_active pool = [0]" using p(2) up by (simp add: kMaxBackends_def)
    with 1(1) p(1) show ?case by blast
  qed
qed

lemma ex_polled_sel:
  shows "\<exists>mo. sy_monitor (ex_polled cs) = Some mo \<and> mo_control mo \<and> mo_shm mo \<and> mo_cfg mo = ex_cp_cfg \<and> mo_published mo = [1]"
    and "sy_seen (ex_polled cs) = Some (received (sy_fleet (ex_polled cs)), transmitted (sy_fleet (ex_polled cs)))" and "sy_fleet (ex_polled cs) = fleet_of fifo_start cs"
    and "sy_control (ex_polled cs) = (ex_buffer, ex_cell, cv_seq ex_seeded)" and "sy_missed (ex_polled cs) \<le> 1"
proof -
  let ?mo = "ex_monitor\<lparr>mo_health := fst ex_checked\<rparr>" and ?sv = "stats_view ex_counters cs"
  obtain mo' view' req where p: "poll ?sv ?mo ex_seeded = (mo', view', req)" by (metis prod_cases3)
  have "enabled_flags (States (fst ex_checked)) = map (\<lambda>s. if s = kUp then 1 else 0) (map bs_status (States (fst ex_checked)))" by (simp add: enabled_flags_def)
  then have e: "enabled_flags (States (fst ex_checked)) = [1]" by (simp only: ex_checked_up) simp
  have "mo_control ex_monitor" by (simp add: ex_monitor_def)
  then have "mo_published mo' = [1]" using p e by (auto simp: poll_def Monitor_PublishControl_def Let_def case_prod_beta split: if_splits)
  with p poll_sel(1-3) [OF p] show "\<exists>mo. sy_monitor (ex_polled cs) = Some mo \<and> mo_control mo \<and> mo_shm mo \<and> mo_cfg mo = ex_cp_cfg \<and> mo_published mo = [1]"
    by (simp add: poll_system_def monitor_view_def fleet_of_def)
qed (auto simp: poll_system_def split: prod.split)

theorem system_rates_witness:
  "\<exists>cs mo mo' a b c. start_cores ex_counters fifo_start fifo_args = Some (Inr cs) \<and> sy_monitor (ex_polled cs) = Some mo
    \<and> sy_monitor (poll_system ex_counters mo (ex_polled cs)) = Some mo'
    \<and> StatsHandler mo' = JObject [(''dataplane'', JString ''connected''), (''rx_pps'', JInt 0), (''tx_pps'', JInt 0),
        (''dropped_pps'', JInt a), (''new_flows_ps'', JInt b), (''active_flows'', JInt c)]"
proof (rule ex_forward [OF system_rates [OF ex_comes_up, of ex_counters Generic ex_sockets "\<lparr>sys_state = 3, sys_fds = []\<rparr>"]], elim conjE, goal_cases)
  case (1 cs)
  obtain mo where mo: "sy_monitor (ex_polled cs) = Some mo" "mo_shm mo" using ex_polled_sel(1) by blast
  have "ex_sys_step\<^sup>*\<^sup>* (ex_sys cs) (ex_polled cs) \<and> sy_monitor (ex_polled cs) = Some mo \<and> mo_shm mo
      \<and> sy_seen (ex_polled cs) = Some (received (sy_fleet (ex_polled cs)), transmitted (sy_fleet (ex_polled cs)))
      \<and> received (sy_fleet (ex_polled cs)) - received (sy_fleet (ex_polled cs)) < 2 ^ 64
      \<and> transmitted (sy_fleet (ex_polled cs)) - transmitted (sy_fleet (ex_polled cs)) < 2 ^ 64"
    by (intro conjI ex_polled_reach mo ex_polled_sel(2)) simp_all
  from 1(2) [rule_format, OF this] 1(1) mo(1) show ?case by (metis diff_self_eq_0)
qed

text \<open>The control loop applies what was published, and the worker takes a step.\<close>

definition ex_applied :: "ex_net core list \<Rightarrow> (ex_net, int) system" where
  "ex_applied cs = (case control_round (sy_view (ex_polled cs)) (sy_control (ex_polled cs)) of
     Some (Inr st) \<Rightarrow> (ex_polled cs)\<lparr>sy_control := st, sy_missed := (if snd (snd st) = snd (snd (sy_control (ex_polled cs))) then sy_missed (ex_polled cs) else 0)\<rparr>)"

lemma ex_applied_reach:
  assumes "control_ok B (ex_polled cs)"
  shows "ex_sys_step\<^sup>*\<^sup>* (ex_sys cs) (ex_applied cs)" and "sy_missed (ex_applied cs) = 0" and "sy_monitor (ex_applied cs) = sy_monitor (ex_polled cs)"
    and "sy_fleet (ex_applied cs) = fleet_of fifo_start cs"
proof -
  obtain st where st: "control_round (sy_view (ex_polled cs)) (sy_control (ex_polled cs)) = Some (Inr st)" "snd (snd st) = cv_seq (sy_view (ex_polled cs))"
    using control_round_eq [OF assms] by auto
  have eq: "ex_applied cs = (ex_polled cs)\<lparr>sy_control := st, sy_missed := (if snd (snd st) = snd (snd (sy_control (ex_polled cs))) then sy_missed (ex_polled cs) else 0)\<rparr>"
    by (simp add: ex_applied_def st(1))
  have "fl_running (sy_fleet (ex_polled cs))" by (simp add: ex_polled_sel(3) fleet_of_def)
  then have "ex_sys_step (ex_polled cs) (ex_applied cs)" unfolding eq by (rule sys_step.dp [OF dp_step.control [OF _ st(1)]])
  with ex_polled_reach show "ex_sys_step\<^sup>*\<^sup>* (ex_sys cs) (ex_applied cs)" by (rule rtranclp.rtrancl_into_rtrancl)
  have "cv_seq (sy_view (ex_polled cs)) = snd (snd (sy_control (ex_polled cs))) + 2 * of_nat (sy_missed (ex_polled cs))"
    using assms by (simp add: control_ok_def)
  then show "sy_missed (ex_applied cs) = 0"
    using seq_back [of "snd (snd (sy_control (ex_polled cs)))" "sy_missed (ex_polled cs)"] ex_polled_sel(5) [of cs] st(2) by (simp add: eq)
  show "sy_monitor (ex_applied cs) = sy_monitor (ex_polled cs)" "sy_fleet (ex_applied cs) = fleet_of fifo_start cs" by (simp_all add: eq ex_polled_sel(3))
qed

lemma ex_worker_step:
  assumes "start_cores ex_counters fifo_start fifo_args = Some (Inr cs)"
  obtains F lb where "control_ok (known ex_cfg {ex_cp_cfg}) (ex_polled cs)" "core_live 1 (sy_fleet (ex_applied cs))"
    "fleet_core Generic ex_dpdk (with_cell (sy_rcu (ex_applied cs)) fifo_dev) 1 (sy_fleet (ex_applied cs)) = Inr F" "w_lb (co_world (fl_cores F ! 1)) = Some lb"
proof -
  let ?B = "known ex_cfg {ex_cp_cfg}"
  obtain cs' where h: "start_cores ex_counters fifo_start fifo_args = Some (Inr cs')" "fleet_args ex_cfg fifo_args"
    "\<forall>s. ex_sys_step\<^sup>*\<^sup>* (ex_sys cs') s \<longrightarrow> sys_ok Generic ex_dpdk ex_cfg fifo_dev ?B UNIV snd fifo_any ex_counters fifo_args {ex_cp_cfg} s"
    by (rule system_started [OF ex_comes_up heads_UNIV])
  have [simp]: "cs' = cs" using h(1) assms by simp
  have c: "control_ok ?B (ex_polled cs)" using h(3) ex_polled_reach by (simp add: sys_ok_def)
  note ap = ex_applied_reach [OF c]
  have ok: "fleet_ok Generic ex_dpdk ex_cfg (with_cell (sy_rcu (ex_applied cs)) fifo_dev) ?B UNIV snd fifo_any ex_counters fifo_args (sy_fleet (ex_applied cs))"
    "good_cell ?B (sy_rcu (ex_applied cs))" using h(3) ap(1) by (simp_all add: sys_ok_def control_ok_def)
  have two: "length fifo_args = 2" by (simp add: fifo_args_def Let_def del: name_id.simps)
  have len: "length cs = 2" using fleet_okD(1) [OF ok(1)] ap(4) two by (simp add: fleet_of_def)
  have env: "fleet_env ex_dpdk ex_cfg (with_cell (sy_rcu (ex_applied cs)) fifo_dev) ?B snd fifo_any fifo_env" by (rule hw_env_cell [OF ex_hw ok(2)])
  then have "dev_ok (with_cell (sy_rcu (ex_applied cs)) fifo_dev)" by (simp add: fleet_env_def)
  moreover have "\<forall>arg \<in> set fifo_args. arg_ok arg \<and> rings_apart arg" using h(2) unfolding fleet_args_def by blast
  ultimately have "\<forall>c \<in> set cs. co_pc c = kLoop" using start_cores_ok [of _ fifo_args ex_counters fifo_start Generic ex_dpdk ?B] assms by fastforce
  then have live: "core_live 1 (sy_fleet (ex_applied cs))" using len ap(4) by (simp add: core_live_def fleet_of_def)
  obtain F where F: "fleet_core Generic ex_dpdk (with_cell (sy_rcu (ex_applied cs)) fifo_dev) 1 (sy_fleet (ex_applied cs)) = Inr F"
    using fleet_live_step [OF env h(2) ok(1) live] by blast
  have "2 \<le> length fifo_args" "0 < length fifo_args - 1" using two by simp_all
  with worker_flows(2) [OF fifo_launch _ fleet_step_ok [OF env h(2) ok(1) fleet_step.core [OF live F]]]
  obtain lb where "w_lb (co_world (fl_cores F ! Suc 0)) = Some lb" by blast
  with that c live F show ?thesis by simp
qed

theorem system_avoids_down_witness:
  "\<exists>cs mo F lb'. start_cores ex_counters fifo_start fifo_args = Some (Inr cs) \<and> sy_monitor (ex_applied cs) = Some mo \<and> mo_published mo = [1]
    \<and> fleet_core Generic ex_dpdk (with_cell (sy_rcu (ex_applied cs)) fifo_dev) 1 (sy_fleet (ex_applied cs)) = Inr F
    \<and> w_lb (co_world (fl_cores F ! 1)) = Some lb' \<and> (\<forall>f \<in> set (nt_slots (lb_nat lb')). live f \<longrightarrow>
      (\<exists>lb g. w_lb (co_world (fl_cores (sy_fleet (ex_applied cs)) ! 1)) = Some lb \<and> g \<in> set (nt_slots (lb_nat lb)) \<and> live g \<and> core g = core f)
      \<or> backend_ip f = 0x0A000101)"
proof (rule ex_forward [OF system_avoids_down [OF ex_comes_up, of ex_counters Generic ex_sockets "\<lparr>sys_state = 3, sys_fds = []\<rparr>"]], elim conjE, goal_cases)
  case (1 cs)
  obtain F lb where F: "control_ok (known ex_cfg {ex_cp_cfg}) (ex_polled cs)" "core_live 1 (sy_fleet (ex_applied cs))"
    "fleet_core Generic ex_dpdk (with_cell (sy_rcu (ex_applied cs)) fifo_dev) 1 (sy_fleet (ex_applied cs)) = Inr F" "w_lb (co_world (fl_cores F ! 1)) = Some lb"
    by (rule ex_worker_step [OF 1(1)])
  note ap = ex_applied_reach [OF F(1)]
  obtain mo where mo: "sy_monitor (ex_applied cs) = Some mo" "mo_control mo" "mo_cfg mo = ex_cp_cfg" "mo_published mo = [1]" using ex_polled_sel(1) ap(3) by metis
  have n: "mo_published mo \<noteq> []" "length (backends (mo_cfg mo)) \<le> kMaxBackends" using mo(3,4) by (simp_all add: kMaxBackends_def)
  have "ex_sys_step\<^sup>*\<^sup>* (ex_sys cs) (ex_applied cs) \<and> sy_monitor (ex_applied cs) = Some mo \<and> mo_control mo \<and> mo_published mo \<noteq> []
      \<and> length (backends (mo_cfg mo)) \<le> kMaxBackends \<and> sy_missed (ex_applied cs) = 0 \<and> core_live 1 (sy_fleet (ex_applied cs))
      \<and> fleet_core Generic ex_dpdk (with_cell (sy_rcu (ex_applied cs)) fifo_dev) 1 (sy_fleet (ex_applied cs)) = Inr F \<and> w_lb (co_world (fl_cores F ! 1)) = Some lb"
    by (intro conjI ap mo n F)
  note c = 1(2) [rule_format, OF this]
  have "ip_value (bi_ip (backends ex_cp_cfg ! 0)) = 0x0A000101" by (simp add: ex_cp_cfg_def)
  then have "\<forall>f \<in> set (nt_slots (lb_nat lb)). live f \<longrightarrow>
      (\<exists>lb g. w_lb (co_world (fl_cores (sy_fleet (ex_applied cs)) ! 1)) = Some lb \<and> g \<in> set (nt_slots (lb_nat lb)) \<and> live g \<and> core g = core f)
      \<or> backend_ip f = 0x0A000101" using c mo(3) by fastforce
  with 1(1) mo(1,4) F(3,4) show ?case by blast
qed

text \<open>The signal comes, and the cores return one after the other.\<close>

definition ex_stopping :: "ex_net core list \<Rightarrow> nat \<Rightarrow> (ex_net, int) system" where
  "ex_stopping cs k = (ex_sys cs)\<lparr>sy_fleet := fifo_run cs k\<rparr>"

lemma ex_stopping_fair:
  assumes "length cs = 2" and "\<forall>c \<in> set cs. co_pc c = kLoop"
  shows "fair_system Generic ex_dpdk fifo_dev fifo_env ex_counters ex_sockets {ex_cp_cfg} (ex_stopping cs)"
proof -
  have fair: "fair_run Generic ex_dpdk (with_cell ex_cell fifo_dev) fifo_env (fifo_run cs)" by (rule fifo_fair [OF assms])
  have sel: "sy_fleet (ex_stopping cs k) = fifo_run cs k" "sy_rcu (ex_stopping cs k) = ex_cell" for k
    by (simp_all add: ex_stopping_def system_of_def sy_rcu_def)
  have "ex_sys_step (ex_stopping cs k) (ex_stopping cs (Suc k))" for k
  proof -
    have "fleet_step Generic ex_dpdk (with_cell (sy_rcu (ex_stopping cs k)) fifo_dev) fifo_env (sy_fleet (ex_stopping cs k)) (fifo_run cs (Suc k))"
      using fair by (simp add: fair_run_def sel)
    from sys_step.dp [OF dp_step.dataplane [OF this]] show ?thesis by (simp add: ex_stopping_def)
  qed
  with fair show ?thesis by (simp add: fair_system_def fair_run_def sel)
qed

theorem system_stops_witness:
  "\<exists>cs. start_cores ex_counters fifo_start fifo_args = Some (Inr cs)
    \<and> (\<exists>m. \<forall>k \<ge> m. \<forall>c \<in> set (fl_cores (sy_fleet (ex_stopping cs k))). co_pc c = kExit)"
proof (rule ex_forward [OF system_stops [OF ex_comes_up, of ex_counters Generic ex_sockets "\<lparr>sys_state = 3, sys_fds = []\<rparr>"]], elim conjE, goal_cases)
  case (1 cs)
  obtain cs' where cs: "start_cores ex_counters fifo_start fifo_args = Some (Inr cs')" "length cs' = length fifo_args" "\<forall>c \<in> set cs'. co_pc c = kLoop"
    by (rule fleet_started [OF fifo_ok heads_UNIV fifo_launch fifo_named fifo_start_ok])
  then have c: "length cs = 2" "\<forall>c \<in> set cs. co_pc c = kLoop" using 1(1) by (simp_all add: fifo_args_def Let_def del: name_id.simps)
  have z: "fifo_run cs 0 = OnSignal (fleet_of fifo_start cs)" using enumerate_two [OF c(1)] by (auto simp: fifo_run_def fleet_of_def OnSignal_def)
  have "ex_sys_step (ex_sys cs) (ex_stopping cs 0)" unfolding ex_stopping_def z
    by (rule sys_step.dp, rule dp_step.dataplane) (simp add: system_of_def fleet_step.signal)
  then have "ex_sys_step\<^sup>*\<^sup>* (ex_sys cs) (ex_stopping cs 0)" by (rule r_into_rtranclp)
  moreover have "\<not> fl_running (sy_fleet (ex_stopping cs 0))" by (simp add: ex_stopping_def z OnSignal_def)
  ultimately have "ex_sys_step\<^sup>*\<^sup>* (ex_sys cs) (ex_stopping cs 0) \<and> \<not> fl_running (sy_fleet (ex_stopping cs 0))
      \<and> fair_system Generic ex_dpdk fifo_dev fifo_env ex_counters ex_sockets {ex_cp_cfg} (ex_stopping cs)" using ex_stopping_fair [OF c] by blast
  from 1(2) [rule_format, OF this] 1(1) show ?case by blast
qed

end
