(* ===== verification/Restart.thy ===== *)
theory Restart
  imports Whole_Props
begin

text \<open>
  Either process may be restarted while the other runs on. They meet in a segment of shared memory that both find by its
  name: \<open>ShmProvider\<close> of the dataplane creates it, or opens one that is there, and its destructor removes the name; the one of
  the monitor opens it, once, in the constructor of the component. What the operating system does (\<open>shm_open\<close>,
  \<open>shm_unlink\<close>, \<open>mmap\<close>) is modelled as POSIX has it: a name is removed at once, a segment lives on as long as somebody has it mapped, a new
  segment is filled with zeros, and truncating one to the size it has leaves what is in it. Whether the calls succeed is an argument, and the
  constructor is the one of \<open>Shm_Provider\<close>.
\<close>

section \<open>Segments and names\<close>

text \<open>Segments are never reused here; the contents of one that nobody has mapped do not matter.\<close>

record shm =
  sh_names :: "string \<rightharpoonup> nat"
  sh_mem :: "nat \<Rightarrow> ControlView"
  sh_next :: nat

definition kControlShmName :: string where "kControlShmName = ''/cerebellum_control''"

definition zero_view :: ControlView where
  "zero_view = \<lparr>cv_header = \<lparr>hdr_magic = 0, hdr_version = 0\<rparr>, cv_seq = 0, cv_count = 0,
     cv_backends = replicate kMaxBackends \<lparr>cb_ip = 0, cb_port = 0, cb_mac = replicate 6 0, cb_enabled = 0\<rparr>\<rparr>"

definition shm_write :: "nat \<Rightarrow> ControlView \<Rightarrow> shm \<Rightarrow> shm" where
  "shm_write g v m = m\<lparr>sh_mem := (sh_mem m)(g := v)\<rparr>"

text \<open>\<open>shm_open\<close> with \<open>O_CREAT\<close>.\<close>

definition shm_open_create :: "string \<Rightarrow> shm \<Rightarrow> nat \<times> shm" where
  "shm_open_create name m =
     (case sh_names m name of
        Some g \<Rightarrow> (g, m)
      | None \<Rightarrow> (sh_next m, m\<lparr>sh_names := (sh_names m)(name \<mapsto> sh_next m), sh_mem := (sh_mem m)(sh_next m := zero_view), sh_next := Suc (sh_next m)\<rparr>))"

definition shm_unlink :: "string \<Rightarrow> shm \<Rightarrow> shm" where
  "shm_unlink name m = m\<lparr>sh_names := (sh_names m)(name := None)\<rparr>"

text \<open>\<open>sizeof(ControlView)\<close>: the header, two integers, and entries of 13 bytes aligned to 4.\<close>

definition sizeof_ControlView :: nat where "sizeof_ControlView = 16 + 16 * kMaxBackends"

text \<open>What a list of calls does to the name.\<close>

definition unlinked :: "shm_event list \<Rightarrow> shm \<Rightarrow> shm" where
  "unlinked tr m = (if EUnlink kControlShmName \<in> set tr then shm_unlink kControlShmName m else m)"

text \<open>The constructor of \<open>ShmProvider\<close> in its two modes on the segments that are there, with the system's answers \<open>os\<close>; and the destructor of
  the one that creates.\<close>

definition create_control :: "shm_os \<Rightarrow> shm \<Rightarrow> nat result \<times> shm" where
  "create_control os m =
     (let (g, m1) = (if os_open os < 0 then (0, m) else shm_open_create kControlShmName m) in
      case ShmProvider_new os kControlShmName sizeof_ControlView kCreate (cv_header (sh_mem m1 g)) of
        (Inl e, tr) \<Rightarrow> (Inl e, unlinked tr m1)
      | (Inr (p, h), tr) \<Rightarrow> (Inr g, unlinked tr (shm_write g ((sh_mem m1 g)\<lparr>cv_header := h\<rparr>) m1)))"

definition attach_control :: "shm_os \<Rightarrow> shm \<Rightarrow> nat result" where
  "attach_control os m =
     (case sh_names m kControlShmName of
        None \<Rightarrow> Inl (RuntimeError (''shm_open failed: '' @ kControlShmName))
      | Some g \<Rightarrow> (case fst (ShmProvider_new os kControlShmName sizeof_ControlView kAttach (cv_header (sh_mem m g))) of
            Inl e \<Rightarrow> Inl e
          | Inr (p, h) \<Rightarrow> Inr g))"

definition destroy_control :: "shm \<Rightarrow> shm" where
  "destroy_control m = shm_unlink kControlShmName m"

text \<open>The destructor of a provider that was made so does this to the name.\<close>

lemma destroy_control_dtor:
  "fst (ShmProvider_new os kControlShmName sz kCreate h) = Inr (p, h') \<Longrightarrow> unlinked (ShmProvider_dtor p) m = destroy_control m"
  by (auto simp: ShmProvider_new_def map_segment_def size_segment_def ShmProvider_dtor_def unlinked_def destroy_control_def Let_def
    split: option.splits sum.splits prod.splits if_splits)

lemma create_control_ok:
  assumes "create_control os m = (Inr g, m')"
  shows "\<exists>m1. shm_open_create kControlShmName m = (g, m1) \<and> m' = shm_write g ((sh_mem m1 g)\<lparr>cv_header := InitShmHeader (cv_header (sh_mem m1 g))\<rparr>) m1"
proof -
  obtain g1 m1 where o: "shm_open_create kControlShmName m = (g1, m1)" by fastforce
  with assms show ?thesis
    by (auto simp: create_control_def ShmProvider_new_def map_segment_def size_segment_def ApplyHeader_def unlinked_def Let_def
      split: option.splits sum.splits prod.splits if_splits)
qed

section \<open>The two processes\<close>

text \<open>\<open>RunDataplane\<close> up to its control loop, on the segment it creates or finds.\<close>

definition boot :: "shm_os \<Rightarrow> ring_create \<Rightarrow> Config \<Rightarrow> DpdkPort result \<Rightarrow> u32 \<Rightarrow> ControlBackend list \<Rightarrow> shm
    \<Rightarrow> (nat \<times> shm \<times> BackendPool AtomicRcu \<times> u32 \<times> LcoreArg list) result option" where
  "boot os rc cfg port n snapshot m =
     (case create_control os m of
        (Inl e, m1) \<Rightarrow> Some (Inl e)
      | (Inr g, m1) \<Rightarrow>
          (case RunDataplane rc cfg port n (sh_mem m1 g) snapshot of
             None \<Rightarrow> None
           | Some (Inl e) \<Rightarrow> Some (Inl e)
           | Some (Inr (view, rcu, seq, args)) \<Rightarrow> Some (Inr (g, shm_write g view m1, rcu, seq, args))))"

text \<open>What a monitor does with its segment \<open>g\<close>: rounds of health checks, and polls with whatever counters.\<close>

inductive monitor_runs :: "'s sockets \<Rightarrow> nat \<Rightarrow> Monitor \<times> 's sys \<times> shm \<Rightarrow> Monitor \<times> 's sys \<times> shm \<Rightarrow> bool" for sk g where
  none: "monitor_runs sk g x x"
| health: "monitor_runs sk g x (mo, w, m) \<Longrightarrow> hc_running (mo_health mo) \<Longrightarrow> health_round sk (mo_health mo, w) = (h, w')
    \<Longrightarrow> monitor_runs sk g x (mo\<lparr>mo_health := h\<rparr>, w', m)"
| polled: "monitor_runs sk g x (mo, w, m) \<Longrightarrow> poll sv mo (sh_mem m g) = (mo', v, req) \<Longrightarrow> monitor_runs sk g x (mo', w, shm_write g v m)"

section \<open>A restart nobody hears of\<close>

lemma monitor_runs_elsewhere:
  assumes "monitor_runs sk g x y" and "g' \<noteq> g"
  shows "sh_mem (snd (snd y)) g' = sh_mem (snd (snd x)) g' \<and> mo_shm (fst y) = mo_shm (fst x)"
  using assms(1)
proof (induction rule: monitor_runs.induct)
  case (polled x mo w m sv mo' v req)
  with assms(2) poll_sel(2) [OF polled.hyps(2)] show ?case by (simp add: shm_write_def)
qed simp_all

text \<open>A loop that finds the view as it was applied changes nothing, however long it runs.\<close>

lemma loop_idle:
  assumes "Dataplane_Main.quiet view" and "length snapshot = kMaxBackends"
  shows "RunControlLoop (replicate k view) snapshot rcu (cv_seq view) = Some (Inr (rcu, cv_seq view))"
  using assms(2)
proof (induction k arbitrary: snapshot)
  case (Suc k)
  obtain s where "ReadControl view snapshot = Some (cv_seq view, cv_count view, s)" "length s = kMaxBackends"
    by (rule poll_once [OF assms(1) Suc.prems])
  with Suc.IH show ?case by simp
qed simp

lemma boot_eq:
  assumes m: "create_control os m = (Inr g, m1)" and q: "Dataplane_Main.quiet (sh_mem m1 g)" and snap: "length snapshot = kMaxBackends"
    and cfg: "length (backends cfg) < 2 ^ 32" and run: "boot os rc cfg port n snapshot m = Some (Inr (g', m2, rcu, seq, args))"
  shows "g' = g" and "m2 = shm_write g (SeedControl (sh_mem m1 g) cfg) m1" and "seq = cv_seq (sh_mem m2 g)" and "Dataplane_Main.quiet (sh_mem m2 g)"
    and "rcu = \<lparr>rcu_ptr = Some (pool_of (map seed_entry (take kMaxBackends (backends cfg))))\<rparr>"
proof -
  note eq = RunDataplane_eq [OF q snap cfg]
  have h: "g' = g \<and> m2 = shm_write g (SeedControl (sh_mem m1 g) cfg) m1 \<and> seq = cv_seq (SeedControl (sh_mem m1 g) cfg)
      \<and> rcu = \<lparr>rcu_ptr = Some (pool_of (contents (SeedControl (sh_mem m1 g) cfg)))\<rparr>"
    using run by (auto simp: boot_def m eq(1) bind_r_def split: sum.splits)
  then show "g' = g" "m2 = shm_write g (SeedControl (sh_mem m1 g) cfg) m1" "seq = cv_seq (sh_mem m2 g)" "Dataplane_Main.quiet (sh_mem m2 g)"
    "rcu = \<lparr>rcu_ptr = Some (pool_of (map seed_entry (take kMaxBackends (backends cfg))))\<rparr>"
    using eq(2,4) by (simp_all add: shm_write_def)
qed

lemma boot_created:
  assumes "boot os rc cfg port n snapshot m = Some (Inr (g', m2, rcu, seq, args))"
  obtains g m0 m1 where "create_control os m = (Inr g, m1)" "shm_open_create kControlShmName m = (g, m0)"
    "m1 = shm_write g ((sh_mem m0 g)\<lparr>cv_header := InitShmHeader (cv_header (sh_mem m0 g))\<rparr>) m0"
proof -
  obtain g m1 where c: "create_control os m = (Inr g, m1)" using assms by (auto simp: boot_def split: prod.splits sum.splits)
  with create_control_ok [OF c] that show thesis by blast
qed

lemma seeded_active: "bp_active (pool_of (map seed_entry bs)) = map of_nat [0..<length bs]"
proof -
  have "filter (\<lambda>i. cb_enabled (map seed_entry bs ! i) \<noteq> 0) [0..<length bs] = [0..<length bs]"
    by (rule filter_True) (simp add: seed_entry_def)
  then show ?thesis by (simp add: pool_of_def)
qed

lemma zero_view_quiet: "Dataplane_Main.quiet (zero_view\<lparr>cv_header := h\<rparr>)"
  by (simp add: Dataplane_Main.quiet_def view_ok_def zero_view_def)

text \<open>
  C33. A dataplane that is stopped and started again is lost to the control plane that was running. Stopping it removes the name of the segment, so the new one makes another segment;
  the monitor, which attached the old one when it was constructed, never looks again. Whatever it finds out about the backends and
  publishes from then on, for however long: the new dataplane's view stays as the dataplane seeded it, its control loop runs idle, and its pool keeps every
  configured backend active, those that are down too; and the monitor goes on to report that it is connected.
\<close>

theorem restart_unheard:
  assumes old: "attach_control os m = Inr g" "g < sh_next m" and mo: "mo_shm mo"
    and boot: "boot os' rc cfg port n snapshot (destroy_control m) = Some (Inr (g', m2, rcu, seq, args))"
    and cfg: "length (backends cfg) < 2 ^ 32" "length snapshot = kMaxBackends" and runs: "monitor_runs sk g (mo, w, m2) (mo', w', m3)"
  shows "sh_mem m3 g' = sh_mem m2 g' \<and> RunControlLoop (replicate k (sh_mem m3 g')) snapshot rcu seq = Some (Inr (rcu, seq))
    \<and> (\<exists>pool. rcu = \<lparr>rcu_ptr = Some pool\<rparr> \<and> bp_active pool = map of_nat [0..<min (length (backends cfg)) kMaxBackends]) \<and> DataplaneConnected mo'"
proof -
  obtain g1 m0 m1 where c: "create_control os' (destroy_control m) = (Inr g1, m1)" "shm_open_create kControlShmName (destroy_control m) = (g1, m0)"
    "m1 = shm_write g1 ((sh_mem m0 g1)\<lparr>cv_header := InitShmHeader (cv_header (sh_mem m0 g1))\<rparr>) m0" by (rule boot_created [OF boot])
  have g1: "g1 = sh_next m" "sh_mem m1 g1 = zero_view\<lparr>cv_header := InitShmHeader (cv_header zero_view)\<rparr>"
    using c(2,3) by (auto simp: destroy_control_def shm_unlink_def shm_open_create_def shm_write_def)
  have q: "Dataplane_Main.quiet (sh_mem m1 g1)" unfolding g1(2) by (rule zero_view_quiet)
  note b = boot_eq [OF c(1) q cfg(2,1) boot]
  have "g' \<noteq> g" using b(1) g1(1) old(2) by simp
  from monitor_runs_elsewhere [OF runs this] have r: "sh_mem m3 g' = sh_mem m2 g'" "mo_shm mo'" using mo by simp_all
  moreover have "RunControlLoop (replicate k (sh_mem m2 g')) snapshot rcu seq = Some (Inr (rcu, seq))"
    using loop_idle [OF b(4) cfg(2), of k rcu] b(1,3) by simp
  moreover have "\<exists>pool. rcu = \<lparr>rcu_ptr = Some pool\<rparr> \<and> bp_active pool = map of_nat [0..<min (length (backends cfg)) kMaxBackends]"
    using b(5) seeded_active [of "take kMaxBackends (backends cfg)"] by auto
  ultimately show ?thesis by (simp add: DataplaneConnected_def)
qed

text \<open>
  C34. A dataplane that dies and is started again forgets which backends are down. The segment and its name are still there, the new dataplane
  opens it and seeds it with every configured backend enabled, and applies that. The monitor, which is attached to the same
  segment, compares what it knows only with what it published itself: as long as the health of no backend changes, its polls publish
  nothing, and backends that were down before the restart, and are down still, get connections.
\<close>

theorem crash_revives_backends:
  assumes old: "attach_control os m = Inr g" "Dataplane_Main.quiet (sh_mem m g)" and mo: "mo_published mo = enabled_flags (States (mo_health mo))"
    and boot: "boot os' rc cfg port n snapshot m = Some (Inr (g', m2, rcu, seq, args))"
    and cfg: "length (backends cfg) < 2 ^ 32" "length snapshot = kMaxBackends"
  shows "g' = g \<and> (\<exists>mo' req. poll sv mo (sh_mem m2 g) = (mo', sh_mem m2 g, req) \<and> mo_published mo' = mo_published mo \<and> mo_health mo' = mo_health mo)
    \<and> RunControlLoop (replicate k (sh_mem m2 g)) snapshot rcu seq = Some (Inr (rcu, seq))
    \<and> (\<exists>pool. rcu = \<lparr>rcu_ptr = Some pool\<rparr> \<and> bp_active pool = map of_nat [0..<min (length (backends cfg)) kMaxBackends])"
proof -
  obtain g1 m0 m1 where c: "create_control os' m = (Inr g1, m1)" "shm_open_create kControlShmName m = (g1, m0)"
    "m1 = shm_write g1 ((sh_mem m0 g1)\<lparr>cv_header := InitShmHeader (cv_header (sh_mem m0 g1))\<rparr>) m0" by (rule boot_created [OF boot])
  have n: "sh_names m kControlShmName = Some g" using old(1) by (auto simp: attach_control_def split: option.splits sum.splits prod.splits)
  have g1: "g1 = g" "sh_mem m1 g = (sh_mem m g)\<lparr>cv_header := InitShmHeader (cv_header (sh_mem m g))\<rparr>"
    using c(2,3) n by (auto simp: shm_open_create_def shm_write_def)
  have q: "Dataplane_Main.quiet (sh_mem m1 g1)" using old(2) by (simp add: g1 Dataplane_Main.quiet_def view_ok_def)
  note b = boot_eq [OF c(1) q cfg(2,1) boot]
  have "\<exists>mo' req. poll sv mo (sh_mem m2 g) = (mo', sh_mem m2 g, req) \<and> mo_published mo' = mo_published mo \<and> mo_health mo' = mo_health mo"
    using mo by (simp add: poll_def Monitor_PublishControl_def Let_def case_prod_beta)
  moreover have "RunControlLoop (replicate k (sh_mem m2 g)) snapshot rcu seq = Some (Inr (rcu, seq))"
    using loop_idle [OF b(4) cfg(2), of k rcu] b(3) g1(1) by simp
  moreover have "\<exists>pool. rcu = \<lparr>rcu_ptr = Some pool\<rparr> \<and> bp_active pool = map of_nat [0..<min (length (backends cfg)) kMaxBackends]"
    using b(5) seeded_active [of "take kMaxBackends (backends cfg)"] by auto
  ultimately show ?thesis using b(1) g1(1) by simp
qed

section \<open>An example\<close>

text \<open>A dataplane with one backend, started, attached by the monitor, and started again.\<close>

definition ex_empty :: shm where
  "ex_empty = \<lparr>sh_names = Map.empty, sh_mem = (\<lambda>_. zero_view), sh_next = 0\<rparr>"

definition ex_os :: shm_os where
  "ex_os = \<lparr>os_open = 5, os_fstat = 0, os_size = 1040, os_ftruncate = 0, os_fchmod = 0, os_mmap = Some 4096\<rparr>"

definition ex_first :: shm where
  "ex_first = snd (create_control ex_os ex_empty)"

lemma ex_create: "create_control ex_os m = (let (g, m1) = shm_open_create kControlShmName m
    in (Inr g, shm_write g ((sh_mem m1 g)\<lparr>cv_header := InitShmHeader (cv_header (sh_mem m1 g))\<rparr>) m1))"
  by (simp add: create_control_def ShmProvider_new_def map_segment_def size_segment_def ApplyHeader_def unlinked_def ex_os_def Let_def
    split: prod.splits)

lemma ex_first_sel: "attach_control ex_os ex_first = Inr 0" "sh_next ex_first = 1" "Dataplane_Main.quiet (sh_mem ex_first 0)"
proof -
  let ?v = "zero_view\<lparr>cv_header := InitShmHeader (cv_header zero_view)\<rparr>"
  have f: "sh_names ex_first kControlShmName = Some 0" "sh_mem ex_first 0 = ?v" "sh_next ex_first = 1"
    by (simp_all add: ex_first_def ex_create shm_open_create_def ex_empty_def shm_write_def)
  have "\<exists>p. fst (ShmProvider_new ex_os kControlShmName sizeof_ControlView kAttach (InitShmHeader h)) = Inr (p, InitShmHeader h)" for h
    by (simp add: attach_iff InitShmHeader_def) (simp add: ex_os_def sizeof_ControlView_def kMaxBackends_def)
  then obtain p where "fst (ShmProvider_new ex_os kControlShmName sizeof_ControlView kAttach (InitShmHeader (cv_header zero_view)))
      = Inr (p, InitShmHeader (cv_header zero_view))" by blast
  then show "attach_control ex_os ex_first = Inr 0" by (simp add: attach_control_def f)
  show "sh_next ex_first = 1" "Dataplane_Main.quiet (sh_mem ex_first 0)" using f(3) zero_view_quiet by (simp_all add: f(2))
qed

lemma ex_boot_runs:
  assumes "shm_open_create kControlShmName m = (g, m1)" and "Dataplane_Main.quiet (sh_mem m1 g)"
  shows "\<exists>m2 rcu seq args. boot ex_os fifo_rings ex_cp_cfg (Inr ex_port) 3 ex_buffer m = Some (Inr (g, m2, rcu, seq, args))"
proof -
  let ?v = "(sh_mem m1 g)\<lparr>cv_header := InitShmHeader (cv_header (sh_mem m1 g))\<rparr>"
  have cfg: "length (backends ex_cp_cfg) < 2 ^ 32" "length ex_buffer = kMaxBackends" by (simp_all add: ex_cp_cfg_def)
  have "\<exists>args. launch fifo_rings ex_cp_cfg (Inr ex_port) 3 = Inr args"
    by (simp add: two_upt launch_def Let_def kMaxLcores_def Ring_new_def fifo_rings_def)
  moreover have "Dataplane_Main.quiet ?v" using assms(2) by (simp add: Dataplane_Main.quiet_def view_ok_def)
  moreover have "create_control ex_os m = (Inr g, shm_write g ?v m1)" using assms(1) by (simp add: ex_create)
  ultimately show ?thesis using RunDataplane_eq(1) [OF _ cfg(2,1), of ?v fifo_rings "Inr ex_port" 3] by (auto simp: boot_def shm_write_def)
qed

theorem restart_unheard_witness:
  "\<exists>g' m2 rcu seq args pool. boot ex_os fifo_rings ex_cp_cfg (Inr ex_port) 3 ex_buffer (destroy_control ex_first) = Some (Inr (g', m2, rcu, seq, args))
    \<and> rcu = \<lparr>rcu_ptr = Some pool\<rparr> \<and> bp_active pool = [0] \<and> DataplaneConnected ex_monitor"
proof -
  obtain g m1 where o: "shm_open_create kControlShmName (destroy_control ex_first) = (g, m1)" by fastforce
  then have "sh_mem m1 g = zero_view" by (auto simp: shm_open_create_def destroy_control_def shm_unlink_def)
  then have "Dataplane_Main.quiet (sh_mem m1 g)" by (simp add: Dataplane_Main.quiet_def view_ok_def zero_view_def)
  from ex_boot_runs [OF o this] obtain g' m2 rcu seq args where
    b: "boot ex_os fifo_rings ex_cp_cfg (Inr ex_port) 3 ex_buffer (destroy_control ex_first) = Some (Inr (g', m2, rcu, seq, args))" by blast
  have h: "0 < sh_next ex_first" "mo_shm ex_monitor" "length (backends ex_cp_cfg) < 2 ^ 32" "length ex_buffer = kMaxBackends" "length (backends ex_cp_cfg) = 1"
    by (simp_all add: ex_first_sel(2) ex_monitor_def ex_cp_cfg_def)
  from restart_unheard [OF ex_first_sel(1) h(1,2) b h(3,4) monitor_runs.none [of ex_sockets 0 "(ex_monitor, \<lparr>sys_state = 3, sys_fds = []\<rparr>, m2)"]]
  obtain pool where "rcu = \<lparr>rcu_ptr = Some pool\<rparr>" "bp_active pool = map of_nat [0..<min 1 kMaxBackends]" "DataplaneConnected ex_monitor"
    unfolding h(5) by blast
  with b show ?thesis by (auto simp: kMaxBackends_def)
qed

text \<open>The backend is down, which was published.\<close>

theorem crash_revives_backends_witness:
  "\<exists>m2 rcu seq args pool mo' req. boot ex_os fifo_rings ex_cp_cfg (Inr ex_port) 3 ex_buffer ex_first = Some (Inr (0, m2, rcu, seq, args))
    \<and> poll (ex_stats 0) (ex_monitor\<lparr>mo_published := [0]\<rparr>) (sh_mem m2 0) = (mo', sh_mem m2 0, req) \<and> rcu = \<lparr>rcu_ptr = Some pool\<rparr> \<and> bp_active pool = [0]"
proof -
  have o: "shm_open_create kControlShmName ex_first = (0, ex_first)"
    by (simp add: ex_first_def ex_create shm_open_create_def ex_empty_def shm_write_def)
  from ex_boot_runs [OF o ex_first_sel(3)] obtain m2 rcu seq args where
    b: "boot ex_os fifo_rings ex_cp_cfg (Inr ex_port) 3 ex_buffer ex_first = Some (Inr (0, m2, rcu, seq, args))" by blast
  have h: "mo_published (ex_monitor\<lparr>mo_published := [0]\<rparr>) = enabled_flags (States (mo_health (ex_monitor\<lparr>mo_published := [0]\<rparr>)))"
    "length (backends ex_cp_cfg) < 2 ^ 32" "length ex_buffer = kMaxBackends" "length (backends ex_cp_cfg) = 1"
    by (simp_all add: ex_monitor_def ex_cp_cfg_def enabled_flags_def States_def Start_def HealthChecker_new_def)
  from crash_revives_backends [OF ex_first_sel(1,3) h(1) b h(2,3), of "ex_stats 0"]
  obtain mo' req pool where "poll (ex_stats 0) (ex_monitor\<lparr>mo_published := [0]\<rparr>) (sh_mem m2 0) = (mo', sh_mem m2 0, req)"
    "rcu = \<lparr>rcu_ptr = Some pool\<rparr>" "bp_active pool = map of_nat [0..<min 1 kMaxBackends]" unfolding h(4) by blast
  with b show ?thesis by (auto simp: kMaxBackends_def)
qed

end
