(* ===== verification/Spec2Isabelle.thy ===== *)
theory Spec2Isabelle
  imports Fleet_Props Lifetime System Whole_Props Restart
begin

text \<open>
  \<^bold>\<open>Cerebellum, an L4 load balancer: verification development.\<close>

  \<^bold>\<open>The program.\<close> The dataplane (\<open>src/dataplane\<close>, C++ on DPDK) answers for one virtual address and
  port. A packet of a client is given a backend by hashing its five-tuple, gets a source port of
  the balancer's own address, and is rewritten towards the backend (full NAT); the reply is found
  by its reverse key and rewritten back. Packets travel in frames of at most 64 buffers through a graph of
  nodes run by a dispatcher. One core runs the whole graph, or a distributor core
  steers packets through rings to worker cores, each with its own connection table and its own
  share of the ports. The control plane (\<open>src/controlplane\<close>, on userver) probes the backends, publishes
  the set of usable ones in shared memory under a sequence lock, aggregates the statistics of the cores, and
  serves both over HTTP. The main thread of the dataplane polls the shared view and replaces
  the pool of backends that the nodes read through an RCU cell.

  \<^bold>\<open>The theories\<close>, each with the sources it models:

  \<^item> \<open>Cere_Prelude\<close>: widths of integers, the error type \<open>cpp_error\<close> (exceptions, failed assertions, failed
    allocations) and \<open>'a result\<close>, shared lemmas on words, masks and probe sequences.
  \<^item> \<open>Net_Types\<close>: \<open>libs/common\<close>. Addresses as text through \<open>sscanf\<close>; the configuration loader over a
    YAML library that is a parameter. Printing and parsing addresses is a round trip, and a
    document that states a configuration loads as that configuration.
  \<^item> \<open>Flow_Key\<close>: \<open>net/flow_key.hpp\<close>. The packed key, both hash functions, steering.
  \<^item> \<open>Port_Pool\<close>: \<open>lb/port_pool.hpp\<close>. Which ports a worker gets, the locale \<open>port_allocator\<close> with the
    laws of acquiring and releasing, interpreted on the pool; constructors that do not return.
  \<^item> \<open>Backend_Pool\<close>: \<open>lb/backend_pool.hpp\<close>, \<open>lb/atomic_rcu.hpp\<close>.
  \<^item> \<open>Nat_Table\<close>, \<open>Nat_Invariant\<close>, \<open>Nat_Spec\<close>: \<open>lb/nat_table.hpp\<close>. Both open-addressing arrays; their
    invariant; the refinement of an abstract map of live connections.
  \<^item> \<open>Ipc_Types\<close>, \<open>Control_View\<close>, \<open>Shm_Provider\<close>: \<open>libs/ipc\<close>. The layout of the shared views; the
    sequence lock, as functions and as a step relation that interleaves one writer and one reader at each access; the
    life of a segment with the answers of the system calls as a parameter.
  \<^item> \<open>Lb_Node\<close>, \<open>Lb_Invariant\<close>, \<open>Lb_Props\<close>, \<open>Lb_Flows\<close>, \<open>Lb_Reply\<close>: \<open>nodes/lb_node\<close>. The node's state is the table, one
    port pool for each backend slot, and counters. The ledger of ports, totality, session affinity, opening and
    closing connections, replies. The locale \<open>flow_fact\<close>: what holds of flows when they are made holds of
    all flows in use and of the packets let through; interpreted on the addresses of the flows twice, and on where a flow came from.
  \<^item> \<open>Packet\<close>, \<open>Packet_Nodes\<close>, \<open>Nat_Roundtrip\<close>: \<open>graph/packet_meta.hpp\<close>, \<open>lb/steering.hpp\<close> and the nodes
    that parse, rewrite and answer ARP, on the bytes of a packet. The round trip of a client's packet and its
    answer through the whole path, and steering that agrees with parsing and with the port shares.
  \<^item> \<open>Frame_Graph\<close>, \<open>Dispatch_Inv\<close>, \<open>Dispatch_Typed\<close>: \<open>graph/\<close>. Frames in a pool, passed by pointer; the graph; the
    dispatcher. The locale \<open>node_net\<close> is the contract of a graph's nodes (a node accounts for every packet, outputs are
    wired and lead downwards); in it, a pass ends and conserves packets. Its extension \<open>typed_net\<close> adds a condition on the
    packets at each node; in it, a pass keeps what the nodes keep.
  \<^item> \<open>Io_Nodes\<close>: the nodes at the edges and \<open>Process\<close> of every node, over devices that are a parameter.
  \<^item> \<open>Dpdk_Port\<close>: \<open>io/dpdk_port\<close>, \<open>io/eal\<close>. Setting up the port over the answers of DPDK, a parameter.
  \<^item> \<open>Main_Graph\<close>, \<open>Dataplane_Main\<close>: \<open>dataplane/src/main.cpp\<close>. The four graphs, with an interpretation of \<open>node_net\<close> for
    each; the loops of the cores; pools from control entries, roles of the cores, start-up, the control loop.
  \<^item> \<open>Wire_Frames\<close>: what the cores transmit and put on the rings, from an interpretation of \<open>typed_net\<close> for each
    graph, and what happens to a packet whose IPv4 header is too short. No code rejects such a packet; all conditions are relative to a set \<open>Z\<close> of buffers that is left out.
  \<^item> \<open>Core_Steps\<close>, \<open>Core_Inv\<close>: \<open>RunMono\<close>, \<open>RunWorker\<close>, \<open>RunIo\<close> and \<open>graph/dispatcher.cpp\<close> again, as a machine whose step is
    a test of a loop, the taking of a node off the queue, or one call of \<open>Process\<close>. Run alone it computes what \<open>LcoreMain\<close>
    does; its invariant holds between any two steps, on a device state others change; once told to stop, every step leaves less work.
  \<^item> \<open>Ring_Ledger\<close>: what DPDK promises of rings, and what a step of a core moves from and to them.
  \<^item> \<open>Fleet\<close>, \<open>Fleet_Props\<close>: the rings and cores that \<open>RunDataplane\<close> makes, \<open>OnSignal\<close>, and the relation \<open>fleet_step\<close> that
    interleaves the cores, the network card, the control thread and the signal. The invariant of all reachable states; from it
    the properties of the whole dataplane.
  \<^item> \<open>Lifetime\<close>: \<open>main\<close> and \<open>RunDataplane\<close> with the objects they own (\<open>io/ring.hpp\<close>, \<open>io/eal.hpp\<close>): what is made, used and
    given back in which order, on normal and on error paths.
  \<^item> \<open>Health_Checker\<close>, \<open>Monitor\<close>: \<open>controlplane\<close>. Probes and rounds, rates, publication, metrics, the two HTTP handlers.
  \<^item> \<open>System\<close>: the control plane and the control loop, from a probe to the pool, and two ways to lose service.
  \<^item> \<open>Whole_System\<close>, \<open>Wire_Runs\<close>, \<open>Whole_Props\<close>: everything at once. The relation \<open>sys_step\<close> interleaves \<open>dp_step\<close>, the dataplane's \<open>fleet_step\<close> on the pool that is in the cell and rounds of
    \<open>RunControlLoop\<close>, with \<open>cp_step\<close>, a control plane that is constructed and destroyed at any time, probes and polls, on the control view and on
    the counters of the cores. \<open>Wire_Runs\<close> carries what is transmitted over to runs in which any packets arrive. Its invariant discharges what \<open>Fleet\<close> assumes of the pools and what \<open>System\<close> takes as given; the properties
    of the whole program follow.
  \<^item> \<open>Restart\<close>: one process restarted while the other runs, with the shared segment found by its name (\<open>ShmProvider\<close>, \<open>RunDataplane\<close>, \<open>MonitorComponent\<close>). What POSIX
    says of the names of segments is written out as definitions; whether the system calls succeed is an argument.

  \<^bold>\<open>How code becomes definitions.\<close> Structs are records, enums datatypes; unsigned integers are words of their
  width, so that sums wrap. A call that can throw or fail an assertion returns an error value. Pointers into a table or
  pool are indices. A fixed array (the six bytes of \<open>MacAddr\<close>, the entries of a view) is a list, and its length a predicate
  (\<open>MacAddr_ok\<close>, \<open>view_ok\<close>) that the operations keep. What the code reads from other threads or the outside (time, devices, sockets, the RCU cell, the
  results of system calls, the CRC instruction, DPDK's header functions) is an argument, with the documented laws as named
  hypotheses: \<open>dev_ok\<close> for the burst functions (never more packets than asked for), \<open>hdr_len_local\<close> for the header
  length; \<open>ring_laws\<close> for rings (first in, first out), \<open>rings_named\<close> for their handles. Nothing is assumed of the packets that arrive. What may be on a ring is a
  contract (\<open>env_ok\<close>) that a core relies on; that the others keep it is part of the invariant of \<open>Fleet\<close>, so that the properties of the dataplane do not assume it. That the pools read through the RCU cell are built by \<open>BuildPool\<close> from backends a configuration names is a hypothesis on the devices in \<open>Fleet\<close>, and part of
  the invariant of \<open>Whole_System\<close>, whose hypotheses \<open>comes_up\<close> only speak of the devices, the network and the start.

  \<^bold>\<open>Loops.\<close> Loops over a list or a counter are structural or have a termination proof. Loops that
  may run for ever are \<open>partial_function (option)\<close>: the fill loops of the pools, \<open>ReadControl\<close> and the dispatcher's
  loop; that the latter returns is proved from the ranks of the nodes, that the former do not return in certain cases is proved too.
  The loops that end with a signal or with \<open>Stop\<close> take the number of rounds; the theorems hold for every number, so no fuel
  is chosen. In \<open>Fleet\<close> and \<open>Whole_System\<close> the loops read the flag the signal handler clears; that the cores return after it is proved for fair runs.

  \<^bold>\<open>What the theorems show.\<close> Of the whole program in every reachable state: nothing aborts, no packet is lost, frames are fit for the wire and go only to backends that are
  configured unless the packet came in with a header under 20 bytes, the pool follows the health checker, a backend known to be down gets no new connection, the rates on the API are the packets that went through, and a signal stops it. Of the dataplane in every reachable state: no core aborts, packets are conserved, the rings keep
  the order and bring each worker what is steered to it, connections of different workers share no port and their answers are steered back; it stops on a signal, and the process gives back what it took, not before the cores are done with it. Safety and totality of the load balancer over all histories; conservation of ports; affinity, reachability of the client, transparency on the bytes; refinement of the connection map;
  consistency of snapshots under interleaving; that what the health checker knows is what the balancer
  uses; errors at start-up; exactness of the rates. And, as theorems about the code as it is, where it falls short:
  ports are never recovered from timed-out flows once a pool is empty, stale cells fill the reverse index, constructors
  that loop for ever, header lengths that nothing checks, a leaked buffer pool, launches whose result is ignored, an outage when the control plane starts, a torn publication that nothing repairs, a restarted dataplane that the control plane no longer reaches, and one that forgets which backends are down.

  \<^bold>\<open>Not modelled.\<close> Parsing the command line (a library's), the log output of \<open>main\<close>, failing allocations,
  the interleaving of cores within one call of \<open>Process\<close> (its ring operations count as one step), weak memory beyond the order of the accesses of the sequence lock, tearing within one entry that it copies (an entry is one access) (in \<open>Whole_System\<close> a poll, which reads all counters and may publish, and a
  round of the control loop are one step each), the registration of components with userver and its configuration schema, reclamation of
  pools behind the RCU cell, the alignment of counters, prefetch hints, and everything outside the C++ sources.
  The frequency of the timer is taken to be at least 1 kHz (\<open>NowMs\<close> divides by its thousandth). Buffers are
  read without a length check in the source; the model's bytes are total for that reason.
\<close>

end
